(* ===== verification/EzPrelude.thy ===== *)
theory EzPrelude
  imports Main "HOL-Library.Word" "HOL-Library.Monad_Syntax"
begin

text \<open>
  Shared vocabulary of the ez_router development: the C integer types as words, memory
  blocks as byte lists with bounds-checked copies (\<open>None\<close> is an access outside the
  block), and the search loops \<open>for (i = 0; i < N; i++) if (P(t[i])) ...\<close> that every
  table of the program uses. The lemmas on these are the automation of the components.
\<close>

type_synonym u8 = "8 word"
type_synonym u16 = "16 word"
type_synonym u32 = "32 word"
type_synonym u64 = "64 word"

named_theorems mem_simps "what the bounds-checked memory operations return"
named_theorems slot_simps "facts on first-match searches over tables"

text \<open>Sizes as \<open>size_t\<close>.\<close>

lemma unat_u64: "n < 2 ^ 64 \<Longrightarrow> unat (word_of_nat n :: u64) = n"
  by (simp add: unat_of_nat)

section \<open>Lists updated by index\<close>

lemma nth_list_update_if:
  "i < length xs \<Longrightarrow> (xs[j := x]) ! i = (if i = j then x else xs ! i)"
  by simp

lemma in_set_updateD:
  assumes "y \<in> set (xs[i := x])"
  shows "y = x \<or> (\<exists>j < length xs. j \<noteq> i \<and> y = xs ! j)"
proof -
  from assms obtain j where "j < length xs" and "y = xs[i := x] ! j"
    by (auto simp: in_set_conv_nth)
  then show ?thesis by (cases "j = i") auto
qed

lemma count_filter_update_grow:
  "i < length xs \<Longrightarrow> \<not> P (xs ! i) \<Longrightarrow> P x \<Longrightarrow>
     length (filter P (xs[i := x])) = Suc (length (filter P xs))"
proof (induction xs arbitrary: i)
  case Nil
  then show ?case by simp
next
  case (Cons y xs)
  then show ?case by (cases i) auto
qed

lemma count_filter_update_shrink:
  "i < length xs \<Longrightarrow> P (xs ! i) \<Longrightarrow> \<not> P x \<Longrightarrow>
     Suc (length (filter P (xs[i := x]))) = length (filter P xs)"
proof (induction xs arbitrary: i)
  case Nil
  then show ?case by simp
next
  case (Cons y xs)
  then show ?case by (cases i) auto
qed

section \<open>First-match search\<close>

text \<open>The index of the first element that satisfies the condition of the loop.\<close>

fun find_index :: "('a \<Rightarrow> bool) \<Rightarrow> 'a list \<Rightarrow> nat option" where
  "find_index P [] = None"
| "find_index P (x # xs) = (if P x then Some 0 else map_option Suc (find_index P xs))"

lemma find_index_None [slot_simps]: "find_index P xs = None \<longleftrightarrow> (\<forall>x \<in> set xs. \<not> P x)"
  by (induction xs) auto

lemma find_index_Some:
  "find_index P xs = Some i \<longleftrightarrow> i < length xs \<and> P (xs ! i) \<and> (\<forall>j < i. \<not> P (xs ! j))"
proof (induction xs arbitrary: i)
  case Nil
  then show ?case by simp
next
  case (Cons x xs)
  show ?case
    by (cases i) (auto simp: Cons.IH All_less_Suc2)
qed

lemma find_index_SomeD:
  assumes "find_index P xs = Some i"
  shows "i < length xs" and "P (xs ! i)" and "\<And>j. j < i \<Longrightarrow> \<not> P (xs ! j)"
  using assms by (auto simp: find_index_Some)

lemma find_index_unique:
  assumes "i < length xs" and "P (xs ! i)"
    and "\<And>j. j < length xs \<Longrightarrow> P (xs ! j) \<Longrightarrow> j = i"
  shows "find_index P xs = Some i"
proof -
  have "\<not> P (xs ! j)" if "j < i" for j
    using assms(3) [of j] that assms(1) by linarith
  with assms(1,2) show ?thesis by (simp add: find_index_Some)
qed

lemma find_index_map: "find_index P (map f xs) = find_index (\<lambda>x. P (f x)) xs"
  by (induction xs) auto

lemma find_index_cong:
  assumes "length xs = length ys" and "\<And>i. i < length xs \<Longrightarrow> P (xs ! i) = Q (ys ! i)"
  shows "find_index P xs = find_index Q ys"
proof -
  have "map P xs = map Q ys" using assms by (auto intro: nth_equalityI)
  then show ?thesis
    using find_index_map [of "\<lambda>b. b" P xs] find_index_map [of "\<lambda>b. b" Q ys] by simp
qed

lemma find_index_replicate:
  "find_index P (replicate n x) = (if 0 < n \<and> P x then Some 0 else None)"
  by (cases n) (auto simp: find_index_None)

lemma find_conv_find_index:
  "find P xs = map_option (\<lambda>i. xs ! i) (find_index P xs)"
  by (induction xs) (auto simp: option.map_comp comp_def)

section \<open>Memory blocks\<close>

text \<open>
  A C array or buffer is the list of its cells. \<open>memcpy dst off src n\<close> copies the first
  \<open>n\<close> cells of \<open>src\<close> to offset \<open>off\<close> of \<open>dst\<close>; \<open>memmove_in\<close> moves a run inside one
  block. Both give \<open>None\<close> where the C call would read or write outside a block.
\<close>

definition memcpy :: "'a list \<Rightarrow> nat \<Rightarrow> 'a list \<Rightarrow> nat \<Rightarrow> 'a list option" where
  "memcpy dst off src n =
     (if n \<le> length src \<and> off + n \<le> length dst
      then Some (take off dst @ take n src @ drop (off + n) dst) else None)"

definition memmove_in :: "'a list \<Rightarrow> nat \<Rightarrow> nat \<Rightarrow> nat \<Rightarrow> 'a list option" where
  "memmove_in blk dst src n =
     (if src + n \<le> length blk then memcpy blk dst (drop src blk) n else None)"

definition store :: "'a list \<Rightarrow> nat \<Rightarrow> 'a \<Rightarrow> 'a list option" where
  "store blk i x = (if i < length blk then Some (blk[i := x]) else None)"

lemma memcpy_None [mem_simps]:
  "memcpy dst off src n = None \<longleftrightarrow> length src < n \<or> length dst < off + n"
  by (auto simp: memcpy_def)

lemma memcpy_Some [mem_simps]:
  "n \<le> length src \<Longrightarrow> off + n \<le> length dst \<Longrightarrow>
     memcpy dst off src n = Some (take off dst @ take n src @ drop (off + n) dst)"
  by (simp add: memcpy_def)

lemma memcpy_length: "memcpy dst off src n = Some dst' \<Longrightarrow> length dst' = length dst"
  by (auto simp: memcpy_def split: if_splits)

lemma memmove_in_Some [mem_simps]:
  "src + n \<le> length blk \<Longrightarrow> dst + n \<le> length blk \<Longrightarrow>
     memmove_in blk dst src n = Some (take dst blk @ take n (drop src blk) @ drop (dst + n) blk)"
  by (simp add: memmove_in_def memcpy_def)

lemma store_Some [mem_simps]: "i < length blk \<Longrightarrow> store blk i x = Some (blk[i := x])"
  by (simp add: store_def)

end
