(* ===== verification/CString.thy ===== *)
theory CString
  imports EzPrelude
begin

text \<open>
  C strings. A fixed array \<open>char s[N]\<close> is a list of \<open>N\<close> bytes; the string it holds is the
  run before its first NUL (\<open>cstr\<close>). A string argument (\<open>const char*\<close>) is the list of its
  bytes, read by \<open>cstr\<close> too, so that a byte list without a NUL stands for the string with
  the terminator right behind it. The functions are those of \<open>string.h\<close> the program
  calls, on the cases it calls them in, and \<open>copy_field\<close> of \<^verbatim>\<open>registry.c\<close>.
\<close>

type_synonym cbuf = "u8 list"

definition bytes :: "string \<Rightarrow> u8 list" where
  "bytes s = map of_char s"

definition cstr :: "cbuf \<Rightarrow> u8 list" where
  "cstr b = takeWhile (\<lambda>c. c \<noteq> 0) b"

definition nul_terminated :: "cbuf \<Rightarrow> bool" where
  "nul_terminated b \<longleftrightarrow> 0 \<in> set b"

definition c_strlen :: "cbuf \<Rightarrow> nat" where
  "c_strlen b = length (cstr b)"

text \<open>\<open>strcmp(a, b) == 0\<close>, and \<open>strncmp(a, b, n) == 0\<close>.\<close>

definition strcmp_eq :: "cbuf \<Rightarrow> cbuf \<Rightarrow> bool" where
  "strcmp_eq a b \<longleftrightarrow> cstr a = cstr b"

definition strncmp_eq :: "cbuf \<Rightarrow> cbuf \<Rightarrow> nat \<Rightarrow> bool" where
  "strncmp_eq a b n \<longleftrightarrow> take n (cstr a) = take n (cstr b)"

text \<open>\<open>tolower\<close> in the C locale, and \<open>strcasecmp(a, b) == 0\<close>.\<close>

definition c_tolower :: "u8 \<Rightarrow> u8" where
  "c_tolower c = (if 65 \<le> c \<and> c \<le> 90 then c + 32 else c)"

definition strcasecmp_eq :: "cbuf \<Rightarrow> cbuf \<Rightarrow> bool" where
  "strcasecmp_eq a b \<longleftrightarrow> map c_tolower (cstr a) = map c_tolower (cstr b)"

text \<open>
  \<open>strncpy(dst, src, n)\<close>: exactly \<open>n\<close> cells are written, the string and then NULs; no NUL
  at all when the string has \<open>n\<close> bytes or more.
\<close>

definition strncpy :: "cbuf \<Rightarrow> u8 list \<Rightarrow> nat \<Rightarrow> cbuf" where
  "strncpy dst src n =
     take n (cstr src) @ replicate (n - length (cstr src)) 0 @ drop n dst"

text \<open>
  \<open>snprintf\<close> of a text into a buffer of \<open>cap\<close> bytes: the text cut to \<open>cap - 1\<close> bytes and a
  NUL; the cells behind it keep what they held.
\<close>

definition snprintf_into :: "cbuf \<Rightarrow> nat \<Rightarrow> u8 list \<Rightarrow> cbuf" where
  "snprintf_into dst cap txt =
     (if cap = 0 then dst
      else let n = min (length txt) (cap - 1)
           in take n txt @ [0] @ drop (Suc n) dst)"

section \<open>Reading strings\<close>

lemma cstr_no_nul: "0 \<notin> set (cstr b)"
  by (auto simp: cstr_def dest: set_takeWhileD)

lemma cstr_id [simp]: "0 \<notin> set s \<Longrightarrow> cstr s = s"
  by (simp add: cstr_def takeWhile_eq_all_conv) metis

lemma cstr_idem [simp]: "cstr (cstr b) = cstr b"
  by (simp add: cstr_no_nul)

lemma cstr_Nil [simp]: "cstr [] = []"
  by (simp add: cstr_def)

lemma cstr_Nul [simp]: "cstr (0 # b) = []"
  by (simp add: cstr_def)

lemma cstr_Cons: "cstr (c # b) = (if c = 0 then [] else c # cstr b)"
  by (simp add: cstr_def)

lemma cstr_append_nul: "0 \<notin> set s \<Longrightarrow> cstr (s @ 0 # b) = s"
  unfolding cstr_def by (subst takeWhile_append2) auto

lemma length_cstr_le: "length (cstr b) \<le> length b"
  by (simp add: cstr_def length_takeWhile_le)

lemma length_cstr_less: "nul_terminated b \<Longrightarrow> length (cstr b) < length b"
  by (induction b) (auto simp: nul_terminated_def cstr_def)

lemma take_cstr_no_nul: "0 \<notin> set (take n (cstr b))"
  using cstr_no_nul in_set_takeD by metis

lemma cstr_replicate_nul [simp]: "cstr (replicate n 0) = []"
  by (cases n) auto

lemma strcmp_eq_refl [simp]: "strcmp_eq a a"
  by (simp add: strcmp_eq_def)

lemma strcmp_eq_sym: "strcmp_eq a b = strcmp_eq b a"
  by (auto simp: strcmp_eq_def)

lemma strcmp_eq_trans: "strcmp_eq a b \<Longrightarrow> strcmp_eq b c \<Longrightarrow> strcmp_eq a c"
  by (simp add: strcmp_eq_def)

lemma strcmp_eq_cong: "strcmp_eq a b \<Longrightarrow> strcmp_eq a c = strcmp_eq b c"
  by (simp add: strcmp_eq_def)

text \<open>
  On strings shorter than the bound, \<open>strncmp\<close> decides what \<open>strcmp\<close> decides.
\<close>

lemma strncmp_eq_strcmp_eq:
  "length (cstr a) \<le> n \<Longrightarrow> length (cstr b) \<le> n \<Longrightarrow> strncmp_eq a b n = strcmp_eq a b"
  by (simp add: strncmp_eq_def strcmp_eq_def)

lemma strcmp_eq_strcasecmp_eq: "strcmp_eq a b \<Longrightarrow> strcasecmp_eq a b"
  by (simp add: strcmp_eq_def strcasecmp_eq_def)

section \<open>Writing strings\<close>

lemma cstr_append: "cstr (s @ r) = (if 0 \<in> set s then cstr s else s @ cstr r)"
  by (induction s) (auto simp: cstr_def)

lemma strncpy_length [simp]:
  "n \<le> length dst \<Longrightarrow> length (strncpy dst src n) = length dst"
  by (simp add: strncpy_def)

text \<open>
  The idiom \<open>strncpy(dst, src, sizeof(dst) - 1)\<close> is a truncating copy as long as the last
  cell of the array holds a NUL beforehand.
\<close>

lemma cstr_strncpy:
  assumes "length dst = Suc n" and "dst ! n = 0"
  shows "cstr (strncpy dst src n) = take n (cstr src)"
proof -
  have d: "drop n dst = [0]"
    using assms by (simp add: Cons_nth_drop_Suc [symmetric])
  show ?thesis
  proof (cases "n \<le> length (cstr src)")
    case True
    then show ?thesis by (simp add: strncpy_def d cstr_append_nul take_cstr_no_nul)
  next
    case False
    then obtain k where "n - length (cstr src) = Suc k"
      by (metis Suc_diff_Suc not_le)
    with False show ?thesis
      by (simp add: strncpy_def cstr_append_nul cstr_no_nul)
  qed
qed

lemma strncpy_last:
  assumes "length dst = Suc n"
  shows "strncpy dst src n ! n = dst ! n"
proof -
  have "length (take n (cstr src) @ replicate (n - length (cstr src)) 0) = n" by simp
  then have "strncpy dst src n ! n = drop n dst ! 0"
    unfolding strncpy_def append_assoc [symmetric] by (simp add: nth_append del: append_assoc)
  then show ?thesis using assms by simp
qed

lemma snprintf_into_length [simp]:
  "length dst = cap \<Longrightarrow> length (snprintf_into dst cap txt) = cap"
  by (auto simp: snprintf_into_def Let_def)

lemma cstr_snprintf_into:
  assumes "0 < cap" and "0 \<notin> set txt"
  shows "cstr (snprintf_into dst cap txt) = take (cap - 1) txt"
proof -
  have "0 \<notin> set (take (cap - 1) txt)"
    using assms(2) by (meson in_set_takeD)
  with assms show ?thesis
    by (auto simp: snprintf_into_def Let_def cstr_append_nul min_def)
qed

lemma nul_terminated_snprintf_into: "0 < cap \<Longrightarrow> nul_terminated (snprintf_into dst cap txt)"
  by (auto simp: snprintf_into_def nul_terminated_def Let_def)

section \<open>Decimal numbers\<close>

text \<open>\<open>%d\<close>.\<close>

fun dec_nat :: "nat \<Rightarrow> u8 list" where
  "dec_nat n = (if n < 10 then [48 + word_of_nat n] else dec_nat (n div 10) @ [48 + word_of_nat (n mod 10)])"

declare dec_nat.simps [simp del]

definition dec_int :: "int \<Rightarrow> u8 list" where
  "dec_int i = (if i < 0 then 45 # dec_nat (nat (- i)) else dec_nat (nat i))"

text \<open>Decimal numbers read back.\<close>

fun undec :: "u8 list \<Rightarrow> nat \<Rightarrow> nat" where
  "undec [] acc = acc"
| "undec (c # cs) acc = undec cs (10 * acc + (unat c - 48))"

lemma undec_append: "undec (xs @ ys) acc = undec ys (undec xs acc)"
  by (induction xs arbitrary: acc) simp_all

lemma unat_digit: "d < 10 \<Longrightarrow> unat (48 + word_of_nat d :: u8) = 48 + d"
proof -
  assume "d < 10"
  then have "unat (word_of_nat (48 + d) :: u8) = 48 + d" by (simp only: unat_of_nat) simp
  then show ?thesis by simp
qed

lemma undec_dec_nat: "undec (dec_nat n) 0 = n"
proof (induction n rule: dec_nat.induct)
  case (1 n)
  show ?case
  proof (cases "n < 10")
    case True
    then show ?thesis by (simp add: dec_nat.simps [of n] unat_digit)
  next
    case False
    with 1 show ?thesis by (simp add: dec_nat.simps [of n] undec_append unat_digit)
  qed
qed

end
