(* ===== verification/FrameStream.thy ===== *)
theory FrameStream
  imports EzPrelude
begin

text \<open>
  The contract between a frame decoder and the code that reads a byte stream: what the
  decoder must promise for a reader that gets the stream in arbitrary pieces to see the
  same frames as one that gets it whole. \<open>dec\<close> looks at the bytes received so far and
  gives a frame, an error, or the error \<open>more\<close> that asks for more bytes; \<open>fsize\<close> is how many
  bytes a frame takes. The provider is the codec (\<open>Protocol\<close>), the client the IPC
  connection loop (\<open>IpcServer\<close>).
\<close>

section \<open>Reading a stream\<close>

text \<open>All frames at the front of the bytes, the error that stops the reader, the bytes left.\<close>

function split_stream ::
    "('b list \<Rightarrow> 'e + 'f) \<Rightarrow> ('f \<Rightarrow> nat) \<Rightarrow> 'e \<Rightarrow> 'b list \<Rightarrow> 'f list \<times> 'e option \<times> 'b list" where
  "split_stream dec fsize more xs =
     (case dec xs of
        Inl e \<Rightarrow> ([], if e = more then None else Some e, xs)
      | Inr f \<Rightarrow>
          if 0 < fsize f \<and> xs \<noteq> []
          then (case split_stream dec fsize more (drop (fsize f) xs) of
                  (fs, e, r) \<Rightarrow> (f # fs, e, r))
          else ([], None, xs))"
  by pat_completeness auto
termination
  by (relation "measure (\<lambda>(_, _, _, xs). length xs)") auto

declare split_stream.simps [simp del]

text \<open>Reading piece by piece: the bytes left over wait for the next piece.\<close>

fun feed_chunks ::
    "('b list \<Rightarrow> 'e + 'f) \<Rightarrow> ('f \<Rightarrow> nat) \<Rightarrow> 'e \<Rightarrow> 'b list \<Rightarrow> 'b list list \<Rightarrow>
       'f list \<times> 'e option" where
  "feed_chunks dec fsize more pending [] = ([], None)"
| "feed_chunks dec fsize more pending (c # cs) =
     (case split_stream dec fsize more (pending @ c) of
        (fs, Some e, r) \<Rightarrow> (fs, Some e)
      | (fs, None, r) \<Rightarrow>
          (case feed_chunks dec fsize more r cs of (fs', e') \<Rightarrow> (fs @ fs', e')))"

section \<open>The contract\<close>

locale frame_decoder =
  fixes dec :: "'b list \<Rightarrow> 'e + 'f" and fsize :: "'f \<Rightarrow> nat" and more :: 'e
  assumes fsize_pos: "dec xs = Inr f \<Longrightarrow> 0 < fsize f"
    and fsize_le: "dec xs = Inr f \<Longrightarrow> fsize f \<le> length xs"
    and stable: "dec xs \<noteq> Inl more \<Longrightarrow> dec (xs @ ys) = dec xs"
begin

lemma split_more: "dec xs = Inl more \<Longrightarrow> split_stream dec fsize more xs = ([], None, xs)"
  by (simp add: split_stream.simps)

lemma split_error:
  "dec xs = Inl e \<Longrightarrow> e \<noteq> more \<Longrightarrow> split_stream dec fsize more xs = ([], Some e, xs)"
  by (simp add: split_stream.simps)

lemma split_frame:
  assumes "dec xs = Inr f"
  shows "split_stream dec fsize more xs =
    (case split_stream dec fsize more (drop (fsize f) xs) of (fs, e, r) \<Rightarrow> (f # fs, e, r))"
proof -
  from assms have "0 < fsize f" and "xs \<noteq> []"
    using fsize_pos fsize_le by fastforce+
  with assms show ?thesis by (simp add: split_stream.simps [of dec fsize more xs])
qed

text \<open>What the reader has seen of a stream does not change when more of it arrives.\<close>

lemma split_append:
  "split_stream dec fsize more (xs @ ys) =
     (case split_stream dec fsize more xs of
        (fs, Some e, r) \<Rightarrow> (fs, Some e, r @ ys)
      | (fs, None, r) \<Rightarrow>
          (case split_stream dec fsize more (r @ ys) of (fs', e', r') \<Rightarrow> (fs @ fs', e', r')))"
proof (induction xs rule: measure_induct_rule [of length])
  case (less xs)
  show ?case
  proof (cases "dec xs")
    case (Inl e)
    show ?thesis
    proof (cases "e = more")
      case True
      with Inl show ?thesis by (simp add: split_more)
    next
      case False
      with Inl have "dec (xs @ ys) = Inl e" using stable by simp
      with Inl False show ?thesis by (simp add: split_error)
    qed
  next
    case (Inr f)
    then have ext: "dec (xs @ ys) = Inr f" using stable by simp
    have "length (drop (fsize f) xs) < length xs"
      using fsize_pos [OF Inr] fsize_le [OF Inr] by simp
    from less.IH [OF this] show ?thesis
      using fsize_le [OF Inr]
      by (auto simp: split_frame [OF Inr] split_frame [OF ext] split: prod.splits option.splits)
  qed
qed

lemma split_rest:
  "split_stream dec fsize more xs = (fs, None, r) \<Longrightarrow> dec r = Inl more"
proof (induction xs arbitrary: fs rule: measure_induct_rule [of length])
  case (less xs)
  show ?case
  proof (cases "dec xs")
    case (Inl e)
    with less.prems show ?thesis
      by (cases "e = more") (auto simp: split_more split_error)
  next
    case (Inr f)
    have "length (drop (fsize f) xs) < length xs"
      using fsize_pos [OF Inr] fsize_le [OF Inr] by simp
    moreover obtain fs' where "split_stream dec fsize more (drop (fsize f) xs) = (fs', None, r)"
      using less.prems by (auto simp: split_frame [OF Inr] split: prod.splits)
    ultimately show ?thesis by (rule less.IH)
  qed
qed

text \<open>Every frame the reader gives was decoded.\<close>

lemma split_frames:
  "split_stream dec fsize more xs = (fs, e, r) \<Longrightarrow> f \<in> set fs \<Longrightarrow> \<exists>ys. dec ys = Inr f"
proof (induction xs arbitrary: fs rule: measure_induct_rule [of length])
  case (less xs)
  show ?case
  proof (cases "dec xs")
    case (Inl e')
    with less.prems show ?thesis
      by (cases "e' = more") (auto simp: split_more split_error)
  next
    case (Inr g)
    have "length (drop (fsize g) xs) < length xs"
      using fsize_pos [OF Inr] fsize_le [OF Inr] by simp
    moreover obtain fs' where fs': "split_stream dec fsize more (drop (fsize g) xs) = (fs', e, r)" "fs = g # fs'"
      using less.prems(1) by (auto simp: split_frame [OF Inr] split: prod.splits)
    ultimately show ?thesis using less.IH [OF _ fs'(1)] less.prems(2) Inr by auto
  qed
qed

text \<open>A stream of whole frames, written one behind the other, is read back as written.\<close>

lemma split_concat:
  assumes "dec [] = Inl more" and "\<And>b f. (b, f) \<in> set ws \<Longrightarrow> dec b = Inr f \<and> fsize f = length b"
  shows "split_stream dec fsize more (concat (map fst ws)) = (map snd ws, None, [])"
  using assms(2)
proof (induction ws)
  case Nil
  then show ?case using assms(1) by (simp add: split_more)
next
  case (Cons w ws)
  obtain b f where w: "w = (b, f)" by (cases w)
  then have f: "dec b = Inr f" "fsize f = length b" using Cons.prems by auto
  then have "dec (b @ concat (map fst ws)) = Inr f" using stable by simp
  from split_frame [OF this] Cons f(2) w show ?case by simp
qed

text \<open>A reader that gets the stream in pieces sees what one sees that gets it whole.\<close>

theorem feed_chunks_eq:
  assumes "dec pending = Inl more"
  shows "feed_chunks dec fsize more pending cs =
    (case split_stream dec fsize more (pending @ concat cs) of (fs, e, r) \<Rightarrow> (fs, e))"
  using assms
proof (induction cs arbitrary: pending)
  case Nil
  then show ?case by (simp add: split_more)
next
  case (Cons c cs)
  show ?case
    using Cons.IH split_rest [of "pending @ c"]
    by (auto simp: split_append [of "pending @ c" "concat cs", simplified]
        split: prod.splits option.splits)
qed

corollary feed_chunks_invariant:
  assumes "dec [] = Inl more" and "concat cs = concat cs'"
  shows "feed_chunks dec fsize more [] cs = feed_chunks dec fsize more [] cs'"
  by (simp add: feed_chunks_eq assms)

end

end
