(* ===== verification/Protocol.thy ===== *)
theory Protocol
  imports CString FrameStream
begin

unbundle bit_operations_syntax

text \<open>
  The frame format of \<^verbatim>\<open>routerd/include/protocol.h\<close> and the codec of
  \<^verbatim>\<open>routerd/src/proto_codec.c\<close>. The header is kept at its widths; its twelve bytes are the
  little-endian image that \<open>memcpy\<close> of the packed struct gives on the targets the header
  file names. \<open>size_t\<close> is a 64-bit word. A call is \<open>None\<close> when it would read or write
  outside a buffer, and otherwise the error code or the result.
\<close>

section \<open>Constants and data\<close>

definition PROTO_MAGIC :: u16 where "PROTO_MAGIC = 0xEB7C"
definition PROTO_VERSION :: u8 where "PROTO_VERSION = 1"
definition PROTO_MAX_PAYLOAD :: u32 where "PROTO_MAX_PAYLOAD = 64 * 1024"
definition PROTO_HDR_SIZE :: nat where "PROTO_HDR_SIZE = 12"

lemmas proto_consts = PROTO_MAGIC_def PROTO_VERSION_def PROTO_MAX_PAYLOAD_def PROTO_HDR_SIZE_def

datatype proto_cmd =
    PROTO_REGISTER | PROTO_REGISTER_ACK | PROTO_HEARTBEAT | PROTO_DATA | PROTO_CMD | PROTO_LOG
  | PROTO_FW_BEGIN | PROTO_FW_CHUNK | PROTO_FW_END | PROTO_FW_QUERY

fun cmd_code :: "proto_cmd \<Rightarrow> u8" where
  "cmd_code PROTO_REGISTER = 0x01"
| "cmd_code PROTO_REGISTER_ACK = 0x02"
| "cmd_code PROTO_HEARTBEAT = 0x03"
| "cmd_code PROTO_DATA = 0x10"
| "cmd_code PROTO_CMD = 0x11"
| "cmd_code PROTO_LOG = 0x20"
| "cmd_code PROTO_FW_BEGIN = 0x30"
| "cmd_code PROTO_FW_CHUNK = 0x31"
| "cmd_code PROTO_FW_END = 0x32"
| "cmd_code PROTO_FW_QUERY = 0x33"

record proto_frame_hdr =
  magic :: u16
  version :: u8
  cmd :: u8
  seq :: u32
  payload_len :: u32

datatype proto_err =
    BUF_TOO_SMALL | BAD_MAGIC | BAD_VERSION | PAYLOAD_TOO_LARGE | INCOMPLETE

fun err_code :: "proto_err \<Rightarrow> int" where
  "err_code BUF_TOO_SMALL = -1"
| "err_code BAD_MAGIC = -2"
| "err_code BAD_VERSION = -3"
| "err_code PAYLOAD_TOO_LARGE = -4"
| "err_code INCOMPLETE = -5"

section \<open>The image of the packed header\<close>

definition le16 :: "u16 \<Rightarrow> u8 list" where
  "le16 w = [ucast w, ucast (drop_bit 8 w)]"

definition le32 :: "u32 \<Rightarrow> u8 list" where
  "le32 w = [ucast w, ucast (drop_bit 8 w), ucast (drop_bit 16 w), ucast (drop_bit 24 w)]"

definition of_le16 :: "u8 \<Rightarrow> u8 \<Rightarrow> u16" where
  "of_le16 b0 b1 = ucast b0 OR push_bit 8 (ucast b1)"

definition of_le32 :: "u8 \<Rightarrow> u8 \<Rightarrow> u8 \<Rightarrow> u8 \<Rightarrow> u32" where
  "of_le32 b0 b1 b2 b3 =
     ucast b0 OR push_bit 8 (ucast b1) OR push_bit 16 (ucast b2) OR push_bit 24 (ucast b3)"

definition hdr_bytes :: "proto_frame_hdr \<Rightarrow> u8 list" where
  "hdr_bytes h = le16 (magic h) @ [version h, cmd h] @ le32 (seq h) @ le32 (payload_len h)"

definition hdr_of_bytes :: "u8 list \<Rightarrow> proto_frame_hdr" where
  "hdr_of_bytes b =
     \<lparr>magic = of_le16 (b ! 0) (b ! 1), version = b ! 2, cmd = b ! 3,
      seq = of_le32 (b ! 4) (b ! 5) (b ! 6) (b ! 7),
      payload_len = of_le32 (b ! 8) (b ! 9) (b ! 10) (b ! 11)\<rparr>"

lemma of_le16_le16 [simp]: "of_le16 (ucast w) (ucast (drop_bit 8 w)) = w"
  by (rule bit_word_eqI) (auto simp: of_le16_def bit_simps)

lemma of_le32_le32 [simp]:
  "of_le32 (ucast w) (ucast (drop_bit 8 w)) (ucast (drop_bit 16 w)) (ucast (drop_bit 24 w)) = w"
  apply (rule bit_word_eqI)
  apply (auto simp: of_le32_def bit_simps)
  subgoal for n by (cases "24 \<le> n") auto
  done

lemma u8_bit_above: "8 \<le> n \<Longrightarrow> \<not> bit (b :: u8) n"
  using bit_imp_le_length [of b n] by auto

lemma le16_of_le16 [simp]: "le16 (of_le16 b0 b1) = [b0, b1]"
  by (auto simp: le16_def of_le16_def bit_simps u8_bit_above intro!: bit_word_eqI)

lemma le32_of_le32 [simp]: "le32 (of_le32 b0 b1 b2 b3) = [b0, b1, b2, b3]"
  by (auto simp: le32_def of_le32_def bit_simps u8_bit_above intro!: bit_word_eqI)

text \<open>The multi-byte fields as numbers.\<close>

lemma u8_unat_less: "unat (b :: u8) < 256"
  by (rule order_less_le_trans [OF unsigned_less]) simp

lemma unat_of_le16: "unat (of_le16 b0 b1) = unat b0 + 256 * unat b1"
proof -
  have "of_le16 b0 b1 = ucast b0 + push_bit 8 (ucast b1)"
    by (simp add: of_le16_def disjunctive_add bit_simps u8_bit_above)
  also have "\<dots> = word_of_nat (unat b0 + 256 * unat b1)"
    by (simp add: push_bit_eq_mult mult.commute)
  finally have "unat (of_le16 b0 b1) = (unat b0 + 256 * unat b1) mod 2 ^ 16"
    by (simp only: unat_of_nat) simp
  then show ?thesis
    using u8_unat_less [of b0] u8_unat_less [of b1] by simp
qed

lemma unat_of_le32:
  "unat (of_le32 b0 b1 b2 b3) = unat b0 + 256 * unat b1 + 65536 * unat b2 + 16777216 * unat b3"
proof -
  have "of_le32 b0 b1 b2 b3 = ucast b0 + push_bit 8 (ucast b1) + push_bit 16 (ucast b2)
      + push_bit 24 (ucast b3)"
    by (simp add: of_le32_def disjunctive_add bit_simps u8_bit_above or.assoc)
  also have "\<dots> = word_of_nat (unat b0 + 256 * unat b1 + 65536 * unat b2 + 16777216 * unat b3)"
    by (simp add: push_bit_eq_mult mult.commute)
  finally have "unat (of_le32 b0 b1 b2 b3) =
      (unat b0 + 256 * unat b1 + 65536 * unat b2 + 16777216 * unat b3) mod 2 ^ 32"
    by (simp only: unat_of_nat) simp
  then show ?thesis
    using u8_unat_less [of b0] u8_unat_less [of b1] u8_unat_less [of b2] u8_unat_less [of b3]
    by simp
qed

lemma uint_of_le32:
  "uint (of_le32 b0 b1 b2 b3) = uint b0 + 256 * uint b1 + 65536 * uint b2 + 16777216 * uint b3"
  using arg_cong [OF unat_of_le32 [of b0 b1 b2 b3], of int] by simp

lemma magic_iff: "of_le16 b0 b1 = PROTO_MAGIC \<longleftrightarrow> b0 = 0x7C \<and> b1 = 0xEB"
proof -
  have "of_le16 b0 b1 = PROTO_MAGIC \<longleftrightarrow> unat b0 + 256 * unat b1 = 60284"
    by (simp add: word_unat_eq_iff unat_of_le16 PROTO_MAGIC_def)
  also have "\<dots> \<longleftrightarrow> unat b0 = 124 \<and> unat b1 = 235"
  proof -
    have "m = 60284 mod 256 \<and> n = 60284 div 256" if "m < 256" "m + 256 * n = 60284" for m n :: nat
      using that(1) by (simp add: that(2) [symmetric])
    then show ?thesis using u8_unat_less [of b0] by auto
  qed
  finally show ?thesis by (simp add: word_unat_eq_iff)
qed

lemma length_hdr_bytes [simp]: "length (hdr_bytes h) = PROTO_HDR_SIZE"
  by (simp add: hdr_bytes_def le16_def le32_def PROTO_HDR_SIZE_def)

lemma hdr_of_hdr_bytes [simp]: "hdr_of_bytes (hdr_bytes h @ rest) = h"
  by (simp add: hdr_of_bytes_def hdr_bytes_def le16_def le32_def)

lemma hdr_of_hdr_bytes' [simp]: "hdr_of_bytes (hdr_bytes h) = h"
  using hdr_of_hdr_bytes [of h "[]"] by simp

lemma take12: "12 \<le> length b \<Longrightarrow> take 12 b =
    [b ! 0, b ! 1, b ! 2, b ! 3, b ! 4, b ! 5, b ! 6, b ! 7, b ! 8, b ! 9, b ! 10, b ! 11]"
  by (rule nth_equalityI) (auto simp: less_Suc_eq numeral_eq_Suc)

lemma hdr_bytes_hdr_of_bytes:
  "PROTO_HDR_SIZE \<le> length b \<Longrightarrow> hdr_bytes (hdr_of_bytes b) = take PROTO_HDR_SIZE b"
  by (simp add: PROTO_HDR_SIZE_def take12 hdr_bytes_def hdr_of_bytes_def)

lemma hdr_of_bytes_take:
  "hdr_of_bytes (take PROTO_HDR_SIZE b) = hdr_of_bytes b"
  by (simp add: hdr_of_bytes_def PROTO_HDR_SIZE_def)

lemma hdr_of_bytes_append:
  "PROTO_HDR_SIZE \<le> length b \<Longrightarrow> hdr_of_bytes (b @ c) = hdr_of_bytes b"
  using hdr_of_bytes_take [of "b @ c"] hdr_of_bytes_take [of b] by simp

section \<open>proto_encode and proto_decode\<close>

text \<open>
  \<open>need\<close> and \<open>total\<close> are computed at \<open>size_t\<close> width and returned through the cast to
  \<open>int\<close>. The header copied out is a local one with \<open>magic\<close> and \<open>version\<close> filled in.
\<close>

definition frame_size :: "u32 \<Rightarrow> u64" where
  "frame_size plen = word_of_nat PROTO_HDR_SIZE + ucast plen"

definition to_c_int :: "u64 \<Rightarrow> int" where
  "to_c_int w = sint (ucast w :: u32)"

definition proto_encode ::
    "proto_frame_hdr \<Rightarrow> u8 list \<Rightarrow> u8 list \<Rightarrow> u64 \<Rightarrow> (proto_err + int \<times> u8 list) option" where
  "proto_encode hdr payload out_buf out_cap =
     (if payload_len hdr > PROTO_MAX_PAYLOAD then Some (Inl PAYLOAD_TOO_LARGE)
      else let need = frame_size (payload_len hdr) in
        if out_cap < need then Some (Inl BUF_TOO_SMALL)
        else let h = \<lparr>magic = PROTO_MAGIC, version = PROTO_VERSION, cmd = cmd hdr,
                      seq = seq hdr, payload_len = payload_len hdr\<rparr>
        in do {
          out \<leftarrow> memcpy out_buf 0 (hdr_bytes h) PROTO_HDR_SIZE;
          out \<leftarrow> (if payload_len hdr > 0
                  then memcpy out PROTO_HDR_SIZE payload (unat (payload_len hdr)) else Some out);
          Some (Inr (to_c_int need, out))
        })"

text \<open>On success: the header, the offset of the payload in \<open>in_buf\<close>, the returned size.\<close>

definition proto_decode ::
    "u8 list \<Rightarrow> u64 \<Rightarrow> (proto_err + proto_frame_hdr \<times> nat \<times> int) option" where
  "proto_decode in_buf in_len =
     (if in_len < word_of_nat PROTO_HDR_SIZE then Some (Inl INCOMPLETE)
      else do {
        hb \<leftarrow> memcpy (replicate PROTO_HDR_SIZE 0) 0 in_buf PROTO_HDR_SIZE;
        let h = hdr_of_bytes hb;
        if magic h \<noteq> PROTO_MAGIC then Some (Inl BAD_MAGIC)
        else if version h \<noteq> PROTO_VERSION then Some (Inl BAD_VERSION)
        else if payload_len h > PROTO_MAX_PAYLOAD then Some (Inl PAYLOAD_TOO_LARGE)
        else let total = frame_size (payload_len h) in
          if in_len < total then Some (Inl INCOMPLETE)
          else Some (Inr (h, PROTO_HDR_SIZE, to_c_int total))
      })"

text \<open>The \<open>int\<close> the C function returns.\<close>

fun decode_rc :: "proto_err + proto_frame_hdr \<times> nat \<times> int \<Rightarrow> int" where
  "decode_rc (Inl e) = err_code e"
| "decode_rc (Inr (_, _, n)) = n"

section \<open>The codec on byte lists\<close>

text \<open>
  What the codec does, stated on the list of the received bytes: \<open>decode_bytes\<close> is the
  reference the word-level definitions are proved equal to, and \<open>frame_bytes\<close> is the wire
  image of a frame.
\<close>

definition wire_hdr :: "proto_frame_hdr \<Rightarrow> proto_frame_hdr" where
  "wire_hdr h = h\<lparr>magic := PROTO_MAGIC, version := PROTO_VERSION\<rparr>"

definition frame_bytes :: "proto_frame_hdr \<Rightarrow> u8 list \<Rightarrow> u8 list" where
  "frame_bytes h payload = hdr_bytes (wire_hdr h) @ take (unat (payload_len h)) payload"

definition total_len :: "proto_frame_hdr \<Rightarrow> nat" where
  "total_len h = PROTO_HDR_SIZE + unat (payload_len h)"

definition decode_bytes :: "u8 list \<Rightarrow> proto_err + proto_frame_hdr \<times> u8 list" where
  "decode_bytes bs =
     (if length bs < PROTO_HDR_SIZE then Inl INCOMPLETE
      else let h = hdr_of_bytes bs in
        if magic h \<noteq> PROTO_MAGIC then Inl BAD_MAGIC
        else if version h \<noteq> PROTO_VERSION then Inl BAD_VERSION
        else if payload_len h > PROTO_MAX_PAYLOAD then Inl PAYLOAD_TOO_LARGE
        else if length bs < total_len h then Inl INCOMPLETE
        else Inr (h, drop PROTO_HDR_SIZE (take (total_len h) bs)))"

lemma wire_hdr_simps [simp]:
  "magic (wire_hdr h) = PROTO_MAGIC" "version (wire_hdr h) = PROTO_VERSION"
  "cmd (wire_hdr h) = cmd h" "seq (wire_hdr h) = seq h" "payload_len (wire_hdr h) = payload_len h"
  "wire_hdr (wire_hdr h) = wire_hdr h" "total_len (wire_hdr h) = total_len h"
  by (simp_all add: wire_hdr_def total_len_def)

lemma wire_hdr_id: "magic h = PROTO_MAGIC \<Longrightarrow> version h = PROTO_VERSION \<Longrightarrow> wire_hdr h = h"
  by (simp add: wire_hdr_def)

lemma payload_bound: "(plen \<le> PROTO_MAX_PAYLOAD) = (unat plen \<le> 65536)"
  by (simp add: word_le_nat_alt PROTO_MAX_PAYLOAD_def)

lemma payload_bound': "(plen > PROTO_MAX_PAYLOAD) = (65536 < unat plen)"
  using payload_bound [of plen] by auto

lemma unat_frame_size:
  assumes "unat plen \<le> 65536"
  shows "unat (frame_size plen) = PROTO_HDR_SIZE + unat plen"
proof -
  have "unat (ucast plen :: u64) = unat plen" by transfer simp
  then show ?thesis
    using assms by (simp add: frame_size_def PROTO_HDR_SIZE_def unat_word_ariths)
qed

lemma to_c_int_small:
  assumes "unat w < 2 ^ 31"
  shows "to_c_int w = int (unat w)"
proof -
  have l: "uint w < 2 ^ 31"
    using assms by (metis of_nat_less_iff of_nat_numeral of_nat_power uint_nat)
  then have u: "uint (ucast w :: u32) = uint w"
    by (simp add: unsigned_ucast_eq take_bit_int_eq_self_iff)
  have "- 2147483648 \<le> uint w"
    by (rule order_trans [of _ 0]) simp_all
  with l show ?thesis
    by (simp add: to_c_int_def sint_uint u signed_take_bit_int_eq_self_iff)
qed

lemma to_c_int_frame_size:
  "unat plen \<le> 65536 \<Longrightarrow> to_c_int (frame_size plen) = int (PROTO_HDR_SIZE + unat plen)"
  by (subst to_c_int_small) (simp_all add: unat_frame_size PROTO_HDR_SIZE_def)

lemma hdr_size_word: "unat (word_of_nat PROTO_HDR_SIZE :: u64) = PROTO_HDR_SIZE"
  by (simp add: PROTO_HDR_SIZE_def)


lemma size_less_iff:
  "unat plen \<le> 65536 \<Longrightarrow> (len < frame_size plen) = (unat len < PROTO_HDR_SIZE + unat plen)"
  by (simp add: word_less_nat_alt unat_frame_size)

lemma hdr_less_iff: "(len < (word_of_nat PROTO_HDR_SIZE :: u64)) = (unat len < PROTO_HDR_SIZE)"
  by (simp add: word_less_nat_alt hdr_size_word)

lemma frame_bytes_length:
  "unat (payload_len h) \<le> length payload \<Longrightarrow> length (frame_bytes h payload) = total_len h"
  by (simp add: frame_bytes_def total_len_def)

text \<open>\<open>proto_encode\<close> on every branch, over buffers at least as large as their sizes say.\<close>

lemma proto_encode_eq:
  assumes "unat out_cap \<le> length out_buf" and "unat (payload_len hdr) \<le> length payload"
  shows "proto_encode hdr payload out_buf out_cap = Some
     (if 65536 < unat (payload_len hdr) then Inl PAYLOAD_TOO_LARGE
      else if unat out_cap < total_len hdr then Inl BUF_TOO_SMALL
      else Inr (int (total_len hdr), frame_bytes hdr payload @ drop (total_len hdr) out_buf))"
proof (cases "65536 < unat (payload_len hdr) \<or> unat out_cap < total_len hdr")
  case True
  then show ?thesis
    by (auto simp: proto_encode_def payload_bound' size_less_iff total_len_def Let_def)
next
  case False
  let ?n = "unat (payload_len hdr)"
  from False assms have fits: "PROTO_HDR_SIZE + ?n \<le> length out_buf"
    by (simp add: total_len_def)
  have h: "\<lparr>magic = PROTO_MAGIC, version = PROTO_VERSION, cmd = cmd hdr, seq = seq hdr,
      payload_len = payload_len hdr\<rparr> = wire_hdr hdr"
    by (simp add: wire_hdr_def)
  have first: "memcpy out_buf 0 (hdr_bytes (wire_hdr hdr)) PROTO_HDR_SIZE =
      Some (hdr_bytes (wire_hdr hdr) @ drop PROTO_HDR_SIZE out_buf)"
    using fits by (simp add: mem_simps)
  show ?thesis
    using False fits assms(2)
    by (auto simp: proto_encode_def h first payload_bound' size_less_iff total_len_def Let_def
        mem_simps frame_bytes_def to_c_int_frame_size word_neq_0_conv [symmetric] not_less
        add.commute simp del: word_neq_0_conv)
qed

lemma proto_decode_eq:
  assumes "unat in_len \<le> length in_buf"
  shows "proto_decode in_buf in_len = Some
     (case decode_bytes (take (unat in_len) in_buf) of
        Inl e \<Rightarrow> Inl e
      | Inr (h, payload) \<Rightarrow> Inr (h, PROTO_HDR_SIZE, int (total_len h)))"
proof (cases "unat in_len < PROTO_HDR_SIZE")
  case True
  then show ?thesis
    by (simp add: proto_decode_def decode_bytes_def hdr_less_iff min_less_iff_disj)
next
  case False
  with assms have len: "PROTO_HDR_SIZE \<le> length in_buf" by simp
  then have copy: "memcpy (replicate PROTO_HDR_SIZE 0) 0 in_buf PROTO_HDR_SIZE =
      Some (take PROTO_HDR_SIZE in_buf)"
    by (simp add: mem_simps)
  have hdr: "hdr_of_bytes (take (unat in_len) in_buf) = hdr_of_bytes (take PROTO_HDR_SIZE in_buf)"
    using False hdr_of_bytes_take [of "take (unat in_len) in_buf"] by (simp add: min_def)
  show ?thesis
    using False assms
    by (simp add: proto_decode_def decode_bytes_def hdr_less_iff copy hdr Let_def
        payload_bound' size_less_iff total_len_def to_c_int_frame_size not_less)
qed


corollary proto_decode_whole:
  "length b < 2 ^ 64 \<Longrightarrow> proto_decode b (word_of_nat (length b)) = Some
     (case decode_bytes b of
        Inl e \<Rightarrow> Inl e | Inr (h, payload) \<Rightarrow> Inr (h, PROTO_HDR_SIZE, int (total_len h)))"
  using proto_decode_eq [of "word_of_nat (length b)" b] by (simp only: unat_u64) simp

text \<open>Inversion of a successful call.\<close>

lemma proto_encode_InrD:
  assumes "proto_encode hdr payload out_buf out_cap = Some (Inr (n, out))"
  shows "unat (payload_len hdr) \<le> 65536" and "total_len hdr \<le> unat out_cap"
    and "n = int (total_len hdr)" and "unat (payload_len hdr) \<le> length payload"
    and "out = frame_bytes hdr payload @ drop (total_len hdr) out_buf"
proof -
  have plen: "unat (payload_len hdr) \<le> 65536"
    using assms by (auto simp: proto_encode_def payload_bound' split: if_splits)
  have cap: "total_len hdr \<le> unat out_cap"
    using assms plen by (auto simp: proto_encode_def payload_bound' size_less_iff Let_def
        total_len_def split: if_splits)
  have pay: "unat (payload_len hdr) \<le> length payload"
    using assms plen cap
    by (auto simp: proto_encode_def payload_bound' size_less_iff Let_def total_len_def
        memcpy_def word_neq_0_conv [symmetric] simp del: word_neq_0_conv split: if_splits bind_splits)
  have out: "total_len hdr \<le> length out_buf"
    using assms plen cap
    by (auto simp: proto_encode_def payload_bound' size_less_iff Let_def total_len_def
        memcpy_def word_neq_0_conv [symmetric] simp del: word_neq_0_conv split: if_splits bind_splits)
  have "proto_encode hdr payload out_buf out_cap =
      proto_encode hdr payload out_buf (frame_size (payload_len hdr))"
    using plen cap
    by (simp add: proto_encode_def size_less_iff total_len_def Let_def unat_frame_size payload_bound')
  moreover have "unat (frame_size (payload_len hdr)) = total_len hdr"
    using plen by (simp add: unat_frame_size total_len_def)
  ultimately have "proto_encode hdr payload out_buf out_cap =
      Some (Inr (int (total_len hdr), frame_bytes hdr payload @ drop (total_len hdr) out_buf))"
    using proto_encode_eq [of "frame_size (payload_len hdr)" out_buf hdr payload] out pay plen
    by simp
  then show "n = int (total_len hdr)"
    and "out = frame_bytes hdr payload @ drop (total_len hdr) out_buf"
    using assms by auto
  show "unat (payload_len hdr) \<le> 65536" "total_len hdr \<le> unat out_cap"
    "unat (payload_len hdr) \<le> length payload" by fact+
qed

section \<open>The codec is a frame decoder for streams\<close>

fun frame_len :: "proto_frame_hdr \<times> u8 list \<Rightarrow> nat" where
  "frame_len (h, payload) = total_len h"

lemma decode_bytes_InrD:
  assumes "decode_bytes bs = Inr (h, payload)"
  shows "magic h = PROTO_MAGIC" and "version h = PROTO_VERSION"
    and "unat (payload_len h) \<le> 65536" and "total_len h \<le> length bs"
    and "length payload = unat (payload_len h)" and "take (total_len h) bs = frame_bytes h payload"
proof -
  from assms have long: "PROTO_HDR_SIZE \<le> length bs" and h: "h = hdr_of_bytes bs"
    and hdr: "magic h = PROTO_MAGIC" "version h = PROTO_VERSION"
    and plen: "unat (payload_len h) \<le> 65536" and tot: "total_len h \<le> length bs"
    and p: "payload = drop PROTO_HDR_SIZE (take (total_len h) bs)"
    by (auto simp: decode_bytes_def Let_def payload_bound' split: if_splits)
  from p tot have len: "length payload = unat (payload_len h)"
    by (simp add: total_len_def)
  have "take (total_len h) bs = take PROTO_HDR_SIZE (take (total_len h) bs) @ payload"
    by (simp only: p append_take_drop_id)
  also have "take PROTO_HDR_SIZE (take (total_len h) bs) = hdr_bytes h"
    using long by (simp add: total_len_def h hdr_bytes_hdr_of_bytes)
  finally have "take (total_len h) bs = frame_bytes h payload"
    using len by (simp add: frame_bytes_def wire_hdr_id hdr)
  with hdr plen tot len show "magic h = PROTO_MAGIC" "version h = PROTO_VERSION"
    "unat (payload_len h) \<le> 65536" "total_len h \<le> length bs"
    "length payload = unat (payload_len h)" "take (total_len h) bs = frame_bytes h payload"
    by simp_all
qed

lemma decode_frame_bytes:
  assumes "unat (payload_len h) \<le> 65536" and "unat (payload_len h) \<le> length payload"
  shows "decode_bytes (frame_bytes h payload @ rest) =
    Inr (wire_hdr h, take (unat (payload_len h)) payload)"
proof -
  have "hdr_of_bytes (frame_bytes h payload @ rest) = wire_hdr h"
    by (simp add: frame_bytes_def)
  moreover have "take (total_len h) (frame_bytes h payload @ rest) = frame_bytes h payload"
    using assms by (simp add: frame_bytes_length)
  moreover have "drop PROTO_HDR_SIZE (frame_bytes h payload) = take (unat (payload_len h)) payload"
    by (simp add: frame_bytes_def)
  moreover have "total_len h \<le> length (frame_bytes h payload @ rest)"
    using assms by (simp add: frame_bytes_length)
  ultimately show ?thesis
    using assms(1) by (simp add: decode_bytes_def payload_bound' total_len_def)
qed

interpretation proto_stream: frame_decoder decode_bytes frame_len INCOMPLETE
proof unfold_locales
  fix xs ys :: "u8 list" and f
  show "0 < frame_len f" if "decode_bytes xs = Inr f"
    by (cases f) (simp add: total_len_def PROTO_HDR_SIZE_def)
  show "frame_len f \<le> length xs" if "decode_bytes xs = Inr f"
    using that by (cases f) (auto dest: decode_bytes_InrD)
  assume d: "decode_bytes xs \<noteq> Inl INCOMPLETE"
  then have "PROTO_HDR_SIZE \<le> length xs"
    by (auto simp: decode_bytes_def split: if_splits)
  with d show "decode_bytes (xs @ ys) = decode_bytes xs"
    by (auto simp: decode_bytes_def hdr_of_bytes_append Let_def split: if_splits)
qed


section \<open>Properties\<close>

text \<open>
  C10. Round trip: whatever \<open>proto_encode\<close> accepted and wrote, \<open>proto_decode\<close> reads back
  from that buffer (given at least the returned number of bytes, with anything behind the
  frame): the caller's cmd, seq and payload_len, the magic and version the encoder filled
  in, the same size, and the payload bytes at the returned offset.
\<close>

theorem proto_roundtrip:
  assumes enc: "proto_encode hdr payload out_buf out_cap = Some (Inr (n, out))"
    and "nat n \<le> unat in_len" and "unat in_len \<le> length out"
  shows "proto_decode out in_len =
      Some (Inr (hdr\<lparr>magic := PROTO_MAGIC, version := PROTO_VERSION\<rparr>, PROTO_HDR_SIZE, n))
    \<and> take (unat (payload_len hdr)) (drop PROTO_HDR_SIZE out) = take (unat (payload_len hdr)) payload"
proof -
  note e = proto_encode_InrD [OF enc]
  have len: "total_len hdr = length (frame_bytes hdr payload)" and fit: "total_len hdr \<le> unat in_len"
    using e assms(2) by (simp_all add: frame_bytes_length)
  then obtain rest where "take (unat in_len) out = frame_bytes hdr payload @ rest"
    by (simp add: e(5))
  then have "decode_bytes (take (unat in_len) out) =
      Inr (wire_hdr hdr, take (unat (payload_len hdr)) payload)"
    using e by (simp add: decode_frame_bytes)
  then have "proto_decode out in_len = Some (Inr (wire_hdr hdr, PROTO_HDR_SIZE, n))"
    using proto_decode_eq [OF assms(3)] by (simp add: e(3))
  moreover have "drop PROTO_HDR_SIZE out = take (unat (payload_len hdr)) payload @ drop (total_len hdr) out_buf"
    by (simp add: e(5) frame_bytes_def)
  ultimately show ?thesis using e(4) by (simp add: wire_hdr_def)
qed

theorem proto_roundtrip_witness:
  "proto_decode (frame_bytes \<lparr>magic = 0, version = 0, cmd = 1, seq = 1, payload_len = 5\<rparr>
       (bytes ''{ABC}'') @ [9, 9]) 19 =
     Some (Inr (\<lparr>magic = 0xEB7C, version = 1, cmd = 1, seq = 1, payload_len = 5\<rparr>, 12, 17))"
proof -
  let ?h = "\<lparr>magic = 0, version = 0, cmd = 1, seq = 1, payload_len = 5\<rparr> :: proto_frame_hdr"
  have "proto_encode ?h (bytes ''{ABC}'') (replicate 17 0 @ [9, 9]) 19 =
      Some (Inr (17, frame_bytes ?h (bytes ''{ABC}'') @ [9, 9]))"
    by (subst proto_encode_eq) (simp_all add: total_len_def PROTO_HDR_SIZE_def bytes_def)
  from proto_roundtrip [OF this, of 19] show ?thesis
    by (simp add: proto_consts frame_bytes_length total_len_def bytes_def)
qed


text \<open>
  C20. Canonical form: the decoder accepts nothing the encoder does not produce. A frame that
  \<open>proto_decode\<close> accepts from a buffer is, byte for byte, what \<open>proto_encode\<close> writes for the
  returned header and the payload at the returned offset.
\<close>

theorem proto_decode_canonical:
  assumes dec: "proto_decode in_buf in_len = Some (Inr (h, off, n))"
    and in_range: "unat in_len \<le> length in_buf"
    and out: "nat n \<le> unat out_cap" "unat out_cap \<le> length out_buf"
  shows "proto_encode h (drop off in_buf) out_buf out_cap =
    Some (Inr (n, take (nat n) in_buf @ drop (nat n) out_buf))"
proof -
  obtain payload where d: "decode_bytes (take (unat in_len) in_buf) = Inr (h, payload)"
    and n: "n = int (total_len h)" and off: "off = PROTO_HDR_SIZE"
    using dec proto_decode_eq [OF in_range] by (auto split: sum.splits)
  note b = decode_bytes_InrD [OF d]
  from b(4) in_range have fit: "total_len h \<le> length in_buf" "total_len h \<le> unat in_len" by simp_all
  have tk: "take (total_len h) in_buf = frame_bytes h payload"
    using b(6) fit(2) by (simp add: min_def)
  have len: "unat (payload_len h) \<le> length (drop off in_buf)"
    using fit(1) by (simp add: off total_len_def)
  have "frame_bytes h (drop off in_buf) = frame_bytes h payload"
  proof -
    have "take (unat (payload_len h)) (drop off in_buf) = drop PROTO_HDR_SIZE (take (total_len h) in_buf)"
      by (simp add: off total_len_def take_drop add.commute)
    also have "\<dots> = payload"
      using b(5) by (simp add: tk frame_bytes_def)
    finally show ?thesis using b(5) by (simp add: frame_bytes_def)
  qed
  then show ?thesis
    using proto_encode_eq [OF out(2) len] b(3) out(1) by (simp add: n tk)
qed

theorem proto_decode_canonical_witness:
  "proto_encode \<lparr>magic = 0xEB7C, version = 1, cmd = 3, seq = 7, payload_len = 0\<rparr> [] (replicate 12 0) 12
     = Some (Inr (12, [0x7C, 0xEB, 1, 3, 7, 0, 0, 0, 0, 0, 0, 0]))"
proof -
  have "proto_decode [0x7C, 0xEB, 1, 3, 7, 0, 0, 0, 0, 0, 0, 0] 12 =
      Some (Inr (\<lparr>magic = 0xEB7C, version = 1, cmd = 3, seq = 7, payload_len = 0\<rparr>, 12, 12))"
    by (subst proto_decode_eq)
       (simp_all add: decode_bytes_def proto_consts total_len_def hdr_of_bytes_def of_le16_def
         of_le32_def)
  from proto_decode_canonical [OF this, of 12 "replicate 12 0"] show ?thesis
    by (simp add: drop_replicate)
qed

text \<open>
  C2. The decoder's verdict, byte by byte and in its order of checks: fewer than twelve
  bytes is -5 whatever they are, then the two magic bytes (-2), the version byte (-3), the
  little-endian length field against 64 KiB (-4), the missing rest of the frame (-5), and
  else the frame's size. The call never reads outside the received bytes.
\<close>

theorem proto_decode_verdict:
  assumes "unat in_len \<le> length b"
  shows "map_option decode_rc (proto_decode b in_len) = Some
    (let plen = unat (b ! 8) + 256 * unat (b ! 9) + 65536 * unat (b ! 10)
                + 16777216 * unat (b ! 11)
     in if unat in_len < 12 then -5
        else if b ! 0 \<noteq> 0x7C \<or> b ! 1 \<noteq> 0xEB then -2
        else if b ! 2 \<noteq> 1 then -3
        else if 65536 < plen then -4
        else if unat in_len < 12 + plen then -5
        else int (12 + plen))"
proof (cases "unat in_len < 12")
  case True
  then show ?thesis
    by (simp add: proto_decode_eq [OF assms] decode_bytes_def PROTO_HDR_SIZE_def min_less_iff_disj)
next
  case False
  let ?h = "hdr_of_bytes (take (unat in_len) b)"
  have f: "magic ?h = of_le16 (b ! 0) (b ! 1)" "version ?h = b ! 2"
    "payload_len ?h = of_le32 (b ! 8) (b ! 9) (b ! 10) (b ! 11)"
    using False by (simp_all add: hdr_of_bytes_def)
  show ?thesis
    using False assms
    by (auto simp: proto_decode_eq [OF assms] decode_bytes_def PROTO_HDR_SIZE_def Let_def f magic_iff
        total_len_def payload_bound' unat_of_le32 uint_of_le32 PROTO_VERSION_def)
qed

theorem proto_decode_verdict_witness:
  "map_option decode_rc (proto_decode [0x7C, 0xEB, 1, 1, 0, 0, 0, 0, 1, 0, 1, 0] 12) = Some (-4)"
proof -
  have "unat (12 :: u64) \<le> length [0x7C, 0xEB, 1, 1, 0, 0, 0, 0, 1, 0, 1, 0 :: u8]" by simp
  from proto_decode_verdict [OF this] show ?thesis by simp
qed

text \<open>
  C21. Reading a frame from a stream: no proper prefix of a frame is mistaken for anything but
  an incomplete one, and once the decoder has given a verdict other than "incomplete", bytes
  that arrive later never change it.
\<close>

theorem proto_decode_incremental:
  assumes "unat (payload_len h) \<le> 65536" and "length payload = unat (payload_len h)"
    and "k < total_len h"
    and "length (b @ later) < 2 ^ 64"
    and "proto_decode b (word_of_nat (length b)) \<noteq> Some (Inl INCOMPLETE)"
  shows "proto_decode (take k (frame_bytes h payload)) (word_of_nat k) = Some (Inl INCOMPLETE)
    \<and> proto_decode (b @ later) (word_of_nat (length (b @ later))) = proto_decode b (word_of_nat (length b))"
proof
  have k: "unat (word_of_nat k :: u64) = k"
    using assms(1,3) by (simp add: unat_of_nat total_len_def PROTO_HDR_SIZE_def)
  have f: "decode_bytes (frame_bytes h payload) = Inr (wire_hdr h, payload)"
    using decode_frame_bytes [of h payload "[]"] assms(1,2) by simp
  have "decode_bytes (take k (frame_bytes h payload)) = Inl INCOMPLETE"
  proof (rule ccontr)
    let ?t = "take k (frame_bytes h payload)"
    assume "decode_bytes ?t \<noteq> Inl INCOMPLETE"
    from proto_stream.stable [OF this, of "drop k (frame_bytes h payload)"] f
    have "decode_bytes ?t = Inr (wire_hdr h, payload)" by simp
    from proto_stream.fsize_le [OF this] assms(3) show False by simp
  qed
  moreover have "k \<le> length (frame_bytes h payload)"
    using assms by (simp add: frame_bytes_length)
  ultimately show "proto_decode (take k (frame_bytes h payload)) (word_of_nat k) = Some (Inl INCOMPLETE)"
    by (subst proto_decode_eq) (simp_all add: k)
next
  have b: "length b < 2 ^ 64" using assms(4) by simp
  with assms(5) have "decode_bytes b \<noteq> Inl INCOMPLETE"
    by (auto simp: proto_decode_whole)
  from proto_stream.stable [OF this] show
    "proto_decode (b @ later) (word_of_nat (length (b @ later))) = proto_decode b (word_of_nat (length b))"
    by (simp only: proto_decode_whole [OF b] proto_decode_whole [OF assms(4)])
qed

theorem proto_decode_incremental_witness:
  "proto_decode (take 11 (frame_bytes \<lparr>magic = 0, version = 0, cmd = 3, seq = 7, payload_len = 0\<rparr> [])) 11
      = Some (Inl INCOMPLETE)
   \<and> proto_decode ([0x45, 0x23, 0xF1, 0xE7, 1, 0, 0, 0, 0, 0, 0, 0] @ [0x7C, 0xEB]) 14
      = Some (Inl BAD_MAGIC)"
proof -
  have "proto_decode [0x45, 0x23, 0xF1, 0xE7, 1, 0, 0, 0, 0, 0, 0, 0] 12 = Some (Inl BAD_MAGIC)"
    by (subst proto_decode_eq) (simp_all add: decode_bytes_def proto_consts hdr_of_bytes_def
        of_le16_def)
  with proto_decode_incremental [of "\<lparr>magic = 0, version = 0, cmd = 3, seq = 7, payload_len = 0\<rparr>" "[]" 11
      "[0x45, 0x23, 0xF1, 0xE7, 1, 0, 0, 0, 0, 0, 0, 0]" "[0x7C, 0xEB]"]
  show ?thesis by (simp add: total_len_def PROTO_HDR_SIZE_def)
qed

text \<open>
  \<open>proto_encode\<close> on every branch: the two error codes exactly when the payload is over
  the limit or the buffer too small, and otherwise the returned size with exactly that many
  bytes of the buffer rewritten and the rest of it untouched; no access outside the buffers.
\<close>

theorem proto_encode_branches:
  assumes "unat out_cap \<le> length out_buf" and "unat (payload_len hdr) \<le> length payload"
  shows "proto_encode hdr payload out_buf out_cap = Some
     (if 65536 < unat (payload_len hdr) then Inl PAYLOAD_TOO_LARGE
      else if unat out_cap < 12 + unat (payload_len hdr) then Inl BUF_TOO_SMALL
      else Inr (int (12 + unat (payload_len hdr)),
        [0x7C, 0xEB, 1, cmd hdr] @ le32 (seq hdr) @ le32 (payload_len hdr)
          @ take (unat (payload_len hdr)) payload @ drop (12 + unat (payload_len hdr)) out_buf))"
proof -
  have "hdr_bytes (wire_hdr hdr) = [0x7C, 0xEB, 1, cmd hdr] @ le32 (seq hdr) @ le32 (payload_len hdr)"
  proof -
    have "le16 PROTO_MAGIC = [0x7C, 0xEB]"
      by (metis le16_of_le16 magic_iff)
    then show ?thesis by (simp add: hdr_bytes_def PROTO_VERSION_def)
  qed
  then show ?thesis
    by (simp add: proto_encode_eq [OF assms] frame_bytes_def total_len_def PROTO_HDR_SIZE_def)
qed

theorem proto_encode_branches_witness:
  "proto_encode \<lparr>magic = 0, version = 0, cmd = 3, seq = 1, payload_len = 2\<rparr> [5, 6] (replicate 16 9) 16
     = Some (Inr (14, [0x7C, 0xEB, 1, 3, 1, 0, 0, 0, 2, 0, 0, 0, 5, 6, 9, 9]))"
proof -
  have "unat (16 :: u64) \<le> length (replicate 16 (9 :: u8))" and
    "unat (payload_len \<lparr>magic = 0, version = 0, cmd = 3, seq = 1, payload_len = 2\<rparr>) \<le> length [5, 6 :: u8]"
    by simp_all
  from proto_encode_branches [OF this] show ?thesis
    by (simp add: le32_def) (simp add: numeral_eq_Suc)
qed

end
