(* ===== verification/CJson.thy ===== *)
theory CJson
  imports CString
begin

text \<open>
  The JSON tree the program reads and writes through the vendored library
  \<^verbatim>\<open>routerd/3rdparty/cjson\<close>: the tree itself, the type tests and the two member lookups of
  \<^verbatim>\<open>cJSON.c\<close>, and the constructors \<open>save_config\<close> uses. A \<open>cJSON*\<close> that may be NULL is an
  \<open>option\<close>. A number is kept as its \<open>valueint\<close>, the only view of it the program takes. The
  text-to-tree parser \<open>cJSON_Parse\<close> and the printer are not modelled: the parser is an
  argument of the functions that call it.
\<close>

datatype cjson =
    CJFalse | CJTrue | CJNull
  | CJNumber (valueint: int)
  | CJString (valuestring: "u8 list")
  | CJArray "cjson list"
  | CJObject "(u8 list \<times> cjson) list"

type_synonym json_parser = "u8 list \<Rightarrow> cjson option"

text \<open>The child chain of an item, each with its \<open>string\<close> (NULL outside objects).\<close>

fun cj_children :: "cjson \<Rightarrow> (u8 list option \<times> cjson) list" where
  "cj_children (CJArray vs) = map (\<lambda>v. (None, v)) vs"
| "cj_children (CJObject kvs) = map (\<lambda>(k, v). (Some k, v)) kvs"
| "cj_children _ = []"

section \<open>Type tests\<close>

fun cJSON_IsString :: "cjson option \<Rightarrow> bool" where
  "cJSON_IsString (Some (CJString s)) = True"
| "cJSON_IsString _ = False"

fun cJSON_IsNumber :: "cjson option \<Rightarrow> bool" where
  "cJSON_IsNumber (Some (CJNumber n)) = True"
| "cJSON_IsNumber _ = False"

fun cJSON_IsTrue :: "cjson option \<Rightarrow> bool" where
  "cJSON_IsTrue (Some CJTrue) = True"
| "cJSON_IsTrue _ = False"

fun cJSON_IsBool :: "cjson option \<Rightarrow> bool" where
  "cJSON_IsBool (Some CJTrue) = True"
| "cJSON_IsBool (Some CJFalse) = True"
| "cJSON_IsBool _ = False"

fun cJSON_IsArray :: "cjson option \<Rightarrow> bool" where
  "cJSON_IsArray (Some (CJArray vs)) = True"
| "cJSON_IsArray _ = False"

section \<open>Member lookup\<close>

text \<open>
  The two loops of \<open>get_object_item\<close>. The case-sensitive one stops at a child without a
  name; the other passes it, since comparing with NULL is never equal.
\<close>

fun scan_case_sensitive :: "u8 list \<Rightarrow> (u8 list option \<times> cjson) list \<Rightarrow> cjson option" where
  "scan_case_sensitive name [] = None"
| "scan_case_sensitive name ((None, v) # rest) = None"
| "scan_case_sensitive name ((Some k, v) # rest) =
     (if strcmp_eq name k then Some v else scan_case_sensitive name rest)"

fun scan_case_insensitive :: "u8 list \<Rightarrow> (u8 list option \<times> cjson) list \<Rightarrow> cjson option" where
  "scan_case_insensitive name [] = None"
| "scan_case_insensitive name ((None, v) # rest) = scan_case_insensitive name rest"
| "scan_case_insensitive name ((Some k, v) # rest) =
     (if strcasecmp_eq name k then Some v else scan_case_insensitive name rest)"

fun get_object_item :: "cjson option \<Rightarrow> u8 list \<Rightarrow> bool \<Rightarrow> cjson option" where
  "get_object_item None name case_sensitive = None"
| "get_object_item (Some obj) name case_sensitive =
     (if case_sensitive then scan_case_sensitive name (cj_children obj)
      else scan_case_insensitive name (cj_children obj))"

definition cJSON_GetObjectItem :: "cjson option \<Rightarrow> u8 list \<Rightarrow> cjson option" where
  "cJSON_GetObjectItem obj name = get_object_item obj name False"

definition cJSON_GetObjectItemCaseSensitive :: "cjson option \<Rightarrow> u8 list \<Rightarrow> cjson option" where
  "cJSON_GetObjectItemCaseSensitive obj name = get_object_item obj name True"

text \<open>\<open>cJSON_ArrayForEach(it, array)\<close> visits the child chain in order.\<close>

fun cj_elements :: "cjson option \<Rightarrow> cjson list" where
  "cj_elements None = []"
| "cj_elements (Some v) = map snd (cj_children v)"

section \<open>Lookup in objects\<close>

lemma cJSON_IsString_iff: "cJSON_IsString v \<longleftrightarrow> (\<exists>s. v = Some (CJString s))"
  by (cases v rule: cJSON_IsString.cases) auto

lemma cJSON_IsArray_iff: "cJSON_IsArray v \<longleftrightarrow> (\<exists>vs. v = Some (CJArray vs))"
  by (cases v rule: cJSON_IsArray.cases) auto

lemma GetObjectItem_NULL [simp]: "cJSON_GetObjectItem None name = None"
  by (simp add: cJSON_GetObjectItem_def)

lemma GetObjectItem_CJObject:
  "cJSON_GetObjectItem (Some (CJObject kvs)) name =
     map_option snd (find (\<lambda>(k, v). strcasecmp_eq name k) kvs)"
  unfolding cJSON_GetObjectItem_def by (induction kvs) auto

lemma GetObjectItemCaseSensitive_CJObject:
  "cJSON_GetObjectItemCaseSensitive (Some (CJObject kvs)) name =
     map_option snd (find (\<lambda>(k, v). strcmp_eq name k) kvs)"
  unfolding cJSON_GetObjectItemCaseSensitive_def by (induction kvs) auto

text \<open>Where both lookups find a member of an object, they may differ: the insensitive one
  can stop earlier, never later.\<close>

lemma case_sensitive_found_insensitive:
  "cJSON_GetObjectItemCaseSensitive (Some (CJObject kvs)) name = Some v \<Longrightarrow>
     cJSON_GetObjectItem (Some (CJObject kvs)) name \<noteq> None"
  unfolding cJSON_GetObjectItem_def cJSON_GetObjectItemCaseSensitive_def
  by (induction kvs) (auto split: if_splits dest: strcmp_eq_strcasecmp_eq)

end
