(* ===== verification/SubprocDirectory.thy ===== *)
theory SubprocDirectory
  imports EzPrelude
begin

text \<open>
  What the rest of the program relies on from the table of registered child programs: a
  bounded finite map from connections to their metadata, that a connection enters by
  registering, leaves by unregistering, and that changes in no other way. The provider is
  \<open>Registry\<close>; the clients are the frame dispatcher, the IPC connection loop and the
  heartbeat supervisor.
\<close>

text \<open>An operation on the directory, with what its caller supplies.\<close>

datatype ('k, 'a, 't) dir_op = Join 'k 'a 't | Leave 'k | Touch 'k 't

fun run_dir ::
    "('k \<Rightarrow> 'a \<Rightarrow> 't \<Rightarrow> 's \<Rightarrow> 's) \<Rightarrow> ('k \<Rightarrow> 's \<Rightarrow> 's) \<Rightarrow> ('k \<Rightarrow> 't \<Rightarrow> 's \<Rightarrow> 's) \<Rightarrow>
       ('k, 'a, 't) dir_op list \<Rightarrow> 's \<Rightarrow> 's" where
  "run_dir join leave touch [] s = s"
| "run_dir join leave touch (Join k a t # ops) s = run_dir join leave touch ops (join k a t s)"
| "run_dir join leave touch (Leave k # ops) s = run_dir join leave touch ops (leave k s)"
| "run_dir join leave touch (Touch k t # ops) s = run_dir join leave touch ops (touch k t s)"

fun op_key :: "('k, 'a, 't) dir_op \<Rightarrow> 'k" where
  "op_key (Join k a t) = k"
| "op_key (Leave k) = k"
| "op_key (Touch k t) = k"

locale directory =
  fixes inv :: "'s \<Rightarrow> bool"
    and entry :: "'s \<Rightarrow> 'k \<Rightarrow> 'm option"
    and stamp :: "'t \<Rightarrow> 'm \<Rightarrow> 'm"
    and join :: "'k \<Rightarrow> 'a \<Rightarrow> 't \<Rightarrow> 's \<Rightarrow> 's"
    and leave :: "'k \<Rightarrow> 's \<Rightarrow> 's"
    and touch :: "'k \<Rightarrow> 't \<Rightarrow> 's \<Rightarrow> 's"
    and capacity :: nat
  assumes inv_join: "inv s \<Longrightarrow> inv (join k a t s)"
    and inv_leave: "inv s \<Longrightarrow> inv (leave k s)"
    and inv_touch: "inv s \<Longrightarrow> inv (touch k t s)"
    and entry_join_other: "inv s \<Longrightarrow> k' \<noteq> k \<Longrightarrow> entry (join k a t s) k' = entry s k'"
    and entry_join_known: "inv s \<Longrightarrow> entry s k = Some m \<Longrightarrow> entry (join k a t s) k = Some m"
    and entry_leave: "inv s \<Longrightarrow> entry (leave k s) = (entry s)(k := None)"
    and entry_touch:
      "inv s \<Longrightarrow> entry (touch k t s) = (entry s)(k := map_option (stamp t) (entry s k))"
    and bounded: "inv s \<Longrightarrow> finite (dom (entry s)) \<and> card (dom (entry s)) \<le> capacity"
begin

lemma inv_run: "inv s \<Longrightarrow> inv (run_dir join leave touch ops s)"
proof (induction ops arbitrary: s)
  case Nil
  then show ?case by simp
next
  case (Cons op ops)
  then show ?case by (cases op) (auto intro: inv_join inv_leave inv_touch)
qed

text \<open>Operations for other connections do not show in a connection's entry.\<close>

lemma run_other:
  "inv s \<Longrightarrow> k \<notin> op_key ` set ops \<Longrightarrow> entry (run_dir join leave touch ops s) k = entry s k"
proof (induction ops arbitrary: s)
  case Nil
  then show ?case by simp
next
  case (Cons op ops)
  then show ?case
    by (cases op)
       (auto simp: entry_join_other entry_leave entry_touch inv_join inv_leave inv_touch)
qed

text \<open>
  A connection that is registered stays registered, with its metadata up to the time stamp,
  through every operation but its own leaving.
\<close>

lemma run_stays:
  "inv s \<Longrightarrow> entry s k = Some m \<Longrightarrow> Leave k \<notin> set ops \<Longrightarrow>
     \<exists>ts. entry (run_dir join leave touch ops s) k = Some (fold stamp ts m)"
proof (induction ops arbitrary: s m)
  case Nil
  then show ?case by (auto intro: exI [of _ "[]"])
next
  case (Cons op ops)
  show ?case
  proof (cases op)
    case (Join k' a t)
    then have "entry (join k' a t s) k = Some m"
      using Cons.prems by (cases "k' = k") (auto simp: entry_join_other entry_join_known)
    with Cons Join show ?thesis by (auto intro: inv_join)
  next
    case (Leave k')
    with Cons.prems have "entry (leave k' s) k = Some m" by (auto simp: entry_leave)
    with Cons Leave show ?thesis by (auto intro: inv_leave)
  next
    case (Touch k' t)
    show ?thesis
    proof (cases "k' = k")
      case True
      with Cons.prems have "entry (touch k' t s) k = Some (stamp t m)" by (simp add: entry_touch)
      with Cons Touch obtain ts
        where "entry (run_dir join leave touch ops (touch k' t s)) k = Some (fold stamp ts (stamp t m))"
        by (metis inv_touch list.set_intros(2))
      then have "entry (run_dir join leave touch (op # ops) s) k = Some (fold stamp (t # ts) m)"
        by (simp add: Touch)
      then show ?thesis by blast
    next
      case False
      with Cons.prems have "entry (touch k' t s) k = Some m" by (simp add: entry_touch)
      with Cons Touch show ?thesis by (auto intro: inv_touch)
    qed
  qed
qed

text \<open>A connection that has left is gone until it joins again.\<close>

lemma run_gone:
  assumes "inv s" and "\<And>a t. Join k a t \<notin> set ops"
  shows "entry (run_dir join leave touch ops (leave k s)) k = None"
proof -
  have "inv s' \<Longrightarrow> entry s' k = None \<Longrightarrow> (\<And>a t. Join k a t \<notin> set ops) \<Longrightarrow>
      entry (run_dir join leave touch ops s') k = None" for s'
  proof (induction ops arbitrary: s')
    case Nil
    then show ?case by simp
  next
    case (Cons op ops)
    show ?case
    proof (cases op)
      case (Join k' a t)
      with Cons.prems have "k \<noteq> k'" by auto
      with Cons Join show ?thesis by (simp add: entry_join_other inv_join)
    next
      case (Leave k')
      with Cons show ?thesis by (simp add: entry_leave inv_leave)
    next
      case (Touch k' t)
      with Cons.prems have "entry (touch k' t s') k = None"
        by (cases "k' = k") (simp_all add: entry_touch)
      with Cons Touch show ?thesis by (simp add: inv_touch)
    qed
  qed
  then show ?thesis using assms by (simp add: entry_leave inv_leave)
qed

end

end
