(* ===== verification/Registry.thy ===== *)
theory Registry
  imports CJson SubprocDirectory
begin

text \<open>
  The table of registered child programs: \<^verbatim>\<open>routerd/include/registry.h\<close> and
  \<^verbatim>\<open>routerd/src/registry.c\<close>. The table, its entries and their character arrays are kept as
  the code has them; \<open>find_by_fd\<close> and \<open>find_by_device_id\<close> return the index of the slot the C
  pointer points to. Every public function holds the mutex from its first to its last access
  to the table, so each is one step on the state. The clock is read through a \<open>timespec\<close>
  argument, JSON text through a parser argument. \<open>None\<close> is an access outside a buffer.
\<close>

section \<open>Data\<close>

definition REGISTRY_MAX_SUBPROCS :: nat where "REGISTRY_MAX_SUBPROCS = 32"
definition REGISTRY_MAX_PORTS_PER_SUBPROC :: nat where "REGISTRY_MAX_PORTS_PER_SUBPROC = 8"
definition REGISTRY_DEVICE_ID_LEN :: nat where "REGISTRY_DEVICE_ID_LEN = 64"
definition REGISTRY_MODEL_LEN :: nat where "REGISTRY_MODEL_LEN = 32"
definition REGISTRY_FW_VERSION_LEN :: nat where "REGISTRY_FW_VERSION_LEN = 16"
definition REGISTRY_BUILD_DATE_LEN :: nat where "REGISTRY_BUILD_DATE_LEN = 16"
definition REGISTRY_PORT_NAME_LEN :: nat where "REGISTRY_PORT_NAME_LEN = 32"

lemmas registry_consts = REGISTRY_MAX_SUBPROCS_def REGISTRY_MAX_PORTS_PER_SUBPROC_def
  REGISTRY_DEVICE_ID_LEN_def REGISTRY_MODEL_LEN_def REGISTRY_FW_VERSION_LEN_def
  REGISTRY_BUILD_DATE_LEN_def REGISTRY_PORT_NAME_LEN_def

record subproc_entry =
  client_fd :: int
  in_use :: bool
  device_id :: cbuf
  model :: cbuf
  fw_version :: cbuf
  build_date :: cbuf
  last_seq :: u32
  last_heartbeat_ms :: u64
  port_count :: nat
  port_names :: "cbuf list"

record registry =
  g_inited :: bool
  g_table :: "subproc_entry list"

record timespec =
  tv_sec :: u64
  tv_nsec :: u64

text \<open>\<open>memset(&e, 0, sizeof(e))\<close>, and an empty slot.\<close>

definition zero_entry :: subproc_entry where
  "zero_entry = \<lparr>client_fd = 0, in_use = False,
     device_id = replicate REGISTRY_DEVICE_ID_LEN 0, model = replicate REGISTRY_MODEL_LEN 0,
     fw_version = replicate REGISTRY_FW_VERSION_LEN 0,
     build_date = replicate REGISTRY_BUILD_DATE_LEN 0,
     last_seq = 0, last_heartbeat_ms = 0, port_count = 0,
     port_names = replicate REGISTRY_MAX_PORTS_PER_SUBPROC (replicate REGISTRY_PORT_NAME_LEN 0)\<rparr>"

definition empty_slot :: subproc_entry where
  "empty_slot = zero_entry\<lparr>client_fd := -1\<rparr>"

text \<open>The static variables as the program starts.\<close>

definition registry_static :: registry where
  "registry_static = \<lparr>g_inited = False, g_table = replicate REGISTRY_MAX_SUBPROCS zero_entry\<rparr>"

section \<open>Operations\<close>

definition copy_field :: "cbuf \<Rightarrow> nat \<Rightarrow> u8 list option \<Rightarrow> cbuf option" where
  "copy_field dst cap src =
     (if cap = 0 then Some dst
      else case src of
        None \<Rightarrow> store dst 0 0
      | Some s \<Rightarrow>
          let n = c_strlen s; n = (if cap \<le> n then cap - 1 else n)
          in do { dst \<leftarrow> memcpy dst 0 (cstr s @ [0]) n; store dst n 0 })"

definition json_str :: "cjson option \<Rightarrow> u8 list \<Rightarrow> u8 list option" where
  "json_str obj key =
     (case cJSON_GetObjectItemCaseSensitive obj key of Some (CJString s) \<Rightarrow> Some s | _ \<Rightarrow> None)"

definition registry_now_ms :: "timespec \<Rightarrow> u64" where
  "registry_now_ms ts = tv_sec ts * 1000 + tv_nsec ts div 1000000"

definition registry_init :: "registry \<Rightarrow> registry" where
  "registry_init r =
     (if \<not> g_inited r
      then r\<lparr>g_table := replicate REGISTRY_MAX_SUBPROCS empty_slot, g_inited := True\<rparr> else r)"

definition registry_close :: "registry \<Rightarrow> registry" where
  "registry_close r = r"

text \<open>The loop over the \<open>ports\<close> array of the JSON.\<close>

fun parse_ports_loop :: "cjson list \<Rightarrow> subproc_entry \<Rightarrow> subproc_entry option" where
  "parse_ports_loop [] e = Some e"
| "parse_ports_loop (it # rest) e =
     (if REGISTRY_MAX_PORTS_PER_SUBPROC \<le> port_count e then Some e
      else case json_str (Some it) (bytes ''name'') of
        None \<Rightarrow> parse_ports_loop rest e
      | Some name \<Rightarrow> do {
          dst \<leftarrow> copy_field (port_names e ! port_count e) REGISTRY_PORT_NAME_LEN (Some name);
          slots \<leftarrow> store (port_names e) (port_count e) dst;
          parse_ports_loop rest (e\<lparr>port_names := slots, port_count := port_count e + 1\<rparr>) })"

definition parse_register_json ::
    "json_parser \<Rightarrow> u8 list \<Rightarrow> int \<Rightarrow> subproc_entry \<Rightarrow> (int \<times> subproc_entry) option" where
  "parse_register_json cJSON_Parse json json_len e =
     (if json_len \<le> 0 \<or> json_len > 4096 then Some (-1, e)
      else do {
        buf \<leftarrow> memcpy (replicate 4097 0) 0 json (nat json_len);
        buf \<leftarrow> store buf (nat json_len) 0;
        case cJSON_Parse (cstr buf) of
          None \<Rightarrow> Some (-1, e)
        | Some root \<Rightarrow>
            (case (json_str (Some root) (bytes ''device_id''), json_str (Some root) (bytes ''model''),
                   json_str (Some root) (bytes ''fw_version''), json_str (Some root) (bytes ''build_date'')) of
               (Some dev, Some mdl, Some fw, Some bd) \<Rightarrow> do {
                 d1 \<leftarrow> copy_field (device_id e) REGISTRY_DEVICE_ID_LEN (Some dev);
                 d2 \<leftarrow> copy_field (model e) REGISTRY_MODEL_LEN (Some mdl);
                 d3 \<leftarrow> copy_field (fw_version e) REGISTRY_FW_VERSION_LEN (Some fw);
                 d4 \<leftarrow> copy_field (build_date e) REGISTRY_BUILD_DATE_LEN (Some bd);
                 let e = e\<lparr>device_id := d1, model := d2, fw_version := d3, build_date := d4,
                           port_count := 0\<rparr>;
                 let ports = cJSON_GetObjectItemCaseSensitive (Some root) (bytes ''ports'');
                 e \<leftarrow> (if cJSON_IsArray ports then parse_ports_loop (cj_elements ports) e else Some e);
                 Some (0, e) }
             | _ \<Rightarrow> Some (-1, e)) })"

text \<open>
  The scan of \<open>registry_register\<close>: it stops at an entry with the same connection or the same
  device id, and otherwise gives the first free slot it passed.
\<close>

datatype scan_result = Fd_registered | Id_registered | Free_slot "nat option"

fun scan_table :: "int \<Rightarrow> cbuf \<Rightarrow> nat \<Rightarrow> nat option \<Rightarrow> subproc_entry list \<Rightarrow> scan_result" where
  "scan_table fd dev i free_slot [] = Free_slot free_slot"
| "scan_table fd dev i free_slot (e # es) =
     (if in_use e then
        if client_fd e = fd then Fd_registered
        else if strcmp_eq (device_id e) dev then Id_registered
        else scan_table fd dev (i + 1) free_slot es
      else if free_slot = None then scan_table fd dev (i + 1) (Some i) es
      else scan_table fd dev (i + 1) free_slot es)"

definition registry_register ::
    "json_parser \<Rightarrow> timespec \<Rightarrow> int \<Rightarrow> u8 list \<Rightarrow> int \<Rightarrow> registry \<Rightarrow> (int \<times> registry) option" where
  "registry_register cJSON_Parse ts fd json json_len r =
     (let r = (if g_inited r then r else registry_init r) in do {
        (rc, parsed) \<leftarrow> parse_register_json cJSON_Parse json json_len zero_entry;
        if rc < 0 then Some (-1, r)
        else case scan_table fd (device_id parsed) 0 None (g_table r) of
          Fd_registered \<Rightarrow> Some (-1, r)
        | Id_registered \<Rightarrow> Some (-1, r)
        | Free_slot None \<Rightarrow> Some (-1, r)
        | Free_slot (Some i) \<Rightarrow>
            let parsed = parsed\<lparr>client_fd := fd, in_use := True, last_seq := 0,
                                last_heartbeat_ms := registry_now_ms ts\<rparr>
            in do { t \<leftarrow> store (g_table r) i parsed; Some (0, r\<lparr>g_table := t\<rparr>) } })"

text \<open>The searches of the other functions.\<close>

definition used_by_fd :: "int \<Rightarrow> subproc_entry \<Rightarrow> bool" where
  "used_by_fd fd e \<longleftrightarrow> in_use e \<and> client_fd e = fd"

definition used_by_id :: "cbuf \<Rightarrow> subproc_entry \<Rightarrow> bool" where
  "used_by_id dev e \<longleftrightarrow> in_use e \<and> strcmp_eq (device_id e) dev"

definition registry_unregister :: "int \<Rightarrow> registry \<Rightarrow> int \<times> registry" where
  "registry_unregister fd r =
     (if \<not> g_inited r then (-1, r)
      else case find_index (used_by_fd fd) (g_table r) of
        None \<Rightarrow> (-1, r)
      | Some i \<Rightarrow> (0, r\<lparr>g_table := (g_table r)[i := empty_slot]\<rparr>))"

definition registry_update_heartbeat :: "timespec \<Rightarrow> int \<Rightarrow> registry \<Rightarrow> int \<times> registry" where
  "registry_update_heartbeat ts fd r =
     (if \<not> g_inited r then (-1, r)
      else case find_index (used_by_fd fd) (g_table r) of
        None \<Rightarrow> (-1, r)
      | Some i \<Rightarrow> (0, r\<lparr>g_table := (g_table r)
                  [i := (g_table r ! i)\<lparr>last_heartbeat_ms := registry_now_ms ts\<rparr>]\<rparr>))"

definition registry_find_by_fd :: "int \<Rightarrow> registry \<Rightarrow> nat option" where
  "registry_find_by_fd fd r =
     (if \<not> g_inited r then None else find_index (used_by_fd fd) (g_table r))"

definition registry_find_by_device_id :: "u8 list option \<Rightarrow> registry \<Rightarrow> nat option" where
  "registry_find_by_device_id dev r =
     (if \<not> g_inited r then None
      else case dev of None \<Rightarrow> None | Some d \<Rightarrow> find_index (used_by_id d) (g_table r))"

text \<open>\<open>registry_iterate(cb, user)\<close>: the callback threads the user's state.\<close>

definition registry_iterate :: "(subproc_entry \<Rightarrow> 'u \<Rightarrow> 'u) \<Rightarrow> registry \<Rightarrow> 'u \<Rightarrow> 'u" where
  "registry_iterate cb r user =
     (if \<not> g_inited r then user else fold cb (filter in_use (g_table r)) user)"


section \<open>Character arrays\<close>

definition buf_ok :: "nat \<Rightarrow> cbuf \<Rightarrow> bool" where
  "buf_ok n b \<longleftrightarrow> length b = n \<and> nul_terminated b"

lemma buf_ok_zero [simp]: "0 < n \<Longrightarrow> buf_ok n (replicate n 0)"
  by (simp add: buf_ok_def nul_terminated_def)

lemma copy_field_eq:
  assumes "length dst = cap" and "0 < cap"
  shows "copy_field dst cap (Some s) =
    Some (take (cap - 1) (cstr s) @ 0 # drop (Suc (min (cap - 1) (length (cstr s)))) dst)"
proof (cases "cap \<le> length (cstr s)")
  case True
  then show ?thesis
    using assms
    by (simp add: copy_field_def c_strlen_def mem_simps Let_def min_def upd_conv_take_nth_drop)
next
  case False
  then show ?thesis
    using assms
    by (simp add: copy_field_def c_strlen_def mem_simps Let_def min_def upd_conv_take_nth_drop)
qed

lemma copy_field_SomeD:
  assumes "copy_field dst cap (Some s) = Some dst'" and "length dst = cap" and "0 < cap"
  shows "buf_ok cap dst'" and "cstr dst' = take (cap - 1) (cstr s)"
  using assms
  by (cases cap; auto simp: copy_field_eq buf_ok_def nul_terminated_def cstr_append_nul
      take_cstr_no_nul min_def)+

lemma copy_field_total:
  "length dst = cap \<Longrightarrow> 0 < cap \<Longrightarrow> \<exists>dst'. copy_field dst cap (Some s) = Some dst'"
  by (simp add: copy_field_eq)

section \<open>Well-formed entries and tables\<close>

definition entry_wf :: "subproc_entry \<Rightarrow> bool" where
  "entry_wf e \<longleftrightarrow> buf_ok REGISTRY_DEVICE_ID_LEN (device_id e) \<and> buf_ok REGISTRY_MODEL_LEN (model e)
     \<and> buf_ok REGISTRY_FW_VERSION_LEN (fw_version e) \<and> buf_ok REGISTRY_BUILD_DATE_LEN (build_date e)
     \<and> port_count e \<le> REGISTRY_MAX_PORTS_PER_SUBPROC
     \<and> length (port_names e) = REGISTRY_MAX_PORTS_PER_SUBPROC
     \<and> (\<forall>b \<in> set (port_names e). buf_ok REGISTRY_PORT_NAME_LEN b)"

definition same_program :: "subproc_entry \<Rightarrow> subproc_entry \<Rightarrow> bool" where
  "same_program e e' \<longleftrightarrow> in_use e \<and> in_use e' \<and>
     (client_fd e = client_fd e' \<or> strcmp_eq (device_id e) (device_id e'))"

definition table_inv :: "subproc_entry list \<Rightarrow> bool" where
  "table_inv t \<longleftrightarrow> length t = REGISTRY_MAX_SUBPROCS \<and> (\<forall>e \<in> set t. entry_wf e)
     \<and> (\<forall>i < length t. \<forall>j < length t. same_program (t ! i) (t ! j) \<longrightarrow> i = j)"

definition reg_inv :: "registry \<Rightarrow> bool" where
  "reg_inv r \<longleftrightarrow> table_inv (g_table r)"

lemma same_program_sym: "same_program e e' = same_program e' e"
  by (auto simp: same_program_def strcmp_eq_sym)

lemma registry_consts_pos [simp]:
  "0 < REGISTRY_DEVICE_ID_LEN" "0 < REGISTRY_MODEL_LEN" "0 < REGISTRY_FW_VERSION_LEN"
  "0 < REGISTRY_BUILD_DATE_LEN" "0 < REGISTRY_PORT_NAME_LEN"
  by (simp_all add: registry_consts)

lemma zero_entry_wf [simp]: "entry_wf zero_entry"
  by (simp add: entry_wf_def zero_entry_def)

lemma empty_slot_wf [simp]: "entry_wf empty_slot"
  using zero_entry_wf by (simp add: entry_wf_def empty_slot_def)

lemma empty_slot_free [simp]: "\<not> in_use empty_slot" "\<not> used_by_fd fd empty_slot"
  "client_fd empty_slot = -1"
  by (simp_all add: empty_slot_def zero_entry_def used_by_fd_def)

lemma entry_wf_updates [simp]:
  "entry_wf (e\<lparr>last_heartbeat_ms := t\<rparr>) = entry_wf e"
  "entry_wf (e\<lparr>client_fd := fd\<rparr>) = entry_wf e"
  "entry_wf (e\<lparr>in_use := b\<rparr>) = entry_wf e"
  "entry_wf (e\<lparr>last_seq := q\<rparr>) = entry_wf e"
  by (simp_all add: entry_wf_def)

lemma table_inv_empty: "table_inv (replicate REGISTRY_MAX_SUBPROCS empty_slot)"
  by (auto simp: table_inv_def same_program_def)

lemma table_inv_unique:
  assumes "table_inv t" and "i < length t" and "j < length t"
    and "used_by_fd fd (t ! i)" and "used_by_fd fd (t ! j)"
  shows "i = j"
  using assms by (auto simp: table_inv_def same_program_def used_by_fd_def)

lemma table_inv_same:
  "table_inv t \<Longrightarrow> i < length t \<Longrightarrow> j < length t \<Longrightarrow> same_program (t ! i) (t ! j) \<Longrightarrow> i = j"
  by (simp add: table_inv_def)

lemma table_inv_find:
  "table_inv t \<Longrightarrow> i < length t \<Longrightarrow> used_by_fd fd (t ! i) \<Longrightarrow> find_index (used_by_fd fd) t = Some i"
  by (rule find_index_unique) (auto intro: table_inv_unique)

text \<open>Updating one slot keeps the table well formed when the new entry clashes with no other.\<close>

lemma table_inv_update:
  assumes "table_inv t" and "i < length t" and "entry_wf e"
    and "\<And>j. j < length t \<Longrightarrow> j \<noteq> i \<Longrightarrow> \<not> same_program e (t ! j)"
  shows "table_inv (t[i := e])"
proof -
  have "a = b" if ab: "a < length t" "b < length t" "same_program (t[i := e] ! a) (t[i := e] ! b)" for a b
  proof (cases "a = i \<or> b = i")
    case True
    with ab assms(2,4) show ?thesis
      by (cases "a = i"; cases "b = i") (auto dest: same_program_sym [THEN iffD1])
  next
    case False
    with ab assms(1) show ?thesis by (simp add: table_inv_def)
  qed
  moreover have "\<forall>x \<in> set (t[i := e]). entry_wf x"
    using assms(1,3) by (auto simp: table_inv_def dest: in_set_updateD)
  ultimately show ?thesis using assms(1) by (simp add: table_inv_def)
qed


section \<open>What registration records\<close>

text \<open>
  The metadata a REGISTER message carries, as strings: the specification of
  \<open>parse_register_json\<close>. Required members that are missing, not strings or not there because
  the text is no JSON give nothing; strings are cut to their fields; of the ports, the first
  eight elements with a string name count.
\<close>

record subproc_meta =
  meta_device_id :: "u8 list"
  meta_model :: "u8 list"
  meta_fw_version :: "u8 list"
  meta_build_date :: "u8 list"
  meta_ports :: "u8 list list"

definition cut :: "nat \<Rightarrow> u8 list \<Rightarrow> u8 list" where
  "cut cap s = take (cap - 1) (cstr s)"

definition port_list :: "cjson option \<Rightarrow> u8 list list" where
  "port_list ports =
     (if cJSON_IsArray ports
      then map (cut REGISTRY_PORT_NAME_LEN)
        (take REGISTRY_MAX_PORTS_PER_SUBPROC
          (List.map_filter (\<lambda>it. json_str (Some it) (bytes ''name'')) (cj_elements ports)))
      else [])"

definition register_meta :: "json_parser \<Rightarrow> u8 list \<Rightarrow> subproc_meta option" where
  "register_meta cJSON_Parse json =
     (if json = [] \<or> 4096 < length json then None
      else do {
        root \<leftarrow> cJSON_Parse (cstr json);
        dev \<leftarrow> json_str (Some root) (bytes ''device_id'');
        mdl \<leftarrow> json_str (Some root) (bytes ''model'');
        fw \<leftarrow> json_str (Some root) (bytes ''fw_version'');
        bd \<leftarrow> json_str (Some root) (bytes ''build_date'');
        Some \<lparr>meta_device_id = cut REGISTRY_DEVICE_ID_LEN dev,
              meta_model = cut REGISTRY_MODEL_LEN mdl,
              meta_fw_version = cut REGISTRY_FW_VERSION_LEN fw,
              meta_build_date = cut REGISTRY_BUILD_DATE_LEN bd,
              meta_ports = port_list
                (cJSON_GetObjectItemCaseSensitive (Some root) (bytes ''ports''))\<rparr> })"

definition entry_meta :: "subproc_entry \<Rightarrow> subproc_meta" where
  "entry_meta e = \<lparr>meta_device_id = cstr (device_id e), meta_model = cstr (model e),
     meta_fw_version = cstr (fw_version e), meta_build_date = cstr (build_date e),
     meta_ports = map cstr (take (port_count e) (port_names e))\<rparr>"

lemma parse_ports_loop_spec:
  assumes "entry_wf e"
  shows "\<exists>e'. parse_ports_loop items e = Some e' \<and> entry_wf e'
    \<and> e'\<lparr>port_count := port_count e, port_names := port_names e\<rparr> = e
    \<and> map cstr (take (port_count e') (port_names e')) =
        map cstr (take (port_count e) (port_names e))
        @ map (cut REGISTRY_PORT_NAME_LEN)
            (take (REGISTRY_MAX_PORTS_PER_SUBPROC - port_count e)
              (List.map_filter (\<lambda>it. json_str (Some it) (bytes ''name'')) items))"
  using assms
proof (induction items arbitrary: e)
  case Nil
  then show ?case by (simp add: map_filter_simps)
next
  case (Cons it rest)
  let ?n = "port_count e"
  show ?case
  proof (cases "REGISTRY_MAX_PORTS_PER_SUBPROC \<le> ?n \<or> json_str (Some it) (bytes ''name'') = None")
    case True
    then show ?thesis
      using Cons.IH [OF Cons.prems] Cons.prems by (auto simp: map_filter_simps)
  next
    case False
    then obtain name where name: "json_str (Some it) (bytes ''name'') = Some name"
      and room: "?n < REGISTRY_MAX_PORTS_PER_SUBPROC" by auto
    from Cons.prems room have slot: "?n < length (port_names e)"
      "buf_ok REGISTRY_PORT_NAME_LEN (port_names e ! ?n)"
      by (simp_all add: entry_wf_def)
    then obtain b where b: "copy_field (port_names e ! ?n) REGISTRY_PORT_NAME_LEN (Some name) = Some b"
      using copy_field_total [of "port_names e ! ?n" REGISTRY_PORT_NAME_LEN name]
      by (auto simp: buf_ok_def)
    note b' = copy_field_SomeD [OF b]
    let ?e = "e\<lparr>port_names := (port_names e)[?n := b], port_count := ?n + 1\<rparr>"
    have "entry_wf ?e"
      using Cons.prems room b'(1) slot(2)
      by (auto simp: entry_wf_def buf_ok_def dest!: in_set_updateD)
    from Cons.IH [OF this] obtain e' where e': "parse_ports_loop rest ?e = Some e'" "entry_wf e'"
      "e'\<lparr>port_count := ?n + 1, port_names := (port_names e)[?n := b]\<rparr> = ?e"
      "map cstr (take (port_count e') (port_names e')) =
        map cstr (take (?n + 1) ((port_names e)[?n := b]))
        @ map (cut REGISTRY_PORT_NAME_LEN) (take (REGISTRY_MAX_PORTS_PER_SUBPROC - (?n + 1))
            (List.map_filter (\<lambda>it. json_str (Some it) (bytes ''name'')) rest))"
      by auto
    have "e'\<lparr>port_count := ?n, port_names := port_names e\<rparr> = e"
      using arg_cong [OF e'(3), of "\<lambda>x. x\<lparr>port_count := ?n, port_names := port_names e\<rparr>"] by simp
    moreover have "take (?n + 1) ((port_names e)[?n := b]) = take ?n (port_names e) @ [b]"
      using slot(1) by (simp add: take_Suc_conv_app_nth)
    moreover have "cstr b = cut REGISTRY_PORT_NAME_LEN name"
      using b'(2) slot(2) by (simp add: cut_def buf_ok_def)
    moreover have "REGISTRY_MAX_PORTS_PER_SUBPROC - ?n = Suc (REGISTRY_MAX_PORTS_PER_SUBPROC - (?n + 1))"
      using room by simp
    ultimately show ?thesis
      using room name slot(1) b e' by (simp add: map_filter_simps mem_simps)
  qed
qed


lemma parse_ports_spec:
  assumes "entry_wf e" and "port_count e = 0"
  shows "\<exists>e'. (if cJSON_IsArray ports then parse_ports_loop (cj_elements ports) e else Some e) = Some e'
    \<and> entry_wf e' \<and> e'\<lparr>port_count := 0, port_names := port_names e\<rparr> = e
    \<and> map cstr (take (port_count e') (port_names e')) = port_list ports"
proof (cases "cJSON_IsArray ports")
  case True
  then show ?thesis
    using parse_ports_loop_spec [OF assms(1), of "cj_elements ports"] assms(2)
    by (simp add: port_list_def)
next
  case False
  moreover have "e\<lparr>port_count := 0, port_names := port_names e\<rparr> = e"
    using assms(2) by (cases e) simp
  ultimately show ?thesis using assms by (simp add: port_list_def)
qed

lemma json_buffer:
  assumes "length json \<le> 4096"
  shows "\<exists>b b'. memcpy (replicate 4097 0) 0 json (length json) = Some b
    \<and> store b (length json) 0 = Some b' \<and> cstr b' = cstr json"
proof -
  have b: "memcpy (replicate 4097 0) 0 json (length json) =
      Some (json @ replicate (4097 - length json) 0)"
    using assms by (simp add: mem_simps)
  have s: "store (json @ replicate (4097 - length json) 0) (length json) 0 =
      Some (json @ 0 # replicate (4096 - length json) 0)"
  proof -
    have "4097 - length json = Suc (4096 - length json)" using assms by simp
    then show ?thesis using assms by (simp add: mem_simps list_update_append)
  qed
  have "cstr (json @ 0 # replicate (4096 - length json) 0) = cstr json"
    by (simp add: cstr_append)
  with b s show ?thesis by blast
qed

text \<open>Copying the four required fields into an entry.\<close>

lemma copy_required_fields:
  assumes "entry_wf e"
  obtains d1 d2 d3 d4 where
    "copy_field (device_id e) REGISTRY_DEVICE_ID_LEN (Some dev) = Some d1"
    "copy_field (model e) REGISTRY_MODEL_LEN (Some mdl) = Some d2"
    "copy_field (fw_version e) REGISTRY_FW_VERSION_LEN (Some fw) = Some d3"
    "copy_field (build_date e) REGISTRY_BUILD_DATE_LEN (Some bd) = Some d4"
    "entry_wf (e\<lparr>device_id := d1, model := d2, fw_version := d3, build_date := d4, port_count := 0\<rparr>)"
    "cstr d1 = cut REGISTRY_DEVICE_ID_LEN dev" "cstr d2 = cut REGISTRY_MODEL_LEN mdl"
    "cstr d3 = cut REGISTRY_FW_VERSION_LEN fw" "cstr d4 = cut REGISTRY_BUILD_DATE_LEN bd"
proof -
  have len: "length (device_id e) = REGISTRY_DEVICE_ID_LEN" "length (model e) = REGISTRY_MODEL_LEN"
    "length (fw_version e) = REGISTRY_FW_VERSION_LEN" "length (build_date e) = REGISTRY_BUILD_DATE_LEN"
    using assms by (simp_all add: entry_wf_def buf_ok_def)
  obtain d1 d2 d3 d4 where d:
    "copy_field (device_id e) REGISTRY_DEVICE_ID_LEN (Some dev) = Some d1"
    "copy_field (model e) REGISTRY_MODEL_LEN (Some mdl) = Some d2"
    "copy_field (fw_version e) REGISTRY_FW_VERSION_LEN (Some fw) = Some d3"
    "copy_field (build_date e) REGISTRY_BUILD_DATE_LEN (Some bd) = Some d4"
    using len copy_field_total registry_consts_pos by metis
  note c = copy_field_SomeD [OF d(1) len(1)] copy_field_SomeD [OF d(2) len(2)]
    copy_field_SomeD [OF d(3) len(3)] copy_field_SomeD [OF d(4) len(4)]
  show thesis
    by (rule that [OF d]) (use assms c in \<open>simp_all add: entry_wf_def cut_def\<close>)
qed

lemma parse_register_json_spec:
  "\<exists>rc e. parse_register_json P json (int (length json)) zero_entry = Some (rc, e) \<and> entry_wf e
     \<and> (case register_meta P json of None \<Rightarrow> rc = -1 | Some m \<Rightarrow> rc = 0 \<and> entry_meta e = m)"
proof (cases "json = [] \<or> 4096 < length json")
  case True
  then show ?thesis by (auto simp: parse_register_json_def register_meta_def)
next
  case False
  then obtain b b' where buf: "memcpy (replicate 4097 0) 0 json (length json) = Some b"
    "store b (length json) 0 = Some b'" "cstr b' = cstr json"
    using json_buffer [of json] by auto
  have len: "0 < int (length json)" "int (length json) \<le> 4096" using False by auto
  let ?js = "\<lambda>root k. json_str (Some root) (bytes k)"
  show ?thesis
  proof (cases "\<exists>root dev mdl fw bd. P (cstr json) = Some root \<and> ?js root ''device_id'' = Some dev
      \<and> ?js root ''model'' = Some mdl \<and> ?js root ''fw_version'' = Some fw
      \<and> ?js root ''build_date'' = Some bd")
    case False
    then have "register_meta P json = None"
      by (auto simp: register_meta_def bind_eq_None_conv)
    moreover have "parse_register_json P json (int (length json)) zero_entry = Some (-1, zero_entry)"
      using False len by (auto simp: parse_register_json_def buf split: option.splits)
    ultimately show ?thesis by simp
  next
    case True
    then obtain root dev mdl fw bd where r: "P (cstr json) = Some root"
      "?js root ''device_id'' = Some dev" "?js root ''model'' = Some mdl"
      "?js root ''fw_version'' = Some fw" "?js root ''build_date'' = Some bd"
      by blast
    let ?ports = "cJSON_GetObjectItemCaseSensitive (Some root) (bytes ''ports'')"
    obtain d1 d2 d3 d4 where d:
      "copy_field (device_id zero_entry) REGISTRY_DEVICE_ID_LEN (Some dev) = Some d1"
      "copy_field (model zero_entry) REGISTRY_MODEL_LEN (Some mdl) = Some d2"
      "copy_field (fw_version zero_entry) REGISTRY_FW_VERSION_LEN (Some fw) = Some d3"
      "copy_field (build_date zero_entry) REGISTRY_BUILD_DATE_LEN (Some bd) = Some d4"
      "entry_wf (zero_entry\<lparr>device_id := d1, model := d2, fw_version := d3, build_date := d4,
         port_count := 0\<rparr>)"
      "cstr d1 = cut REGISTRY_DEVICE_ID_LEN dev" "cstr d2 = cut REGISTRY_MODEL_LEN mdl"
      "cstr d3 = cut REGISTRY_FW_VERSION_LEN fw" "cstr d4 = cut REGISTRY_BUILD_DATE_LEN bd"
      by (rule copy_required_fields [OF zero_entry_wf])
    let ?e = "zero_entry\<lparr>device_id := d1, model := d2, fw_version := d3, build_date := d4,
       port_count := 0\<rparr>"
    obtain e' where e': "(if cJSON_IsArray ?ports then parse_ports_loop (cj_elements ?ports) ?e
          else Some ?e) = Some e'" "entry_wf e'"
        "e'\<lparr>port_count := 0, port_names := port_names ?e\<rparr> = ?e"
        "map cstr (take (port_count e') (port_names e')) = port_list ?ports"
      using parse_ports_spec [OF d(5), of ?ports] by auto
    have "device_id e' = d1" "model e' = d2" "fw_version e' = d3" "build_date e' = d4"
      using arg_cong [OF e'(3), of device_id] arg_cong [OF e'(3), of model]
        arg_cong [OF e'(3), of fw_version] arg_cong [OF e'(3), of build_date] by simp_all
    then have "register_meta P json = Some (entry_meta e')"
      using False r d(6-9) e'(4) by (auto simp: register_meta_def entry_meta_def)
    moreover have "parse_register_json P json (int (length json)) zero_entry = Some (0, e')"
      using len r d(1-4) e'(1) by (simp add: parse_register_json_def buf)
    ultimately show ?thesis using e'(2) by simp
  qed
qed

section \<open>The scan for conflicts and a free slot\<close>

definition conflicts :: "int \<Rightarrow> cbuf \<Rightarrow> subproc_entry \<Rightarrow> bool" where
  "conflicts fd dev e \<longleftrightarrow> in_use e \<and> (client_fd e = fd \<or> strcmp_eq (device_id e) dev)"

lemma scan_table_conflict:
  "\<exists>e \<in> set t. conflicts fd dev e \<Longrightarrow> scan_table fd dev i fs t \<in> {Fd_registered, Id_registered}"
  by (induction t arbitrary: i fs) (auto simp: conflicts_def)

lemma scan_table_free:
  "\<forall>e \<in> set t. \<not> conflicts fd dev e \<Longrightarrow> scan_table fd dev i fs t =
     Free_slot (case fs of Some j \<Rightarrow> Some j
                | None \<Rightarrow> map_option ((+) i) (find_index (\<lambda>e. \<not> in_use e) t))"
proof (induction t arbitrary: i fs)
  case Nil
  then show ?case by (simp split: option.splits)
next
  case (Cons e t)
  have "(+) (Suc i) = (\<lambda>x. Suc (i + x))" by auto
  with Cons show ?case
    by (auto simp: conflicts_def option.map_comp comp_def split: option.splits)
qed


section \<open>The operations on the table\<close>

text \<open>When registration is refused once the message is understood.\<close>

definition refused :: "int \<Rightarrow> u8 list \<Rightarrow> registry \<Rightarrow> bool" where
  "refused fd dev r \<longleftrightarrow>
     (\<exists>e \<in> set (g_table r). in_use e \<and> (client_fd e = fd \<or> cstr (device_id e) = dev))
     \<or> (\<forall>e \<in> set (g_table r). in_use e)"

lemma registry_init_simps [simp]:
  "g_inited (registry_init r)" "registry_init (registry_init r) = registry_init r"
  "g_inited r \<Longrightarrow> registry_init r = r"
  "(if g_inited r then r else registry_init r) = registry_init r"
  by (simp_all add: registry_init_def)

lemma registry_init_inv: "reg_inv r \<Longrightarrow> table_inv (g_table (registry_init r))"
  by (simp add: registry_init_def reg_inv_def table_inv_empty)

lemma map_option_add_0: "map_option ((+) (0::nat)) x = x"
  by (cases x) auto

lemma register_accepts:
  assumes inv: "reg_inv r" and m: "register_meta P json = Some m"
    and ok: "\<not> refused fd (meta_device_id m) (registry_init r)"
  obtains i e where
    "registry_register P ts fd json (int (length json)) r =
       Some (0, (registry_init r)\<lparr>g_table := (g_table (registry_init r))[i := e]\<rparr>)"
    "find_index (\<lambda>e. \<not> in_use e) (g_table (registry_init r)) = Some i"
    "entry_wf e" "in_use e" "client_fd e = fd" "entry_meta e = m"
    "last_heartbeat_ms e = registry_now_ms ts" "last_seq e = 0"
proof -
  obtain p where p: "parse_register_json P json (int (length json)) zero_entry = Some (0, p)"
    "entry_wf p" "entry_meta p = m"
    using parse_register_json_spec [of P json] m by auto
  then have dev: "cstr (device_id p) = meta_device_id m" by (auto simp: entry_meta_def)
  let ?t = "g_table (registry_init r)"
  have "\<forall>e \<in> set ?t. \<not> conflicts fd (device_id p) e"
    using ok dev by (auto simp: refused_def conflicts_def strcmp_eq_def)
  then have scan: "scan_table fd (device_id p) 0 None ?t = Free_slot (find_index (\<lambda>e. \<not> in_use e) ?t)"
    by (simp add: scan_table_free map_option_add_0)
  from ok obtain i where i: "find_index (\<lambda>e. \<not> in_use e) ?t = Some i"
    by (cases "find_index (\<lambda>e. \<not> in_use e) ?t") (auto simp: refused_def find_index_None)
  let ?e = "p\<lparr>client_fd := fd, in_use := True, last_seq := 0, last_heartbeat_ms := registry_now_ms ts\<rparr>"
  have "registry_register P ts fd json (int (length json)) r =
      Some (0, (registry_init r)\<lparr>g_table := ?t[i := ?e]\<rparr>)"
    using p(1) scan i find_index_SomeD(1) [OF i]
    by (simp add: registry_register_def mem_simps Let_def)
  moreover have "entry_meta ?e = m" using p(3) by (simp add: entry_meta_def)
  ultimately show thesis using i p(2) by (intro that [of i ?e]) simp_all
qed

lemma register_refuses:
  assumes "register_meta P json = None
    \<or> (\<exists>m. register_meta P json = Some m \<and> refused fd (meta_device_id m) (registry_init r))"
  shows "registry_register P ts fd json (int (length json)) r = Some (-1, registry_init r)"
proof -
  obtain rc p where p: "parse_register_json P json (int (length json)) zero_entry = Some (rc, p)"
    "case register_meta P json of None \<Rightarrow> rc = -1 | Some m \<Rightarrow> rc = 0 \<and> entry_meta p = m"
    using parse_register_json_spec [of P json] by auto
  show ?thesis
  proof (cases "register_meta P json")
    case None
    with p show ?thesis by (simp add: registry_register_def Let_def)
  next
    case (Some m)
    let ?t = "g_table (registry_init r)"
    from p Some have dev: "cstr (device_id p) = meta_device_id m" and rc: "rc = 0"
      by (auto simp: entry_meta_def)
    show ?thesis
    proof (cases "\<exists>e \<in> set ?t. conflicts fd (device_id p) e")
      case True
      from scan_table_conflict [OF this, of 0 None] p(1) rc show ?thesis
        by (auto simp: registry_register_def Let_def)
    next
      case False
      then have "\<forall>e \<in> set ?t. in_use e"
        using assms Some dev by (auto simp: refused_def conflicts_def strcmp_eq_def)
      then have "find_index (\<lambda>e. \<not> in_use e) ?t = None" by (simp add: find_index_None)
      with False have "scan_table fd (device_id p) 0 None ?t = Free_slot None"
        by (simp add: scan_table_free)
      with p(1) rc show ?thesis by (simp add: registry_register_def Let_def)
    qed
  qed
qed

lemma register_cases:
  assumes "reg_inv r"
  obtains (accepted) m i e where
    "register_meta P json = Some m" "\<not> refused fd (meta_device_id m) (registry_init r)"
    "registry_register P ts fd json (int (length json)) r =
       Some (0, (registry_init r)\<lparr>g_table := (g_table (registry_init r))[i := e]\<rparr>)"
    "find_index (\<lambda>e. \<not> in_use e) (g_table (registry_init r)) = Some i"
    "entry_wf e" "in_use e" "client_fd e = fd" "entry_meta e = m"
    "last_heartbeat_ms e = registry_now_ms ts"
  | (rejected)
    "registry_register P ts fd json (int (length json)) r = Some (-1, registry_init r)"
    "register_meta P json = None
      \<or> (\<exists>m. register_meta P json = Some m \<and> refused fd (meta_device_id m) (registry_init r))"
proof (cases "register_meta P json = None
    \<or> (\<exists>m. register_meta P json = Some m \<and> refused fd (meta_device_id m) (registry_init r))")
  case True
  then show thesis by (intro rejected register_refuses)
next
  case False
  then obtain m where m: "register_meta P json = Some m"
    and ok: "\<not> refused fd (meta_device_id m) (registry_init r)" by auto
  from register_accepts [OF assms m ok, of ts] show thesis
    using accepted [OF m ok] by metis
qed

text \<open>The invariant.\<close>

lemma reg_inv_init: "reg_inv r \<Longrightarrow> reg_inv (registry_init r)"
  using registry_init_inv [of r] by (simp add: reg_inv_def)

lemma reg_inv_register:
  assumes "reg_inv r" and "registry_register P ts fd json (int (length json)) r = Some (rc, r')"
  shows "reg_inv r'"
  using assms(1)
proof (cases rule: register_cases [of r P json fd ts])
  case (accepted m i e)
  let ?t = "g_table (registry_init r)"
  have inv: "table_inv ?t" by (rule registry_init_inv [OF assms(1)])
  have dev: "cstr (device_id e) = meta_device_id m"
    using accepted(8) by (auto simp: entry_meta_def)
  have "table_inv (?t[i := e])"
  proof (rule table_inv_update [OF inv _ accepted(5)])
    show "i < length ?t" using accepted(4) by (rule find_index_SomeD)
    show "\<not> same_program e (?t ! j)" if "j < length ?t" "j \<noteq> i" for j
      using accepted(2,7) dev nth_mem [OF that(1)]
      by (auto simp: refused_def same_program_def strcmp_eq_def)
  qed
  with accepted(3) assms(2) show ?thesis by (auto simp: reg_inv_def)
next
  case rejected
  with assms(2) reg_inv_init [OF assms(1)] show ?thesis by simp
qed

lemma reg_inv_unregister: "reg_inv r \<Longrightarrow> reg_inv (snd (registry_unregister fd r))"
  by (auto simp: registry_unregister_def reg_inv_def same_program_def split: option.splits
      dest: find_index_SomeD(1) intro!: table_inv_update)

lemma reg_inv_heartbeat:
  assumes "reg_inv r"
  shows "reg_inv (snd (registry_update_heartbeat ts fd r))"
proof (cases "g_inited r \<and> find_index (used_by_fd fd) (g_table r) \<noteq> None")
  case True
  then obtain i where i: "find_index (used_by_fd fd) (g_table r) = Some i" and g: "g_inited r" by auto
  let ?e = "(g_table r ! i)\<lparr>last_heartbeat_ms := registry_now_ms ts\<rparr>"
  have inv: "table_inv (g_table r)" using assms g by (simp add: reg_inv_def)
  have il: "i < length (g_table r)" using i by (rule find_index_SomeD)
  have "table_inv ((g_table r)[i := ?e])"
  proof (rule table_inv_update [OF inv il])
    show "entry_wf ?e" using inv il by (simp add: table_inv_def)
    show "\<not> same_program ?e (g_table r ! j)" if "j < length (g_table r)" "j \<noteq> i" for j
    proof
      assume "same_program ?e (g_table r ! j)"
      then have "same_program (g_table r ! i) (g_table r ! j)" by (simp add: same_program_def)
      with table_inv_same [OF inv il that(1)] that(2) show False by simp
    qed
  qed
  with i g show ?thesis by (simp add: registry_update_heartbeat_def reg_inv_def)
next
  case False
  with assms show ?thesis
    by (auto simp: registry_update_heartbeat_def)
qed

section \<open>The table as a map\<close>

text \<open>
  What the table means to its users: the metadata and the time of the last heartbeat of each
  registered connection.
\<close>

definition entry_info :: "subproc_entry \<Rightarrow> subproc_meta \<times> u64" where
  "entry_info e = (entry_meta e, last_heartbeat_ms e)"

definition reg_entry :: "registry \<Rightarrow> int \<Rightarrow> (subproc_meta \<times> u64) option" where
  "reg_entry r fd = map_option (\<lambda>i. entry_info (g_table r ! i)) (registry_find_by_fd fd r)"

lemma used_by_fd_self [simp]: "used_by_fd (client_fd e) e = in_use e"
  by (simp add: used_by_fd_def)

lemma find_index_update_other:
  assumes "i < length t" and "P (t ! i) = P x"
  shows "find_index P (t[i := x]) = find_index P t"
  by (rule find_index_cong) (use assms in \<open>auto simp: nth_list_update_if\<close>)

lemma reg_entry_init: "reg_entry (registry_init r) = (if g_inited r then reg_entry r else Map.empty)"
  by (auto simp: fun_eq_iff reg_entry_def registry_find_by_fd_def registry_init_def
      find_index_replicate)

lemma reg_entry_uninit: "\<not> g_inited r \<Longrightarrow> reg_entry r = Map.empty"
  by (auto simp: fun_eq_iff reg_entry_def registry_find_by_fd_def)

lemma reg_entry_initD [simp]: "reg_entry (registry_init r) = reg_entry r"
  by (simp add: reg_entry_init reg_entry_uninit)

lemma reg_entry_at:
  assumes "table_inv (g_table r)" and "g_inited r" and "i < length (g_table r)" and "in_use (g_table r ! i)"
  shows "reg_entry r (client_fd (g_table r ! i)) = Some (entry_info (g_table r ! i))"
  using table_inv_find [OF assms(1,3)] assms(2,4) by (simp add: reg_entry_def registry_find_by_fd_def)

lemma reg_entry_SomeD:
  assumes "reg_entry r fd = Some v"
  shows "\<exists>i < length (g_table r). used_by_fd fd (g_table r ! i) \<and> v = entry_info (g_table r ! i)"
  using assms
  by (auto simp: reg_entry_def registry_find_by_fd_def split: if_splits dest: find_index_SomeD(1,2))

text \<open>Replacing one slot, by what it held and holds.\<close>

lemma reg_entry_update:
  assumes t: "table_inv (g_table r)" and g: "g_inited r" and i: "i < length (g_table r)"
    and t': "table_inv ((g_table r)[i := e])"
    and fd: "in_use (g_table r ! i) \<Longrightarrow> client_fd (g_table r ! i) = fd" "in_use e \<Longrightarrow> client_fd e = fd"
    and free: "in_use e \<or> in_use (g_table r ! i)"
  shows "reg_entry (r\<lparr>g_table := (g_table r)[i := e]\<rparr>) =
    (reg_entry r)(fd := (if in_use e then Some (entry_info e) else None))"
proof
  fix k
  let ?r = "r\<lparr>g_table := (g_table r)[i := e]\<rparr>"
  show "reg_entry ?r k = ((reg_entry r)(fd := (if in_use e then Some (entry_info e) else None))) k"
  proof (cases "k = fd")
    case False
    with fd have "used_by_fd k (g_table r ! i) = used_by_fd k e" by (auto simp: used_by_fd_def)
    from find_index_update_other [where P = "used_by_fd k", OF i this] have
      f: "find_index (used_by_fd k) ((g_table r)[i := e]) = find_index (used_by_fd k) (g_table r)" .
    have "j \<noteq> i" if "find_index (used_by_fd k) (g_table r) = Some j" for j
      using find_index_SomeD(2) [OF that] False fd(1) by (auto simp: used_by_fd_def)
    with f False show ?thesis
      by (auto simp: reg_entry_def registry_find_by_fd_def option.map_comp intro!: option.map_cong0)
  next
    case k: True
    show ?thesis
    proof (cases "in_use e")
      case True
      have "reg_entry ?r (client_fd (g_table ?r ! i)) = Some (entry_info (g_table ?r ! i))"
        by (rule reg_entry_at) (use t' g i True in simp_all)
      with i True fd(2) k show ?thesis by simp
    next
      case False
      with free fd have old: "used_by_fd k (g_table r ! i)" by (auto simp: used_by_fd_def k)
      have "\<not> used_by_fd k x" if "x \<in> set ((g_table r)[i := e])" for x
        using in_set_updateD [OF that] False table_inv_unique [OF t _ i _ old]
        by (auto simp: used_by_fd_def)
      with False g k show ?thesis
        by (simp add: reg_entry_def registry_find_by_fd_def find_index_None)
    qed
  qed
qed

lemma reg_entry_dom:
  assumes "table_inv (g_table r)" and "g_inited r"
  shows "dom (reg_entry r) = client_fd ` set (filter in_use (g_table r))"
proof
  show "dom (reg_entry r) \<subseteq> client_fd ` set (filter in_use (g_table r))"
    by (auto simp: used_by_fd_def dest!: reg_entry_SomeD)
  show "client_fd ` set (filter in_use (g_table r)) \<subseteq> dom (reg_entry r)"
    using reg_entry_at [OF assms] by (auto simp: in_set_conv_nth)
qed

lemma distinct_fds:
  assumes "table_inv t"
  shows "distinct (map client_fd (filter in_use t))"
proof -
  have "distinct (map client_fd (filter in_use t))"
    if "\<forall>i < length t. \<forall>j < length t. same_program (t ! i) (t ! j) \<longrightarrow> i = j" for t
    using that
  proof (induction t)
    case Nil
    then show ?case by simp
  next
    case (Cons e t)
    have "distinct (map client_fd (filter in_use t))"
      by (rule Cons.IH) (use Cons.prems in fastforce)
    moreover have "client_fd e \<noteq> client_fd e'" if "in_use e" "e' \<in> set t" "in_use e'" for e'
    proof -
      from that(2) obtain j where "j < length t" "t ! j = e'" by (auto simp: in_set_conv_nth)
      then have "\<not> same_program e e'" using Cons.prems by fastforce
      with that show ?thesis by (simp add: same_program_def)
    qed
    ultimately show ?case by auto
  qed
  then show ?thesis using assms by (simp add: table_inv_def)
qed

lemma reg_entry_card:
  assumes "table_inv (g_table r)" and "g_inited r"
  shows "card (dom (reg_entry r)) = length (filter in_use (g_table r))"
proof -
  let ?l = "filter in_use (g_table r)"
  have inj: "inj_on client_fd (set ?l) \<and> distinct ?l"
    using distinct_fds [OF assms(1)] by (simp add: distinct_map)
  then show ?thesis
    by (simp only: reg_entry_dom [OF assms] card_image distinct_card)
qed

lemma reg_entry_bounded:
  assumes "reg_inv r"
  shows "finite (dom (reg_entry r)) \<and> card (dom (reg_entry r)) \<le> REGISTRY_MAX_SUBPROCS"
proof (cases "g_inited r")
  case True
  with assms have t: "table_inv (g_table r)" by (simp add: reg_inv_def)
  have "length (filter in_use (g_table r)) \<le> length (g_table r)" by (rule length_filter_le)
  also have "\<dots> = REGISTRY_MAX_SUBPROCS" using t by (simp add: table_inv_def)
  finally have "card (dom (reg_entry r)) \<le> REGISTRY_MAX_SUBPROCS"
    by (simp add: reg_entry_card [OF t True])
  then show ?thesis by (simp add: reg_entry_dom [OF t True])
next
  case False
  then show ?thesis by (simp add: reg_entry_uninit)
qed

text \<open>Refusal, in terms of the map.\<close>

definition refuse_spec :: "int \<Rightarrow> u8 list \<Rightarrow> (int \<rightharpoonup> subproc_meta \<times> u64) \<Rightarrow> bool" where
  "refuse_spec fd dev M \<longleftrightarrow>
     fd \<in> dom M \<or> (\<exists>v \<in> ran M. meta_device_id (fst v) = dev) \<or> card (dom M) = REGISTRY_MAX_SUBPROCS"

lemma reg_entry_ran:
  assumes "table_inv (g_table r)" and "g_inited r"
  shows "ran (reg_entry r) = entry_info ` set (filter in_use (g_table r))"
proof
  show "ran (reg_entry r) \<subseteq> entry_info ` set (filter in_use (g_table r))"
    by (auto simp: ran_def used_by_fd_def dest!: reg_entry_SomeD)
  show "entry_info ` set (filter in_use (g_table r)) \<subseteq> ran (reg_entry r)"
  proof
    fix v assume "v \<in> entry_info ` set (filter in_use (g_table r))"
    then obtain i where i: "i < length (g_table r)" "in_use (g_table r ! i)"
      and v: "v = entry_info (g_table r ! i)" by (auto simp: in_set_conv_nth)
    show "v \<in> ran (reg_entry r)" unfolding v by (rule ranI, rule reg_entry_at [OF assms i])
  qed
qed

lemma refused_iff:
  assumes "table_inv (g_table r)" and "g_inited r"
  shows "refused fd dev r = refuse_spec fd dev (reg_entry r)"
proof -
  have "(\<forall>e \<in> set (g_table r). in_use e) = (length (filter in_use (g_table r)) = length (g_table r))"
    using length_filter_less [of _ "g_table r" in_use] by (fastforce simp: filter_True)
  moreover have "length (g_table r) = REGISTRY_MAX_SUBPROCS"
    using assms(1) by (simp add: table_inv_def)
  ultimately have full: "(\<forall>e \<in> set (g_table r). in_use e) = (card (dom (reg_entry r)) = REGISTRY_MAX_SUBPROCS)"
    by (simp only: reg_entry_card [OF assms])
  have fd: "(fd \<in> dom (reg_entry r)) = (\<exists>e \<in> set (g_table r). in_use e \<and> client_fd e = fd)"
    unfolding reg_entry_dom [OF assms] by auto
  have dev: "(\<exists>v \<in> ran (reg_entry r). meta_device_id (fst v) = dev) =
      (\<exists>e \<in> set (g_table r). in_use e \<and> cstr (device_id e) = dev)"
    unfolding reg_entry_ran [OF assms] by (auto simp: entry_info_def entry_meta_def)
  show ?thesis unfolding refused_def refuse_spec_def full fd dev by blast
qed

lemma refused_init_iff:
  "reg_inv r \<Longrightarrow> refused fd dev (registry_init r) = refuse_spec fd dev (reg_entry r)"
  using refused_iff [OF registry_init_inv, of r fd dev] by simp

section \<open>What the operations do to the map\<close>

lemma register_entry:
  assumes inv: "reg_inv r"
  shows "\<exists>rc r'. registry_register P ts fd json (int (length json)) r = Some (rc, r') \<and> reg_inv r'
    \<and> (case register_meta P json of
         Some m \<Rightarrow>
           if refuse_spec fd (meta_device_id m) (reg_entry r) then rc = -1 \<and> reg_entry r' = reg_entry r
           else rc = 0 \<and> reg_entry r' = (reg_entry r)(fd \<mapsto> (m, registry_now_ms ts))
       | None \<Rightarrow> rc = -1 \<and> reg_entry r' = reg_entry r)"
  using inv
proof (cases rule: register_cases [of r P json fd ts])
  case (accepted m i e)
  let ?r = "registry_init r"
  let ?r' = "?r\<lparr>g_table := (g_table ?r)[i := e]\<rparr>"
  have inv': "reg_inv ?r'" by (rule reg_inv_register [OF inv accepted(3)])
  have free: "\<not> in_use (g_table ?r ! i)" and i: "i < length (g_table ?r)"
    using find_index_SomeD [OF accepted(4)] by simp_all
  have "reg_entry ?r' = (reg_entry ?r)(fd := (if in_use e then Some (entry_info e) else None))"
    by (rule reg_entry_update)
      (use registry_init_inv [OF inv] inv' i free accepted(6,7) in \<open>simp_all add: reg_inv_def\<close>)
  then have "reg_entry ?r' = (reg_entry r)(fd \<mapsto> (m, registry_now_ms ts))"
    using accepted(6,8,9) by (simp add: entry_info_def)
  moreover have "\<not> refuse_spec fd (meta_device_id m) (reg_entry r)"
    using accepted(2) by (simp add: refused_init_iff [OF inv])
  ultimately show ?thesis using accepted(1,3) inv' by simp
next
  case rejected
  then show ?thesis
    using reg_inv_init [OF inv] by (auto simp: refused_init_iff [OF inv])
qed

lemma unregister_entry:
  assumes inv: "reg_inv r"
  shows "fst (registry_unregister fd r) = (if fd \<in> dom (reg_entry r) then 0 else -1)"
    and "reg_entry (snd (registry_unregister fd r)) = (reg_entry r)(fd := None)"
proof -
  have "fst (registry_unregister fd r) = (if fd \<in> dom (reg_entry r) then 0 else -1)
    \<and> reg_entry (snd (registry_unregister fd r)) = (reg_entry r)(fd := None)"
  proof (cases "registry_find_by_fd fd r")
    case None
    then have "reg_entry r fd = None" by (simp add: reg_entry_def)
    with None show ?thesis
      by (auto simp: registry_unregister_def registry_find_by_fd_def split: if_splits)
  next
    case (Some i)
    then have g: "g_inited r" and f: "find_index (used_by_fd fd) (g_table r) = Some i"
      by (auto simp: registry_find_by_fd_def split: if_splits)
    let ?r' = "r\<lparr>g_table := (g_table r)[i := empty_slot]\<rparr>"
    have u: "registry_unregister fd r = (0, ?r')" by (simp add: registry_unregister_def g f)
    have "reg_entry ?r' =
        (reg_entry r)(fd := (if in_use empty_slot then Some (entry_info empty_slot) else None))"
      by (rule reg_entry_update)
        (use inv g find_index_SomeD(1,2) [OF f] reg_inv_unregister [OF inv, of fd] u
          in \<open>simp_all add: reg_inv_def used_by_fd_def\<close>)
    with u Some show ?thesis by (auto simp: reg_entry_def)
  qed
  then show "fst (registry_unregister fd r) = (if fd \<in> dom (reg_entry r) then 0 else -1)"
    and "reg_entry (snd (registry_unregister fd r)) = (reg_entry r)(fd := None)" by simp_all
qed

definition set_stamp :: "timespec \<Rightarrow> subproc_meta \<times> u64 \<Rightarrow> subproc_meta \<times> u64" where
  "set_stamp ts v = (fst v, registry_now_ms ts)"

lemma fst_set_stamp [simp]: "fst (set_stamp ts v) = fst v"
  by (simp add: set_stamp_def)

lemma fst_fold_set_stamp [simp]: "fst (fold set_stamp tss v) = fst v"
  by (induction tss arbitrary: v) simp_all

lemma heartbeat_entry:
  assumes inv: "reg_inv r"
  shows "fst (registry_update_heartbeat ts fd r) = (if fd \<in> dom (reg_entry r) then 0 else -1)"
    and "reg_entry (snd (registry_update_heartbeat ts fd r)) =
      (reg_entry r)(fd := map_option (set_stamp ts) (reg_entry r fd))"
proof -
  have "fst (registry_update_heartbeat ts fd r) = (if fd \<in> dom (reg_entry r) then 0 else -1)
    \<and> reg_entry (snd (registry_update_heartbeat ts fd r)) =
      (reg_entry r)(fd := map_option (set_stamp ts) (reg_entry r fd))"
  proof (cases "registry_find_by_fd fd r")
    case None
    then have "reg_entry r fd = None" by (simp add: reg_entry_def)
    with None show ?thesis
      by (auto simp: registry_update_heartbeat_def registry_find_by_fd_def split: if_splits)
  next
    case (Some i)
    then have g: "g_inited r" and f: "find_index (used_by_fd fd) (g_table r) = Some i"
      by (auto simp: registry_find_by_fd_def split: if_splits)
    let ?e = "(g_table r ! i)\<lparr>last_heartbeat_ms := registry_now_ms ts\<rparr>"
    let ?r' = "r\<lparr>g_table := (g_table r)[i := ?e]\<rparr>"
    have u: "registry_update_heartbeat ts fd r = (0, ?r')"
      by (simp add: registry_update_heartbeat_def g f)
    have "reg_entry ?r' = (reg_entry r)(fd := (if in_use ?e then Some (entry_info ?e) else None))"
      by (rule reg_entry_update)
        (use inv g find_index_SomeD(1,2) [OF f] reg_inv_heartbeat [OF inv, of ts fd] u
          in \<open>simp_all add: reg_inv_def used_by_fd_def\<close>)
    with u Some find_index_SomeD(2) [OF f] show ?thesis
      by (auto simp: reg_entry_def used_by_fd_def entry_info_def entry_meta_def set_stamp_def)
  qed
  then show "fst (registry_update_heartbeat ts fd r) = (if fd \<in> dom (reg_entry r) then 0 else -1)"
    and "reg_entry (snd (registry_update_heartbeat ts fd r)) =
      (reg_entry r)(fd := map_option (set_stamp ts) (reg_entry r fd))" by simp_all
qed

text \<open>The table provides the directory of child programs.\<close>

definition reg_join :: "int \<Rightarrow> json_parser \<times> u8 list \<Rightarrow> timespec \<Rightarrow> registry \<Rightarrow> registry" where
  "reg_join fd msg ts r =
     (case registry_register (fst msg) ts fd (snd msg) (int (length (snd msg))) r of
        None \<Rightarrow> r | Some (rc, r') \<Rightarrow> r')"

definition reg_leave :: "int \<Rightarrow> registry \<Rightarrow> registry" where
  "reg_leave fd r = snd (registry_unregister fd r)"

definition reg_touch :: "int \<Rightarrow> timespec \<Rightarrow> registry \<Rightarrow> registry" where
  "reg_touch fd ts r = snd (registry_update_heartbeat ts fd r)"

lemma reg_join_entry:
  assumes "reg_inv r"
  shows "reg_inv (reg_join fd msg ts r)"
    and "fd' \<noteq> fd \<Longrightarrow> reg_entry (reg_join fd msg ts r) fd' = reg_entry r fd'"
    and "reg_entry r fd = Some m \<Longrightarrow> reg_entry (reg_join fd msg ts r) fd = Some m"
  using register_entry [OF assms, of "fst msg" ts fd "snd msg"]
  by (auto simp: reg_join_def refuse_spec_def split: option.splits if_splits)

interpretation reg_dir: directory reg_inv reg_entry set_stamp reg_join reg_leave reg_touch
  REGISTRY_MAX_SUBPROCS
  by unfold_locales
    (auto simp: reg_join_entry reg_leave_def reg_touch_def reg_inv_unregister reg_inv_heartbeat
      unregister_entry heartbeat_entry reg_entry_bounded)

section \<open>Calls of the API\<close>

text \<open>
  The program's threads call the table's functions in any order; the mutex makes each call
  one step.
\<close>

datatype reg_call =
    Call_init
  | Call_register timespec int "u8 list"
  | Call_unregister int
  | Call_heartbeat timespec int
  | Call_close

fun reg_step :: "json_parser \<Rightarrow> reg_call \<Rightarrow> registry \<Rightarrow> (int \<times> registry) option" where
  "reg_step P Call_init r = Some (0, registry_init r)"
| "reg_step P (Call_register ts fd json) r = registry_register P ts fd json (int (length json)) r"
| "reg_step P (Call_unregister fd) r = Some (registry_unregister fd r)"
| "reg_step P (Call_heartbeat ts fd) r = Some (registry_update_heartbeat ts fd r)"
| "reg_step P Call_close r = Some (0, registry_close r)"

inductive reg_reachable :: "json_parser \<Rightarrow> registry \<Rightarrow> bool" for P where
  start: "reg_reachable P registry_static"
| call: "reg_reachable P r \<Longrightarrow> reg_step P c r = Some (rc, r') \<Longrightarrow> reg_reachable P r'"

lemma reg_inv_static: "reg_inv registry_static"
  by (auto simp: reg_inv_def registry_static_def table_inv_def same_program_def)
    (auto simp: zero_entry_def)

lemma reg_step_inv:
  assumes "reg_inv r"
  shows "\<exists>rc r'. reg_step P c r = Some (rc, r') \<and> reg_inv r'"
proof (cases c)
  case (Call_register ts fd json)
  with register_entry [OF assms, of P ts fd json] show ?thesis by auto
next
  case (Call_unregister fd)
  with reg_inv_unregister [OF assms, of fd] show ?thesis
    by (cases "registry_unregister fd r") simp
next
  case (Call_heartbeat ts fd)
  with reg_inv_heartbeat [OF assms, of ts fd] show ?thesis
    by (cases "registry_update_heartbeat ts fd r") simp
qed (use assms in \<open>simp_all add: reg_inv_init registry_close_def\<close>)

lemma reg_reachable_inv: "reg_reachable P r \<Longrightarrow> reg_inv r"
proof (induction rule: reg_reachable.induct)
  case start
  then show ?case by (rule reg_inv_static)
next
  case (call r c rc r')
  with reg_step_inv [of r P c] show ?case by auto
qed

section \<open>Properties\<close>

text \<open>
  C3. In every state the API calls can reach, and whatever JSON they were given: the next
  call reads and writes only inside its buffers, the table has its 32 slots, no two used
  slots share a connection or a device id, and the strings of every slot end inside their
  arrays.
\<close>

theorem registry_safe:
  assumes "reg_reachable P r"
  shows "(\<forall>c. \<exists>rc r'. reg_step P c r = Some (rc, r') \<and> reg_reachable P r')
    \<and> length (g_table r) = 32
    \<and> (\<forall>i < 32. \<forall>j < 32. i \<noteq> j \<and> in_use (g_table r ! i) \<and> in_use (g_table r ! j) \<longrightarrow>
        client_fd (g_table r ! i) \<noteq> client_fd (g_table r ! j)
        \<and> \<not> strcmp_eq (device_id (g_table r ! i)) (device_id (g_table r ! j)))
    \<and> (\<forall>e \<in> set (g_table r). nul_terminated (device_id e) \<and> nul_terminated (model e)
        \<and> nul_terminated (fw_version e) \<and> nul_terminated (build_date e) \<and> port_count e \<le> 8
        \<and> (\<forall>b \<in> set (port_names e). nul_terminated b))"
proof -
  have inv: "reg_inv r" by (rule reg_reachable_inv [OF assms])
  have total: "\<forall>c. \<exists>rc r'. reg_step P c r = Some (rc, r') \<and> reg_reachable P r'"
    using reg_step_inv [OF inv, of P] assms by (blast intro: reg_reachable.call)
  have len: "length (g_table r) = 32"
    using inv by (simp add: reg_inv_def table_inv_def registry_consts)
  have unique: "client_fd (g_table r ! i) \<noteq> client_fd (g_table r ! j)
      \<and> \<not> strcmp_eq (device_id (g_table r ! i)) (device_id (g_table r ! j))"
    if "i < 32" "j < 32" "i \<noteq> j \<and> in_use (g_table r ! i) \<and> in_use (g_table r ! j)" for i j
    using table_inv_same [of "g_table r" i j] inv that len
    by (auto simp: reg_inv_def same_program_def)
  have wf: "entry_wf e" if "e \<in> set (g_table r)" for e
    using inv that by (simp add: reg_inv_def table_inv_def)
  show ?thesis
    using total len unique wf by (auto simp: entry_wf_def buf_ok_def registry_consts)
qed

text \<open>
  A concrete parser and message for the examples: the text is not looked at.
\<close>

definition demo_parser :: json_parser where
  "demo_parser txt = Some (CJObject [
     (bytes ''device_id'', CJString (bytes ''dev-1'')), (bytes ''model'', CJString (bytes ''m'')),
     (bytes ''fw_version'', CJString (bytes ''1.0'')), (bytes ''build_date'', CJString (bytes ''today'')),
     (bytes ''ports'', CJArray [CJObject [(bytes ''name'', CJString (bytes ''p1''))], CJNull])])"

theorem registry_safe_witness:
  "length (g_table registry_static) = 32"
  using registry_safe [OF reg_reachable.start [of demo_parser]] by blast

text \<open>
  C12. Registration as an operation on the map from connections to metadata: the call never
  leaves its buffers; a message that is not understood, a connection or device id that is
  already there, and a map with 32 entries are refused with -1 and nothing changes; otherwise
  the call returns 0 and the map gets exactly one new entry, the metadata of the message
  (strings cut to their fields, at most eight ports) and the time of the call.
\<close>

theorem registry_register_refines:
  assumes "reg_inv r"
  shows "\<exists>rc r'. registry_register P ts fd json (int (length json)) r = Some (rc, r') \<and> reg_inv r'
    \<and> (case register_meta P json of
         Some m \<Rightarrow>
           if refuse_spec fd (meta_device_id m) (reg_entry r) then rc = -1 \<and> reg_entry r' = reg_entry r
           else rc = 0 \<and> reg_entry r' = (reg_entry r)(fd \<mapsto> (m, registry_now_ms ts))
       | None \<Rightarrow> rc = -1 \<and> reg_entry r' = reg_entry r)"
  using assms by (rule register_entry)

definition demo_json :: "u8 list" where
  "demo_json = bytes ''{}''"

definition demo_meta :: subproc_meta where
  "demo_meta = \<lparr>meta_device_id = bytes ''dev-1'', meta_model = bytes ''m'',
     meta_fw_version = bytes ''1.0'', meta_build_date = bytes ''today'', meta_ports = [bytes ''p1'']\<rparr>"

lemma demo_register_meta: "register_meta demo_parser demo_json = Some demo_meta"
  by code_simp

lemma length_demo_json: "length demo_json = 2"
  by code_simp

theorem registry_register_refines_witness:
  "\<exists>r'. registry_register demo_parser \<lparr>tv_sec = 5, tv_nsec = 7000000\<rparr> 4 demo_json 2 registry_static
      = Some (0, r') \<and> reg_entry r' = [4 \<mapsto> (demo_meta, 5007)]"
proof -
  have e: "reg_entry registry_static = Map.empty"
    by (simp add: reg_entry_uninit registry_static_def)
  have t: "registry_now_ms \<lparr>tv_sec = 5, tv_nsec = 7000000\<rparr> = 5007"
    by (simp add: registry_now_ms_def)
  show ?thesis
    using registry_register_refines
      [OF reg_inv_static, of demo_parser "\<lparr>tv_sec = 5, tv_nsec = 7000000\<rparr>" 4 "demo_json"]
    by (auto simp: demo_register_meta refuse_spec_def e t registry_consts length_demo_json)
qed

text \<open>
  C22. A registered connection stays registered with its metadata through any sequence of
  registrations, unregistrations and heartbeats, its own second registration included, until
  it is itself unregistered; only the time of its last heartbeat may move.
\<close>

theorem registry_entry_stays:
  assumes "reg_inv r" and "reg_entry r fd = Some (m, t)" and "Leave fd \<notin> set ops"
  shows "\<exists>t'. reg_entry (run_dir reg_join reg_leave reg_touch ops r) fd = Some (m, t')"
  using reg_dir.run_stays [OF assms] by (metis fst_conv fst_fold_set_stamp prod.collapse)

definition demo_reg :: registry where
  "demo_reg = reg_join 4 (demo_parser, demo_json) \<lparr>tv_sec = 5, tv_nsec = 0\<rparr> registry_static"

lemma demo_reg_entry: "reg_entry demo_reg = [4 \<mapsto> (demo_meta, 5000)]"
  and demo_reg_inv: "reg_inv demo_reg"
proof -
  have e: "reg_entry registry_static = Map.empty"
    by (simp add: reg_entry_uninit registry_static_def)
  have t: "registry_now_ms \<lparr>tv_sec = 5, tv_nsec = 0\<rparr> = 5000"
    by (simp add: registry_now_ms_def)
  show "reg_entry demo_reg = [4 \<mapsto> (demo_meta, 5000)]" and "reg_inv demo_reg"
    using register_entry
      [OF reg_inv_static, of demo_parser "\<lparr>tv_sec = 5, tv_nsec = 0\<rparr>" 4 "demo_json"]
    by (auto simp: demo_reg_def reg_join_def demo_register_meta refuse_spec_def e t registry_consts)
qed

theorem registry_entry_stays_witness:
  "\<exists>t'. reg_entry (run_dir reg_join reg_leave reg_touch
     [Leave 5, Touch 4 \<lparr>tv_sec = 9, tv_nsec = 0\<rparr>, Join 4 (demo_parser, []) \<lparr>tv_sec = 9, tv_nsec = 0\<rparr>]
     demo_reg) 4 = Some (demo_meta, t')"
  using registry_entry_stays [OF demo_reg_inv, of 4 demo_meta 5000
    "[Leave 5, Touch 4 \<lparr>tv_sec = 9, tv_nsec = 0\<rparr>, Join 4 (demo_parser, []) \<lparr>tv_sec = 9, tv_nsec = 0\<rparr>]"]
  by (simp add: demo_reg_entry)

text \<open>
  Unregistering and heartbeats, on every branch: both return 0 exactly for a registered
  connection; unregistering removes its entry and no other, a heartbeat moves its time stamp
  to the time of the call and changes nothing else.
\<close>

theorem registry_unregister_heartbeat:
  assumes "reg_inv r"
  shows "fst (registry_unregister fd r) = (if reg_entry r fd = None then -1 else 0)
    \<and> reg_entry (snd (registry_unregister fd r)) = (reg_entry r)(fd := None)
    \<and> fst (registry_update_heartbeat ts fd r) = (if reg_entry r fd = None then -1 else 0)
    \<and> reg_entry (snd (registry_update_heartbeat ts fd r)) =
        (reg_entry r)(fd := map_option (\<lambda>(m, t). (m, registry_now_ms ts)) (reg_entry r fd))"
  using unregister_entry [OF assms, of fd] heartbeat_entry [OF assms, of ts fd]
  by (auto simp: set_stamp_def case_prod_beta dom_def)

theorem registry_unregister_heartbeat_witness:
  "fst (registry_unregister 4 demo_reg) = 0 \<and> fst (registry_unregister 5 demo_reg) = -1"
  using registry_unregister_heartbeat [OF demo_reg_inv, of 4 undefined]
    registry_unregister_heartbeat [OF demo_reg_inv, of 5 undefined]
  by (simp add: demo_reg_entry)

text \<open>
  The three ways to look into the table agree: \<open>registry_iterate\<close> visits exactly one entry
  per registered connection, \<open>registry_find_by_fd\<close> gives the slot of that connection and NULL
  for no other reason than that it is not registered, and \<open>registry_find_by_device_id\<close> gives
  the slot of the one connection that has this id.
\<close>

theorem registry_lookups_agree:
  assumes "reg_inv r" and "g_inited r"
  shows "set (map client_fd (registry_iterate (\<lambda>e es. es @ [e]) r [])) = dom (reg_entry r)
    \<and> length (registry_iterate (\<lambda>e es. es @ [e]) r []) = card (dom (reg_entry r))
    \<and> (registry_find_by_fd fd r = None) = (reg_entry r fd = None)
    \<and> (\<forall>i. registry_find_by_device_id (Some d) r = Some i \<longrightarrow>
         registry_find_by_fd (client_fd (g_table r ! i)) r = Some i
         \<and> cstr (device_id (g_table r ! i)) = cstr d)
    \<and> ((registry_find_by_device_id (Some d) r = None) =
         (\<forall>v \<in> ran (reg_entry r). meta_device_id (fst v) \<noteq> cstr d))"
proof -
  have t: "table_inv (g_table r)" using assms(1) by (simp add: reg_inv_def)
  have it: "registry_iterate (\<lambda>e es. es @ [e]) r [] = filter in_use (g_table r)"
  proof -
    have "fold (\<lambda>e es. es @ [e]) xs ys = ys @ xs" for xs ys :: "subproc_entry list"
      by (induction xs arbitrary: ys) auto
    then show ?thesis using assms(2) by (simp add: registry_iterate_def)
  qed
  have visited: "set (map client_fd (filter in_use (g_table r))) = dom (reg_entry r)"
    by (simp only: set_map reg_entry_dom [OF t assms(2)])
  have by_id: "registry_find_by_fd (client_fd (g_table r ! i)) r = Some i
      \<and> cstr (device_id (g_table r ! i)) = cstr d"
    if "registry_find_by_device_id (Some d) r = Some i" for i
  proof -
    from that assms(2) have f: "find_index (used_by_id d) (g_table r) = Some i"
      by (simp add: registry_find_by_device_id_def)
    from find_index_SomeD(1,2) [OF f] table_inv_find [OF t, of i] assms(2) show ?thesis
      by (simp add: used_by_id_def strcmp_eq_def registry_find_by_fd_def)
  qed
  have no_id: "(registry_find_by_device_id (Some d) r = None) =
      (\<forall>v \<in> ran (reg_entry r). meta_device_id (fst v) \<noteq> cstr d)"
    using assms(2)
    by (auto simp: registry_find_by_device_id_def find_index_None reg_entry_ran [OF t assms(2)]
        used_by_id_def strcmp_eq_def entry_info_def entry_meta_def)
  have by_fd: "(registry_find_by_fd fd r = None) = (reg_entry r fd = None)"
    by (simp add: reg_entry_def)
  show ?thesis
    using visited by_id no_id by_fd reg_entry_card [OF t assms(2)] unfolding it by auto
qed

theorem registry_lookups_agree_witness:
  "registry_find_by_fd 4 demo_reg \<noteq> None \<and> registry_find_by_fd 5 demo_reg = None"
proof -
  have g: "g_inited demo_reg"
    using demo_reg_entry by (cases "g_inited demo_reg") (auto simp: reg_entry_uninit dest: fun_cong [of _ _ 4])
  show ?thesis
    using registry_lookups_agree [OF demo_reg_inv g, of 4] registry_lookups_agree [OF demo_reg_inv g, of 5]
    by (simp add: demo_reg_entry)
qed

text \<open>
  C23. Parsing a REGISTER message, against the specification \<open>register_meta\<close>: whatever the
  JSON tree, the copies stay inside the arrays of the entry, which ends up well formed; the
  function returns 0 and the entry reads as the specified metadata, or -1 when the message
  has no such metadata (empty or longer than 4096 bytes, no JSON, a required member missing
  or not a string).
\<close>

theorem registry_parse_message:
  "\<exists>rc e. parse_register_json P json (int (length json)) zero_entry = Some (rc, e) \<and> entry_wf e
     \<and> (case register_meta P json of None \<Rightarrow> rc = -1 | Some m \<Rightarrow> rc = 0 \<and> entry_meta e = m)"
  by (rule parse_register_json_spec)

end
