(* ===== verification/Dispatcher.thy ===== *)
theory Dispatcher
  imports Protocol Registry
begin

text \<open>
  Dispatching one frame: \<^verbatim>\<open>routerd/include/proto_dispatcher.h\<close> and
  \<^verbatim>\<open>routerd/src/proto_dispatcher.c\<close>. The results of the calls of \<open>send\<close> are an input, the
  list of what the operating system answers one after the other; the bytes that reach the
  socket are an output. \<open>None\<close> from the send loop means that it has not returned when the
  answers are used up.
\<close>

section \<open>Operations\<close>

datatype send_result = Wrote nat | Send_EAGAIN | Send_EINTR | Send_error

definition MAX_RETRIES :: nat where "MAX_RETRIES = 8"

definition build_register_ack_payload :: "bool \<Rightarrow> cbuf \<Rightarrow> nat \<Rightarrow> int \<times> cbuf" where
  "build_register_ack_payload ok buf cap =
     (let t = bytes ''{\"ok\":'' @ bytes (if ok then ''true'' else ''false'') @ bytes ''}'';
          n = length t; buf = snprintf_into buf cap t
      in if cap \<le> n then (-1, buf) else (int n, buf))"

text \<open>
  \<open>send\<close> reports at most the bytes it was asked to write. The loop gives its return value, the
  bytes written so far and the answers left.
\<close>

fun send_nonblock_retry ::
    "u8 list \<Rightarrow> nat \<Rightarrow> nat \<Rightarrow> send_result list \<Rightarrow> (int \<times> nat \<times> send_result list) option" where
  "send_nonblock_retry buf sent retries [] =
     (if sent < length buf then None else Some (int sent, sent, []))"
| "send_nonblock_retry buf sent retries (w # ws) =
     (if sent < length buf then
        case w of
          Wrote n \<Rightarrow>
            if 0 < n then send_nonblock_retry buf (sent + min n (length buf - sent)) retries ws
            else Some (-1, sent, ws)
        | Send_EAGAIN \<Rightarrow>
            if MAX_RETRIES < retries + 1 then Some (-1, sent, ws)
            else send_nonblock_retry buf sent (retries + 1) ws
        | Send_EINTR \<Rightarrow> send_nonblock_retry buf sent retries ws
        | Send_error \<Rightarrow> Some (-1, sent, ws)
      else Some (int sent, sent, w # ws))"

text \<open>The value returned, the bytes that reached the socket, the answers left.\<close>

definition send_register_ack ::
    "u32 \<Rightarrow> bool \<Rightarrow> send_result list \<Rightarrow> (int \<times> u8 list \<times> send_result list) option" where
  "send_register_ack req_seq ok ws =
     (case build_register_ack_payload ok (replicate 32 0) 32 of
        (pl_len, pl) \<Rightarrow>
          if pl_len < 0 then Some (-1, [], ws)
          else
            let hdr = \<lparr>magic = 0, version = 0, cmd = cmd_code PROTO_REGISTER_ACK, seq = req_seq,
                       payload_len = word_of_int pl_len\<rparr>;
                cap = PROTO_HDR_SIZE + 32
            in do {
              enc \<leftarrow> proto_encode hdr pl (replicate cap 0) (word_of_nat cap);
              case enc of
                Inl e \<Rightarrow> Some (-1, [], ws)
              | Inr (n, frame) \<Rightarrow> do {
                  (rc, sent, ws) \<leftarrow> send_nonblock_retry (take (nat n) frame) 0 0 ws;
                  Some (if rc < 0 then -1 else 0, take sent (take (nat n) frame), ws) } })"

record dispatch_result =
  d_rc :: int
  d_registry :: registry
  d_sent :: "u8 list"
  d_answers :: "send_result list"

definition proto_dispatch ::
    "json_parser \<Rightarrow> timespec \<Rightarrow> int \<Rightarrow> proto_frame_hdr \<Rightarrow> u8 list \<Rightarrow> registry \<Rightarrow> send_result list \<Rightarrow>
       dispatch_result option" where
  "proto_dispatch P ts fd hdr payload r ws =
     (if cmd hdr = cmd_code PROTO_REGISTER then do {
        (rc, r') \<leftarrow> registry_register P ts fd payload (sint (payload_len hdr)) r;
        (ack, out, ws') \<leftarrow> send_register_ack (seq hdr) (rc = 0) ws;
        Some \<lparr>d_rc = 0, d_registry = r', d_sent = out, d_answers = ws'\<rparr> }
      else if cmd hdr = cmd_code PROTO_HEARTBEAT then
        Some \<lparr>d_rc = 0, d_registry = snd (registry_update_heartbeat ts fd r), d_sent = [], d_answers = ws\<rparr>
      else if cmd hdr \<in> {cmd_code PROTO_DATA, cmd_code PROTO_CMD, cmd_code PROTO_LOG} then
        Some \<lparr>d_rc = 0, d_registry = r, d_sent = [], d_answers = ws\<rparr>
      else if cmd hdr \<in> {cmd_code PROTO_FW_BEGIN, cmd_code PROTO_FW_CHUNK, cmd_code PROTO_FW_END,
          cmd_code PROTO_FW_QUERY} then
        Some \<lparr>d_rc = 0, d_registry = r, d_sent = [], d_answers = ws\<rparr>
      else if cmd hdr = cmd_code PROTO_REGISTER_ACK then
        Some \<lparr>d_rc = 0, d_registry = r, d_sent = [], d_answers = ws\<rparr>
      else Some \<lparr>d_rc = 0, d_registry = r, d_sent = [], d_answers = ws\<rparr>)"

section \<open>The send loop\<close>

lemma send_result_cases:
  "send_nonblock_retry buf sent retries ws = Some (rc, n, ws') \<Longrightarrow> sent \<le> length buf \<Longrightarrow>
     sent \<le> n \<and> n \<le> length buf \<and> (rc = int (length buf) \<and> n = length buf \<or> rc = -1 \<and> n < length buf)"
proof (induction buf sent retries ws rule: send_nonblock_retry.induct)
  case (1 buf sent retries)
  then show ?case by (auto split: if_splits)
next
  case (2 buf sent retries w ws)
  show ?case
  proof (cases "sent < length buf")
    case True
    with 2 show ?thesis
      by (cases w) (fastforce split: if_splits)+
  next
    case False
    with 2 show ?thesis by auto
  qed
qed

text \<open>Every answer but \<open>EINTR\<close> uses up a byte or a retry.\<close>

lemma send_returns:
  "length buf + Suc MAX_RETRIES \<le> sent + retries + length (filter (\<lambda>w. w \<noteq> Send_EINTR) ws) \<Longrightarrow>
     retries \<le> MAX_RETRIES \<Longrightarrow> sent \<le> length buf \<Longrightarrow>
     send_nonblock_retry buf sent retries ws \<noteq> None"
proof (induction buf sent retries ws rule: send_nonblock_retry.induct)
  case (1 buf sent retries)
  then show ?case by auto
next
  case (2 buf sent retries w ws)
  show ?case
  proof (cases "sent < length buf")
    case True
    show ?thesis
    proof (cases w)
      case (Wrote n)
      then show ?thesis using 2 True by (cases "0 < n") auto
    next
      case Send_EAGAIN
      then show ?thesis using 2 True by (cases "MAX_RETRIES < retries + 1") auto
    qed (use 2 True in auto)
  qed simp
qed

text \<open>
  When the peer takes \<open>k\<close> bytes: some first answers contain no error and no empty write, at most
  eight of them are \<open>EAGAIN\<close>, any number are \<open>EINTR\<close>, and the rest report at least \<open>k\<close> bytes.
\<close>

fun wrote :: "send_result \<Rightarrow> nat" where
  "wrote (Wrote n) = n"
| "wrote _ = 0"

definition takes_all :: "nat \<Rightarrow> send_result list \<Rightarrow> bool" where
  "takes_all k ws \<longleftrightarrow> (\<exists>us vs. ws = us @ vs \<and> Send_error \<notin> set us \<and> Wrote 0 \<notin> set us
     \<and> length (filter (\<lambda>w. w = Send_EAGAIN) us) \<le> MAX_RETRIES \<and> k \<le> sum_list (map wrote us))"

lemma send_complete:
  "Send_error \<notin> set us \<Longrightarrow> Wrote 0 \<notin> set us \<Longrightarrow>
    retries + length (filter (\<lambda>w. w = Send_EAGAIN) us) \<le> MAX_RETRIES \<Longrightarrow> sent \<le> length buf \<Longrightarrow>
    length buf \<le> sent + sum_list (map wrote us) \<Longrightarrow>
    \<exists>ws'. send_nonblock_retry buf sent retries (us @ vs) = Some (int (length buf), length buf, ws')"
proof (induction us arbitrary: sent retries)
  case Nil
  then show ?case by (cases vs) auto
next
  case (Cons u us)
  show ?case
  proof (cases "sent < length buf")
    case False
    with Cons.prems(4) show ?thesis by simp
  next
    case True
    show ?thesis
    proof (cases u)
      case (Wrote n)
      with Cons.prems Cons.IH [of retries "sent + min n (length buf - sent)"] True show ?thesis
        by (cases "n = 0") (auto simp: min_def)
    next
      case Send_EAGAIN
      with Cons.prems Cons.IH [of "retries + 1" sent] True show ?thesis by auto
    next
      case Send_EINTR
      with Cons.prems Cons.IH [of retries sent] True show ?thesis by auto
    next
      case Send_error
      with Cons.prems show ?thesis by simp
    qed
  qed
qed

lemma send_completed:
  "send_nonblock_retry buf sent retries ws = Some (rc, length buf, ws') \<Longrightarrow> retries \<le> MAX_RETRIES \<Longrightarrow>
    sent \<le> length buf \<Longrightarrow>
    \<exists>us vs. ws = us @ vs \<and> Send_error \<notin> set us \<and> Wrote 0 \<notin> set us
      \<and> retries + length (filter (\<lambda>w. w = Send_EAGAIN) us) \<le> MAX_RETRIES
      \<and> length buf \<le> sent + sum_list (map wrote us)"
proof (induction buf sent retries ws rule: send_nonblock_retry.induct)
  case (1 buf sent retries)
  then show ?case by (auto split: if_splits)
next
  case (2 buf sent retries w ws)
  show ?case
  proof (cases "sent < length buf")
    case False
    with 2 show ?thesis by (intro exI [of _ "[]"] exI [of _ "w # ws"]) simp
  next
    case True
    note run = 2(4) and bounds = 2(5,6)
    let ?ok = "\<lambda>us r s. Send_error \<notin> set us \<and> Wrote 0 \<notin> set us
      \<and> r + length (filter (\<lambda>w. w = Send_EAGAIN) us) \<le> MAX_RETRIES \<and> length buf \<le> s + sum_list (map wrote us)"
    have "w \<noteq> Send_error \<and> w \<noteq> Wrote 0 \<and> (\<exists>us vs s'. ws = us @ vs
        \<and> ?ok us (retries + (if w = Send_EAGAIN then 1 else 0)) s' \<and> s' \<le> sent + wrote w)"
    proof (cases w)
      case (Wrote n)
      with run True have n: "0 < n"
        "send_nonblock_retry buf (sent + min n (length buf - sent)) retries ws = Some (rc, length buf, ws')"
        by (simp_all split: if_splits)
      have "sent + min n (length buf - sent) \<le> length buf" using True by simp
      from 2(1) [OF True Wrote n bounds(1) this] obtain us vs where
        "ws = us @ vs \<and> ?ok us retries (sent + min n (length buf - sent))" by blast
      with n(1) Wrote show ?thesis
        by (intro conjI exI [of _ us] exI [of _ vs] exI [of _ "sent + min n (length buf - sent)"]) simp_all
    next
      case Send_EAGAIN
      with run True have n: "\<not> MAX_RETRIES < retries + 1"
        "send_nonblock_retry buf sent (retries + 1) ws = Some (rc, length buf, ws')"
        by (simp_all split: if_splits)
      have "retries + 1 \<le> MAX_RETRIES" using n(1) by simp
      from 2(2) [OF True Send_EAGAIN n this bounds(2)] obtain us vs where
        "ws = us @ vs \<and> ?ok us (retries + 1) sent" by blast
      with Send_EAGAIN show ?thesis
        by (intro conjI exI [of _ us] exI [of _ vs] exI [of _ sent]) simp_all
    next
      case Send_EINTR
      with run True have "send_nonblock_retry buf sent retries ws = Some (rc, length buf, ws')" by simp
      from 2(3) [OF True Send_EINTR this bounds] obtain us vs where "ws = us @ vs \<and> ?ok us retries sent" by blast
      with Send_EINTR show ?thesis
        by (intro conjI exI [of _ us] exI [of _ vs] exI [of _ sent]) simp_all
    next
      case Send_error
      with run True show ?thesis by simp
    qed
    then obtain us vs s' where u: "ws = us @ vs" "?ok us (retries + (if w = Send_EAGAIN then 1 else 0)) s'"
      "w \<noteq> Send_error" "w \<noteq> Wrote 0" "s' \<le> sent + wrote w" by blast
    then show ?thesis by (intro exI [of _ "w # us"] exI [of _ vs]) (auto split: if_splits)
  qed
qed

lemma send_all_iff:
  assumes "send_nonblock_retry buf 0 0 ws = Some (rc, n, ws')"
  shows "n = length buf \<longleftrightarrow> takes_all (length buf) ws"
proof
  assume "n = length buf"
  with send_completed [of buf 0 0 ws rc ws'] assms show "takes_all (length buf) ws"
    by (auto simp: takes_all_def)
next
  assume "takes_all (length buf) ws"
  then obtain us vs where "ws = us @ vs" "Send_error \<notin> set us" "Wrote 0 \<notin> set us"
    "length (filter (\<lambda>w. w = Send_EAGAIN) us) \<le> MAX_RETRIES" "length buf \<le> sum_list (map wrote us)"
    by (auto simp: takes_all_def)
  with send_complete [of us 0 0 buf vs] assms show "n = length buf" by auto
qed

lemma send_all_returns:
  assumes "takes_all (length buf) ws"
  shows "\<exists>ws'. send_nonblock_retry buf 0 0 ws = Some (int (length buf), length buf, ws')"
  using assms send_complete [of _ 0 0 buf] by (fastforce simp: takes_all_def)

section \<open>The acknowledgement\<close>

definition ack_text :: "bool \<Rightarrow> u8 list" where
  "ack_text ok = bytes (if ok then ''{\"ok\":true}'' else ''{\"ok\":false}'')"

definition ack_hdr :: "u32 \<Rightarrow> bool \<Rightarrow> proto_frame_hdr" where
  "ack_hdr s ok = \<lparr>magic = PROTO_MAGIC, version = PROTO_VERSION, cmd = cmd_code PROTO_REGISTER_ACK,
     seq = s, payload_len = (if ok then 11 else 12)\<rparr>"

definition ack_frame :: "u32 \<Rightarrow> bool \<Rightarrow> u8 list" where
  "ack_frame s ok = frame_bytes (ack_hdr s ok) (ack_text ok)"

lemma ack_text_length: "length (ack_text ok) = unat (payload_len (ack_hdr s ok))"
  by (simp add: ack_text_def ack_hdr_def bytes_def)

lemma length_ack_frame: "length (ack_frame s ok) = (if ok then 23 else 24)"
  using frame_bytes_length [of "ack_hdr s ok" "ack_text ok"] ack_text_length [of ok s]
  by (simp add: ack_frame_def total_len_def ack_hdr_def PROTO_HDR_SIZE_def)

lemma ack_frame_decodes: "decode_bytes (ack_frame s ok @ rest) = Inr (ack_hdr s ok, ack_text ok)"
proof -
  have "unat (payload_len (ack_hdr s ok)) \<le> 65536" by (simp add: ack_hdr_def)
  from decode_frame_bytes [OF this, of "ack_text ok" rest] show ?thesis
    using ack_text_length [of ok s]
    by (simp add: ack_frame_def wire_hdr_id ack_hdr_def)
qed

lemma ack_payload_cases:
  "build_register_ack_payload True (replicate 32 0) 32 = (int (length (ack_text True)), ack_text True @ replicate (32 - length (ack_text True)) 0)"
  "build_register_ack_payload False (replicate 32 0) 32 = (int (length (ack_text False)), ack_text False @ replicate (32 - length (ack_text False)) 0)"
  by code_simp+

lemma ack_payload:
  "build_register_ack_payload ok (replicate 32 0) 32 = (int (length (ack_text ok)), ack_text ok @ replicate (32 - length (ack_text ok)) 0)"
  by (induction ok) (rule ack_payload_cases)+

lemma send_register_ack_eq:
  "send_register_ack s ok ws = map_option (\<lambda>(rc, n, ws'). (if rc < 0 then -1 else 0, take n (ack_frame s ok), ws'))
     (send_nonblock_retry (ack_frame s ok) 0 0 ws)"
proof -
  let ?pl = "ack_text ok @ replicate (32 - length (ack_text ok)) 0"
  let ?hdr = "\<lparr>magic = 0, version = 0, cmd = cmd_code PROTO_REGISTER_ACK, seq = s,
    payload_len = word_of_int (int (length (ack_text ok)))\<rparr>"
  have t: "length (ack_text ok) = (if ok then 11 else 12)" by (simp add: ack_text_def bytes_def)
  then have w: "wire_hdr ?hdr = ack_hdr s ok" and plen: "unat (payload_len ?hdr) = length (ack_text ok)"
    by (simp_all add: wire_hdr_def ack_hdr_def)
  have f: "frame_bytes ?hdr ?pl = ack_frame s ok"
    by (simp add: frame_bytes_def ack_frame_def w plen ack_text_length [of ok s, symmetric]
        wire_hdr_id ack_hdr_def t) (simp add: ack_hdr_def wire_hdr_def t)
  have cap: "unat (word_of_nat 44 :: u64) = 44" by simp
  have "proto_encode ?hdr ?pl (replicate 44 0) (word_of_nat 44) =
      Some (Inr (int (length (ack_frame s ok)), ack_frame s ok @ drop (length (ack_frame s ok)) (replicate 44 0)))"
    using proto_encode_eq [of "word_of_nat 44" "replicate 44 0" ?hdr ?pl]
    unfolding f plen cap
    by (simp add: t total_len_def plen length_ack_frame PROTO_HDR_SIZE_def)
  moreover have "take (min n (length (ack_frame s ok))) (ack_frame s ok) = take n (ack_frame s ok)" for n
    by (simp add: min_def)
  ultimately show ?thesis
    by (cases "send_nonblock_retry (ack_frame s ok) 0 0 ws")
       (auto simp: send_register_ack_def ack_payload PROTO_HDR_SIZE_def t)
qed

section \<open>Dispatching\<close>

text \<open>A frame as the decoder hands it over: the length field is that of the payload.\<close>

definition frame_ok :: "proto_frame_hdr \<Rightarrow> u8 list \<Rightarrow> bool" where
  "frame_ok hdr payload \<longleftrightarrow> length payload = unat (payload_len hdr) \<and> unat (payload_len hdr) \<le> 65536"

lemma payload_len_int: "unat (w :: u32) \<le> 65536 \<Longrightarrow> sint w = int (unat w)"
proof -
  assume w: "unat w \<le> 65536"
  have n: "uint w = int (unat w)" by simp
  with w have u: "uint w \<le> 65536" by linarith
  have "- 2147483648 \<le> uint w" by (rule order_trans [of _ 0]) simp_all
  with u have "sint w = uint w"
    by (simp add: sint_uint signed_take_bit_int_eq_self_iff)
  with n show ?thesis by simp
qed

text \<open>What a frame does to the registry.\<close>

definition dispatch_registry ::
    "json_parser \<Rightarrow> timespec \<Rightarrow> int \<Rightarrow> proto_frame_hdr \<Rightarrow> u8 list \<Rightarrow> registry \<Rightarrow> registry" where
  "dispatch_registry P ts fd hdr payload r =
     (if cmd hdr = 0x01 then reg_join fd (P, payload) ts r
      else if cmd hdr = 0x03 then reg_touch fd ts r
      else r)"

lemma dispatch_other:
  assumes "cmd hdr \<noteq> 0x01"
  shows "proto_dispatch P ts fd hdr payload r ws =
    Some \<lparr>d_rc = 0, d_registry = dispatch_registry P ts fd hdr payload r, d_sent = [], d_answers = ws\<rparr>"
  using assms by (auto simp: proto_dispatch_def dispatch_registry_def reg_touch_def)

lemma dispatch_register:
  assumes "reg_inv r" and "frame_ok hdr payload" and "cmd hdr = 0x01"
  obtains rc where "registry_register P ts fd payload (int (length payload)) r
      = Some (rc, dispatch_registry P ts fd hdr payload r)"
    "proto_dispatch P ts fd hdr payload r ws =
      map_option (\<lambda>(a, out, ws'). \<lparr>d_rc = 0, d_registry = dispatch_registry P ts fd hdr payload r,
        d_sent = out, d_answers = ws'\<rparr>) (send_register_ack (seq hdr) (rc = 0) ws)"
proof -
  obtain rc r' where reg: "registry_register P ts fd payload (int (length payload)) r = Some (rc, r')"
    using register_entry [OF assms(1), of P ts fd payload] by auto
  have len: "sint (payload_len hdr) = int (length payload)"
    using assms(2) by (simp add: frame_ok_def payload_len_int)
  have r': "dispatch_registry P ts fd hdr payload r = r'"
    using reg assms(3) by (simp add: dispatch_registry_def reg_join_def)
  have "proto_dispatch P ts fd hdr payload r ws =
      map_option (\<lambda>(a, out, ws'). \<lparr>d_rc = 0, d_registry = r', d_sent = out, d_answers = ws'\<rparr>)
        (send_register_ack (seq hdr) (rc = 0) ws)"
    using reg assms(3)
    by (cases "send_register_ack (seq hdr) (rc = 0) ws") (auto simp: proto_dispatch_def len)
  with reg that show thesis by (simp add: r')
qed

lemma dispatch_registry_inv: "reg_inv r \<Longrightarrow> reg_inv (dispatch_registry P ts fd hdr payload r)"
  by (auto simp: dispatch_registry_def intro: reg_dir.inv_join reg_dir.inv_touch)

lemma dispatch_registry_other:
  "reg_inv r \<Longrightarrow> fd' \<noteq> fd \<Longrightarrow>
     reg_entry (dispatch_registry P ts fd hdr payload r) fd' = reg_entry r fd'"
  by (simp add: dispatch_registry_def reg_dir.entry_join_other reg_dir.entry_touch)

text \<open>Any frame's dispatch returns when \<open>send\<close> answers often enough.\<close>

lemma dispatch_runs:
  assumes "reg_inv r" and "frame_ok hdr payload"
    and "33 \<le> length (filter (\<lambda>w. w \<noteq> Send_EINTR) ws)"
  shows "\<exists>d. proto_dispatch P ts fd hdr payload r ws = Some d \<and> d_rc d = 0 \<and> reg_inv (d_registry d)
    \<and> (\<forall>fd'. fd' \<noteq> fd \<longrightarrow> reg_entry (d_registry d) fd' = reg_entry r fd')
    \<and> (if cmd hdr = cmd_code PROTO_REGISTER then length (d_sent d) \<le> 24 else d_sent d = [])"
proof (cases "cmd hdr = 0x01")
  case False
  then show ?thesis
    by (simp add: dispatch_other dispatch_registry_inv [OF assms(1)] dispatch_registry_other [OF assms(1)])
next
  case True
  obtain rc where rc0: "registry_register P ts fd payload (int (length payload)) r
      = Some (rc, dispatch_registry P ts fd hdr payload r)"
    and rc: "proto_dispatch P ts fd hdr payload r ws =
      map_option (\<lambda>(a, out, ws'). \<lparr>d_rc = 0, d_registry = dispatch_registry P ts fd hdr payload r,
        d_sent = out, d_answers = ws'\<rparr>) (send_register_ack (seq hdr) (rc = 0) ws)"
    by (rule dispatch_register [OF assms(1,2) True])
  have "send_nonblock_retry (ack_frame (seq hdr) (rc = 0)) 0 0 ws \<noteq> None"
    by (rule send_returns)
       (use assms(3) length_ack_frame [of "seq hdr" "rc = 0"] in \<open>simp_all add: MAX_RETRIES_def\<close>)
  then obtain x n ws' where "send_nonblock_retry (ack_frame (seq hdr) (rc = 0)) 0 0 ws = Some (x, n, ws')"
    by auto
  with rc True show ?thesis
    using length_ack_frame [of "seq hdr" "rc = 0"]
    by (auto simp: send_register_ack_eq dispatch_registry_inv [OF assms(1)]
        dispatch_registry_other [OF assms(1)])
qed

section \<open>Properties\<close>

text \<open>
  C19. A REGISTER frame is answered by exactly one acknowledgement: one REGISTER_ACK frame that
  carries the sequence number of the request and says \<open>ok\<close> exactly if the registration
  succeeded. When the peer takes the bytes (no error, at most eight \<open>EAGAIN\<close>, then enough room)
  the dispatch returns and the whole frame has been sent; whenever it returns, what was sent is
  a prefix of that frame, it is the whole frame in no other case, the registry is the one
  registration gives, and the result is 0.
\<close>

theorem dispatch_register_ack:
  assumes "reg_inv r" and "frame_ok hdr payload" and "cmd hdr = cmd_code PROTO_REGISTER"
  shows "\<exists>rc r'. registry_register P ts fd payload (int (length payload)) r = Some (rc, r')
    \<and> decode_bytes (ack_frame (seq hdr) (rc = 0)) =
        Inr (\<lparr>magic = PROTO_MAGIC, version = PROTO_VERSION, cmd = cmd_code PROTO_REGISTER_ACK,
               seq = seq hdr, payload_len = (if rc = 0 then 11 else 12)\<rparr>,
             bytes (if rc = 0 then ''{\"ok\":true}'' else ''{\"ok\":false}''))
    \<and> (takes_all (length (ack_frame (seq hdr) (rc = 0))) ws \<longrightarrow> proto_dispatch P ts fd hdr payload r ws \<noteq> None)
    \<and> (case proto_dispatch P ts fd hdr payload r ws of
         None \<Rightarrow> True
       | Some d \<Rightarrow> d_rc d = 0 \<and> d_registry d = r' \<and> (\<exists>k. d_sent d = take k (ack_frame (seq hdr) (rc = 0)))
           \<and> (d_sent d = ack_frame (seq hdr) (rc = 0)
              \<longleftrightarrow> takes_all (length (ack_frame (seq hdr) (rc = 0))) ws))"
proof -
  have c: "cmd hdr = 0x01" using assms(3) by simp
  obtain rc where rc: "registry_register P ts fd payload (int (length payload)) r
      = Some (rc, dispatch_registry P ts fd hdr payload r)"
    "proto_dispatch P ts fd hdr payload r ws =
      map_option (\<lambda>(a, out, ws'). \<lparr>d_rc = 0, d_registry = dispatch_registry P ts fd hdr payload r,
        d_sent = out, d_answers = ws'\<rparr>) (send_register_ack (seq hdr) (rc = 0) ws)"
    by (rule dispatch_register [OF assms(1,2) c])
  let ?ack = "ack_frame (seq hdr) (rc = 0)"
  have "decode_bytes ?ack = Inr (ack_hdr (seq hdr) (rc = 0), ack_text (rc = 0))"
    using ack_frame_decodes [of "seq hdr" "rc = 0" "[]"] by simp
  moreover have "takes_all (length ?ack) ws \<longrightarrow> proto_dispatch P ts fd hdr payload r ws \<noteq> None"
    using send_all_returns [of ?ack ws] by (auto simp: rc(2) send_register_ack_eq)
  moreover have "d_rc d = 0 \<and> d_registry d = dispatch_registry P ts fd hdr payload r
      \<and> (\<exists>k. d_sent d = take k ?ack) \<and> (d_sent d = ?ack \<longleftrightarrow> takes_all (length ?ack) ws)"
    if d: "proto_dispatch P ts fd hdr payload r ws = Some d" for d
  proof -
    obtain x n ws' where send: "send_nonblock_retry ?ack 0 0 ws = Some (x, n, ws')"
      and d': "d_rc d = 0" "d_registry d = dispatch_registry P ts fd hdr payload r" "d_sent d = take n ?ack"
      using d by (auto simp: rc(2) send_register_ack_eq)
    have "n \<le> length ?ack" using send_result_cases [OF send] by auto
    then have "take n ?ack = ?ack \<longleftrightarrow> n = length ?ack" by (auto dest: arg_cong [of _ _ length])
    with d' send_all_iff [OF send] show ?thesis by auto
  qed
  ultimately show ?thesis
    using rc(1) unfolding ack_hdr_def ack_text_def
    by (intro exI [of _ rc] exI [of _ "dispatch_registry P ts fd hdr payload r"]) (simp split: option.split)
qed

text \<open>
  The dispatcher waits for no client: with at least 33 answers of \<open>send\<close> that are not
  \<open>EINTR\<close> the dispatch of any frame has returned, and it returned 0; the table stays well
  formed and only the entry of the frame's own connection can have changed; nothing is sent
  but, for a REGISTER frame, at most 24 bytes.
\<close>

theorem dispatch_returns:
  assumes "reg_inv r" and "frame_ok hdr payload"
    and "33 \<le> length (filter (\<lambda>w. w \<noteq> Send_EINTR) ws)"
  shows "\<exists>d. proto_dispatch P ts fd hdr payload r ws = Some d \<and> d_rc d = 0 \<and> reg_inv (d_registry d)
    \<and> (\<forall>fd'. fd' \<noteq> fd \<longrightarrow> reg_entry (d_registry d) fd' = reg_entry r fd')
    \<and> (if cmd hdr = cmd_code PROTO_REGISTER then length (d_sent d) \<le> 24 else d_sent d = [])"
  using assms by (rule dispatch_runs)

text \<open>
  Sending without blocking: the loop returns the length exactly when every byte was
  written and -1 otherwise, having written a proper prefix; and it returns as soon as \<open>send\<close>
  has given as many answers other than \<open>EINTR\<close> as there are bytes, and nine more.
\<close>

theorem send_retry_bounded:
  "(case send_nonblock_retry buf 0 0 ws of
      None \<Rightarrow> length (filter (\<lambda>w. w \<noteq> Send_EINTR) ws) < length buf + 9
    | Some (rc, n, ws') \<Rightarrow> rc = int (length buf) \<and> n = length buf \<or> rc = -1 \<and> n < length buf)"
proof (cases "send_nonblock_retry buf 0 0 ws")
  case None
  then show ?thesis
    using send_returns [of buf 0 0 ws] by (force simp: MAX_RETRIES_def)
next
  case (Some p)
  then show ?thesis
    using send_result_cases [of buf 0 0 ws] by (cases p) auto
qed

definition demo_hdr :: proto_frame_hdr where
  "demo_hdr = \<lparr>magic = PROTO_MAGIC, version = PROTO_VERSION, cmd = 1, seq = 77, payload_len = 2\<rparr>"

lemma demo_frame_ok: "frame_ok demo_hdr demo_json"
  by (simp add: frame_ok_def demo_hdr_def length_demo_json)

theorem dispatch_returns_witness:
  "\<exists>d. proto_dispatch demo_parser \<lparr>tv_sec = 1, tv_nsec = 0\<rparr> 4 demo_hdr demo_json registry_static
     (replicate 33 (Wrote 1)) = Some d \<and> d_rc d = 0"
proof -
  have "33 \<le> length (filter (\<lambda>w. w \<noteq> Send_EINTR) (replicate 33 (Wrote 1)))" by simp
  from dispatch_returns [OF reg_inv_static demo_frame_ok this] show ?thesis by blast
qed

theorem dispatch_register_ack_witness:
  "map_option (\<lambda>d. (d_rc d, d_sent d)) (proto_dispatch demo_parser \<lparr>tv_sec = 1, tv_nsec = 0\<rparr> 4 demo_hdr demo_json
      registry_static [Send_EAGAIN, Wrote 10, Send_EINTR, Wrote 30]) = Some (0, ack_frame 77 True)"
proof -
  let ?ws = "[Send_EAGAIN, Wrote 10, Send_EINTR, Wrote 30]"
  have c: "cmd demo_hdr = cmd_code PROTO_REGISTER" and seq: "seq demo_hdr = 77" by (simp_all add: demo_hdr_def)
  from dispatch_register_ack [OF reg_inv_static demo_frame_ok c, of demo_parser "\<lparr>tv_sec = 1, tv_nsec = 0\<rparr>" 4 ?ws]
  obtain rc r' where rc: "registry_register demo_parser \<lparr>tv_sec = 1, tv_nsec = 0\<rparr> 4 demo_json
      (int (length demo_json)) registry_static = Some (rc, r')"
    and ack: "takes_all (length (ack_frame 77 (rc = 0))) ?ws \<longrightarrow>
        proto_dispatch demo_parser \<lparr>tv_sec = 1, tv_nsec = 0\<rparr> 4 demo_hdr demo_json registry_static ?ws \<noteq> None"
      "case proto_dispatch demo_parser \<lparr>tv_sec = 1, tv_nsec = 0\<rparr> 4 demo_hdr demo_json registry_static ?ws of
         None \<Rightarrow> True
       | Some d \<Rightarrow> d_rc d = 0 \<and> d_registry d = r' \<and> (\<exists>k. d_sent d = take k (ack_frame 77 (rc = 0)))
           \<and> (d_sent d = ack_frame 77 (rc = 0) \<longleftrightarrow> takes_all (length (ack_frame 77 (rc = 0))) ?ws)"
    unfolding seq by blast
  have "takes_all 24 ?ws" "takes_all 23 ?ws"
    unfolding takes_all_def by (rule exI [of _ ?ws], simp add: MAX_RETRIES_def)+
  then have "takes_all (length (ack_frame 77 (rc = 0))) ?ws" by (simp add: length_ack_frame)
  moreover have "map_option fst (registry_register demo_parser \<lparr>tv_sec = 1, tv_nsec = 0\<rparr> 4 demo_json
      (int (length demo_json)) registry_static) = Some 0"
    unfolding length_demo_json by code_simp
  then have "rc = 0" by (simp add: rc)
  ultimately show ?thesis using ack by (auto split: option.splits)
qed

end
