(* ===== verification/RunState.thy ===== *)
theory RunState
  imports EzPrelude
begin

text \<open>
  The run flag: \<^verbatim>\<open>routerd/include/run_state.h\<close> and \<^verbatim>\<open>routerd/src/run_state.c\<close>. The flag is
  an \<open>atomic_int\<close>, kept as an integer; the signal handler is called with any signal number.
  Every worker loop of the daemon is guarded by \<open>run_state_is_running\<close>.
\<close>

definition SIGTERM :: int where "SIGTERM = 15"

record run_state =
  g_running :: int
  sigterm_handled :: bool

definition run_state_static :: run_state where
  "run_state_static = \<lparr>g_running = 1, sigterm_handled = False\<rparr>"

definition run_state_handle_signal :: "int \<Rightarrow> run_state \<Rightarrow> run_state" where
  "run_state_handle_signal sig s = (if sig = SIGTERM then s\<lparr>g_running := 0\<rparr> else s)"

definition run_state_init :: "run_state \<Rightarrow> run_state" where
  "run_state_init s = s\<lparr>sigterm_handled := True\<rparr>"

definition run_state_stop :: "run_state \<Rightarrow> run_state" where
  "run_state_stop s = s\<lparr>g_running := 0\<rparr>"

definition run_state_is_running :: "run_state \<Rightarrow> bool" where
  "run_state_is_running s \<longleftrightarrow> g_running s \<noteq> 0"

text \<open>What can happen to the flag after it is installed.\<close>

datatype run_event = Signal int | Stop

fun run_event_step :: "run_event \<Rightarrow> run_state \<Rightarrow> run_state" where
  "run_event_step (Signal sig) s = (if sigterm_handled s then run_state_handle_signal sig s else s)"
| "run_event_step Stop s = run_state_stop s"

lemma stopped_stays: "\<not> run_state_is_running s \<Longrightarrow> \<not> run_state_is_running (fold run_event_step evs s)"
proof (induction evs arbitrary: s)
  case Nil
  then show ?case by simp
next
  case (Cons e evs)
  have "\<not> run_state_is_running (run_event_step e s)"
    using Cons.prems
    by (cases e) (auto simp: run_state_is_running_def run_state_handle_signal_def run_state_stop_def)
  with Cons.IH show ?case by simp
qed

text \<open>The daemon runs until the first SIGTERM or stop request, and never starts again.\<close>

lemma running_iff:
  "run_state_is_running (fold run_event_step evs (run_state_init run_state_static))
     \<longleftrightarrow> Signal SIGTERM \<notin> set evs \<and> Stop \<notin> set evs"
proof (induction evs rule: rev_induct)
  case Nil
  then show ?case by (simp add: run_state_is_running_def run_state_init_def run_state_static_def)
next
  case (snoc e evs)
  have h: "sigterm_handled (fold run_event_step evs (run_state_init run_state_static))"
  proof (induction evs rule: rev_induct)
    case Nil
    then show ?case by (simp add: run_state_init_def)
  next
    case (snoc e evs)
    then show ?case by (cases e) (simp_all add: run_state_handle_signal_def run_state_stop_def)
  qed
  from snoc.IH h show ?case
    by (cases e)
       (auto simp: run_state_is_running_def run_state_handle_signal_def run_state_stop_def)
qed

text \<open>
  The worker loops run exactly until the first SIGTERM or stop request: no other signal
  stops them, and nothing starts them again.
\<close>

theorem run_state_stops:
  "run_state_is_running (fold run_event_step evs (run_state_init run_state_static))
     \<longleftrightarrow> set evs \<inter> {Signal SIGTERM, Stop} = {}"
  using running_iff [of evs] by blast

end
