(* ===== verification/IpcServer.thy ===== *)
theory IpcServer
  imports Dispatcher RunState
begin

text \<open>
  One IPC connection: \<^verbatim>\<open>routerd/include/ipc_server.h\<close> and
  \<^verbatim>\<open>routerd/src/ipc_server.c\<close>. The receive buffer of a connection is a block of its fixed
  size, with the number of bytes in use. What happens on the socket is an input, the list of
  events of the connection; the k-th frame that is dispatched sees the k-th reading of the
  clock and the k-th list of answers of \<open>send\<close>. The listening socket and the accept loop are
  described at the end.
\<close>

section \<open>State\<close>

definition IPC_RECV_BUF_SIZE :: nat where
  "IPC_RECV_BUF_SIZE = PROTO_HDR_SIZE + unat PROTO_MAX_PAYLOAD"

lemma IPC_RECV_BUF_SIZE_eq: "IPC_RECV_BUF_SIZE = 65548"
  by (simp add: IPC_RECV_BUF_SIZE_def proto_consts)

text \<open>
  \<open>Data bs\<close>: these bytes arrive (a call of \<open>recv\<close> takes what fits, the rest waits for the
  next call); \<open>Eof\<close>: the peer closed; \<open>Stopped\<close>: the run flag is seen cleared.
\<close>

datatype conn_event = Data "u8 list" | Recv_EINTR | Recv_error | Eof | Stopped

record conn_env =
  env_parser :: json_parser
  env_clock :: "nat \<Rightarrow> timespec"
  env_send :: "nat \<Rightarrow> send_result list"

text \<open>What a connection does: to the registry, the frames dispatched, the bytes sent back.\<close>

record session =
  s_registry :: registry
  s_frames :: "(proto_frame_hdr \<times> u8 list) list"
  s_sent :: "u8 list"

section \<open>Operations\<close>

definition dispatch_frame ::
    "conn_env \<Rightarrow> int \<Rightarrow> proto_frame_hdr \<Rightarrow> u8 list \<Rightarrow> session \<Rightarrow> session option" where
  "dispatch_frame env fd hdr payload s =
     (let k = length (s_frames s) in do {
        d \<leftarrow> proto_dispatch (env_parser env) (env_clock env k) fd hdr payload (s_registry s) (env_send env k);
        Some (s\<lparr>s_registry := d_registry d,
                s_frames := s_frames s @ [(hdr, take (unat (payload_len hdr)) payload)],
                s_sent := s_sent s @ d_sent d\<rparr>) })"

text \<open>A decoded frame takes bytes: the loop over the buffer ends.\<close>

lemma proto_decode_progress:
  assumes "proto_decode buf (word_of_nat n) = Some (Inr (h, off, r))"
  shows "0 < nat r" and "0 < n"
proof -
  have plen: "unat (payload_len h) \<le> 65536" and r: "r = to_c_int (frame_size (payload_len h))"
    and len: "\<not> (word_of_nat n :: u64) < word_of_nat PROTO_HDR_SIZE"
    using assms
    by (auto simp: proto_decode_def Let_def payload_bound' split: if_splits bind_splits)
  have "r = int (PROTO_HDR_SIZE + unat (payload_len h))"
    unfolding r by (rule to_c_int_frame_size [OF plen])
  then show "0 < nat r" by (simp only: nat_int) (simp add: PROTO_HDR_SIZE_def)
  have "PROTO_HDR_SIZE \<le> unat (word_of_nat n :: u64)" using len by (simp add: hdr_less_iff)
  then show "0 < n" by (cases n) (simp_all add: PROTO_HDR_SIZE_def)
qed

text \<open>The loop over the frames in the buffer.\<close>

datatype drain_result = Go_on | Drop_conn

function drain ::
    "conn_env \<Rightarrow> int \<Rightarrow> u8 list \<Rightarrow> nat \<Rightarrow> session \<Rightarrow> (drain_result \<times> u8 list \<times> nat \<times> session) option" where
  "drain env fd buf buf_len s =
     (case proto_decode buf (word_of_nat buf_len) of
        None \<Rightarrow> None
      | Some (Inl e) \<Rightarrow>
          if e = INCOMPLETE then Some (Go_on, buf, buf_len, s) else Some (Drop_conn, buf, 0, s)
      | Some (Inr (hdr, off, r)) \<Rightarrow>
          (case dispatch_frame env fd hdr (drop off buf) s of
             None \<Rightarrow> None
           | Some s' \<Rightarrow>
               (case (if nat r < buf_len then memmove_in buf 0 (nat r) (buf_len - nat r) else Some buf) of
                  None \<Rightarrow> None
                | Some buf' \<Rightarrow> drain env fd buf' (buf_len - nat r) s')))"
  by pat_completeness auto
termination
  by (relation "measure (\<lambda>(_, _, _, n, _). n)")
     (auto intro!: diff_less intro: proto_decode_progress simp del: zero_less_nat_eq)

declare drain.simps [simp del]

text \<open>
  The loop over the socket, up to the label \<open>done\<close>. \<open>True\<close>: the connection is to be closed;
  \<open>False\<close>: the events are used up and the thread waits in \<open>recv\<close>.
\<close>

fun event_size :: "conn_event \<Rightarrow> nat" where
  "event_size (Data bs) = Suc (length bs)"
| "event_size _ = 1"

function client_loop ::
    "conn_env \<Rightarrow> int \<Rightarrow> u8 list \<Rightarrow> nat \<Rightarrow> session \<Rightarrow> conn_event list \<Rightarrow> (bool \<times> session) option" where
  "client_loop env fd buf buf_len s [] = Some (False, s)"
| "client_loop env fd buf buf_len s (ev # evs) =
     (case ev of
        Stopped \<Rightarrow> Some (True, s)
      | Eof \<Rightarrow> Some (True, s)
      | Recv_error \<Rightarrow> Some (True, s)
      | Recv_EINTR \<Rightarrow> client_loop env fd buf buf_len s evs
      | Data bs \<Rightarrow>
          let n = min (length bs) (IPC_RECV_BUF_SIZE - buf_len) in
          if n = 0 then Some (True, s)
          else (case memcpy buf buf_len bs n of
              None \<Rightarrow> None
            | Some buf' \<Rightarrow>
                (case drain env fd buf' (buf_len + n) s of
                   None \<Rightarrow> None
                 | Some (Drop_conn, buf'', m, s') \<Rightarrow> Some (True, s')
                 | Some (Go_on, buf'', m, s') \<Rightarrow>
                     if m = IPC_RECV_BUF_SIZE then Some (True, s')
                     else client_loop env fd buf'' m s'
                       (if n < length bs then Data (drop n bs) # evs else evs))))"
  by pat_completeness auto
termination
  by (relation "measure (\<lambda>(_, _, _, _, _, evs). sum_list (map event_size evs))") auto

declare client_loop.simps(2) [simp del]

text \<open>\<open>handle_client\<close>: the buffer starts uninitialised, as \<open>junk\<close>.\<close>

definition handle_client ::
    "conn_env \<Rightarrow> int \<Rightarrow> u8 list \<Rightarrow> registry \<Rightarrow> conn_event list \<Rightarrow> (bool \<times> session) option" where
  "handle_client env fd junk r evs = do {
     (closed, s) \<leftarrow> client_loop env fd junk 0 \<lparr>s_registry = r, s_frames = [], s_sent = []\<rparr> evs;
     Some (closed,
       if closed then s\<lparr>s_registry := snd (registry_unregister fd (s_registry s))\<rparr> else s) }"

section \<open>The buffer as the pending bytes\<close>

lemma memcpy_take: "k \<le> length s \<Longrightarrow> memcpy d off (take k s) k = memcpy d off s k"
  by (simp add: memcpy_def)

lemma registry_register_take:
  "nat n \<le> length json \<Longrightarrow>
     registry_register P ts fd (take (nat n) json) n r = registry_register P ts fd json n r"
  by (simp add: registry_register_def parse_register_json_def memcpy_take)

lemma proto_dispatch_take:
  assumes "unat (payload_len h) \<le> 65536" and "unat (payload_len h) \<le> length payload"
  shows "proto_dispatch P ts fd h payload r ws = proto_dispatch P ts fd h (take (unat (payload_len h)) payload) r ws"
  using registry_register_take [of "sint (payload_len h)" payload P ts fd r] assms
  by (simp add: proto_dispatch_def payload_len_int)

text \<open>The environment answers often enough for each acknowledgement.\<close>

definition env_ok :: "conn_env \<Rightarrow> bool" where
  "env_ok env \<longleftrightarrow> (\<forall>k. 33 \<le> length (filter (\<lambda>w. w \<noteq> Send_EINTR) (env_send env k)))"

text \<open>
  What a run of frames does to the registry and sends back: the frame number \<open>k\<close> of the
  connection sees the k-th reading of the clock and the k-th answers of \<open>send\<close>.
\<close>

fun conn_effect ::
    "conn_env \<Rightarrow> int \<Rightarrow> nat \<Rightarrow> (proto_frame_hdr \<times> u8 list) list \<Rightarrow> registry \<times> u8 list \<Rightarrow>
       (registry \<times> u8 list) option" where
  "conn_effect env fd k [] (r, out) = Some (r, out)"
| "conn_effect env fd k ((h, p) # fs) (r, out) =
     (case proto_dispatch (env_parser env) (env_clock env k) fd h p r (env_send env k) of
        None \<Rightarrow> None
      | Some d \<Rightarrow> conn_effect env fd (Suc k) fs (d_registry d, out @ d_sent d))"

lemma conn_effect_append:
  "conn_effect env fd k (fs @ gs) (r, out) =
     Option.bind (conn_effect env fd k fs (r, out)) (conn_effect env fd (k + length fs) gs)"
  by (induction fs arbitrary: k r out) (auto split: option.splits)

definition sess_step ::
    "conn_env \<Rightarrow> int \<Rightarrow> session \<Rightarrow> session \<Rightarrow> (proto_frame_hdr \<times> u8 list) list \<Rightarrow> bool" where
  "sess_step env fd s s' fs \<longleftrightarrow> s_frames s' = s_frames s @ fs \<and> reg_inv (s_registry s')
     \<and> (\<forall>fd'. fd' \<noteq> fd \<longrightarrow> reg_entry (s_registry s') fd' = reg_entry (s_registry s) fd')
     \<and> conn_effect env fd (length (s_frames s)) fs (s_registry s, s_sent s) = Some (s_registry s', s_sent s')"

lemma sess_step_refl: "reg_inv (s_registry s) \<Longrightarrow> sess_step env fd s s []"
  by (simp add: sess_step_def)

lemma sess_step_trans:
  "sess_step env fd s s' fs \<Longrightarrow> sess_step env fd s' s'' fs' \<Longrightarrow> sess_step env fd s s'' (fs @ fs')"
  by (simp add: sess_step_def conn_effect_append)

lemma dispatch_frame_step:
  assumes "env_ok env" and "reg_inv (s_registry s)"
    and "unat (payload_len h) \<le> 65536" and "unat (payload_len h) \<le> length payload"
  shows "\<exists>s'. dispatch_frame env fd h payload s = Some s'
    \<and> sess_step env fd s s' [(h, take (unat (payload_len h)) payload)]"
proof -
  let ?k = "length (s_frames s)" and ?p = "take (unat (payload_len h)) payload"
  have "frame_ok h ?p" using assms(3,4) by (simp add: frame_ok_def)
  moreover have "33 \<le> length (filter (\<lambda>w. w \<noteq> Send_EINTR) (env_send env ?k))"
    using assms(1) by (simp add: env_ok_def)
  ultimately obtain d where "proto_dispatch (env_parser env) (env_clock env ?k) fd h ?p (s_registry s)
      (env_send env ?k) = Some d" "reg_inv (d_registry d)"
    "\<forall>fd'. fd' \<noteq> fd \<longrightarrow> reg_entry (d_registry d) fd' = reg_entry (s_registry s) fd'"
    using dispatch_runs [OF assms(2)] by blast
  then show ?thesis
    by (simp add: dispatch_frame_def Let_def proto_dispatch_take [OF assms(3,4)] sess_step_def)
qed

text \<open>
  Draining the buffer reads off the frames at the front of its bytes and leaves the rest at
  its front.
\<close>

lemma memmove_front:
  assumes "k < n" and "n \<le> length buf"
  obtains buf' where "memmove_in buf 0 k (n - k) = Some buf'" "length buf' = length buf"
    "take (n - k) buf' = drop k (take n buf)"
proof -
  have "memmove_in buf 0 k (n - k) = Some (take (n - k) (drop k buf) @ drop (n - k) buf)"
    using assms by (simp add: mem_simps)
  moreover have "take (n - k) (drop k buf) = drop k (take n buf)" by (simp add: drop_take)
  ultimately show thesis using that assms by simp
qed

lemma drain_eq:
  assumes "env_ok env" and "length buf = IPC_RECV_BUF_SIZE" and "n \<le> IPC_RECV_BUF_SIZE"
    and "reg_inv (s_registry s)"
    and "split_stream decode_bytes frame_len INCOMPLETE (take n buf) = (fs, err, rest)"
  shows "\<exists>buf' s'. drain env fd buf n s =
      Some (if err = None then Go_on else Drop_conn, buf', if err = None then length rest else 0, s')
    \<and> length buf' = IPC_RECV_BUF_SIZE \<and> (err = None \<longrightarrow> take (length rest) buf' = rest)
    \<and> sess_step env fd s s' fs"
  using assms(2-5)
proof (induction n arbitrary: buf s fs rule: less_induct)
  case (less n)
  have dec: "proto_decode buf (word_of_nat n) = Some
     (case decode_bytes (take n buf) of
        Inl e \<Rightarrow> Inl e | Inr (h, payload) \<Rightarrow> Inr (h, PROTO_HDR_SIZE, int (total_len h)))"
  proof -
    have "n < 2 ^ 64" using less.prems(2) by (simp add: IPC_RECV_BUF_SIZE_eq)
    then have "unat (word_of_nat n :: u64) = n" by (rule unat_u64)
    then show ?thesis using proto_decode_eq [of "word_of_nat n" buf] less.prems(1,2) by simp
  qed
  show ?case
  proof (cases "decode_bytes (take n buf)")
    case (Inl e)
    show ?thesis
    proof (cases "e = INCOMPLETE")
      case True
      with Inl less.prems have "fs = [] \<and> err = None \<and> rest = take n buf"
        by (simp add: proto_stream.split_more)
      with True Inl dec less.prems show ?thesis
        by (simp add: drain.simps sess_step_refl)
    next
      case False
      with Inl less.prems have "fs = [] \<and> err = Some e"
        by (simp add: proto_stream.split_error)
      with False Inl dec less.prems show ?thesis
        by (simp add: drain.simps sess_step_refl)
    qed
  next
    case (Inr f)
    obtain h payload where f: "f = (h, payload)" by (cases f)
    let ?k = "total_len h"
    note inv = decode_bytes_InrD [OF Inr [unfolded f]]
    have k: "0 < ?k" "?k \<le> n" using inv(4) by (simp_all add: total_len_def PROTO_HDR_SIZE_def)
    obtain fs' where fs: "fs = f # fs'"
      and rest: "split_stream decode_bytes frame_len INCOMPLETE (drop ?k (take n buf)) = (fs', err, rest)"
      using less.prems(4) by (auto simp: proto_stream.split_frame [OF Inr] f split: prod.splits)
    have plen: "unat (payload_len h) \<le> length (drop PROTO_HDR_SIZE buf)"
      using k(2) less.prems(1,2) by (simp add: total_len_def)
    have "payload = drop PROTO_HDR_SIZE (take ?k (take n buf))"
      using Inr f by (auto simp: decode_bytes_def Let_def split: if_splits)
    then have pay0: "payload = take (unat (payload_len h)) (drop PROTO_HDR_SIZE buf)"
      using k(2) by (simp add: total_len_def drop_take)
    have pay: "take (unat (payload_len h)) (drop PROTO_HDR_SIZE buf) = payload"
      unfolding pay0 by simp
    obtain s1 where s1: "dispatch_frame env fd h (drop PROTO_HDR_SIZE buf) s = Some s1"
      "sess_step env fd s s1 [(h, payload)]"
      using dispatch_frame_step [OF assms(1) less.prems(3) inv(3) plen, of fd] pay by auto
    obtain buf1 where b1: "(if ?k < n then memmove_in buf 0 ?k (n - ?k) else Some buf) = Some buf1"
      "length buf1 = IPC_RECV_BUF_SIZE" "take (n - ?k) buf1 = drop ?k (take n buf)"
    proof (cases "?k < n")
      case True
      with less.prems(1,2) show thesis using that memmove_front [of ?k n buf] by metis
    next
      case False
      with k less.prems(1,2) that [of buf] show thesis by simp
    qed
    have "\<exists>buf' s'. drain env fd buf1 (n - ?k) s1 =
        Some (if err = None then Go_on else Drop_conn, buf', if err = None then length rest else 0, s')
      \<and> length buf' = IPC_RECV_BUF_SIZE \<and> (err = None \<longrightarrow> take (length rest) buf' = rest)
      \<and> sess_step env fd s1 s' fs'"
      by (rule less.IH) (use k b1 rest less.prems(2) s1(2) in \<open>simp_all add: sess_step_def\<close>)
    moreover have "drain env fd buf n s = drain env fd buf1 (n - ?k) s1"
      using dec Inr f s1(1) b1(1) by (simp add: drain.simps [of env fd buf n s] split: if_splits)
    ultimately show ?thesis
      using sess_step_trans [OF s1(2)] by (auto simp: fs f)
  qed
qed

section \<open>The connection as a reader of a stream\<close>

text \<open>An incomplete frame always fits the buffer with room to spare.\<close>

lemma incomplete_short: "decode_bytes xs = Inl INCOMPLETE \<Longrightarrow> length xs < IPC_RECV_BUF_SIZE"
  by (auto simp: decode_bytes_def Let_def payload_bound' total_len_def PROTO_HDR_SIZE_def
      IPC_RECV_BUF_SIZE_eq split: if_splits)

text \<open>What the connection is meant to do: the frames it dispatches, and whether it ends.\<close>

fun conn_spec :: "u8 list \<Rightarrow> conn_event list \<Rightarrow> (proto_frame_hdr \<times> u8 list) list \<times> bool" where
  "conn_spec pending [] = ([], False)"
| "conn_spec pending (Data bs # evs) =
     (if bs = [] then ([], True)
      else case split_stream decode_bytes frame_len INCOMPLETE (pending @ bs) of
        (fs, Some e, r) \<Rightarrow> (fs, True)
      | (fs, None, r) \<Rightarrow> (case conn_spec r evs of (fs', c) \<Rightarrow> (fs @ fs', c)))"
| "conn_spec pending (Recv_EINTR # evs) = conn_spec pending evs"
| "conn_spec pending (Recv_error # evs) = ([], True)"
| "conn_spec pending (Eof # evs) = ([], True)"
| "conn_spec pending (Stopped # evs) = ([], True)"

lemma conn_spec_split:
  assumes "bs \<noteq> []" and "bs' \<noteq> []"
  shows "conn_spec p (Data (bs @ bs') # evs) = conn_spec p (Data bs # Data bs' # evs)"
  using assms
  by (auto simp: proto_stream.split_append [of "p @ bs" bs', simplified] split: prod.splits option.splits)

text \<open>Receiving into the buffer.\<close>

lemma recv_into:
  assumes "length buf = IPC_RECV_BUF_SIZE" and "n + k \<le> IPC_RECV_BUF_SIZE" and "k \<le> length bs"
  obtains buf' where "memcpy buf n bs k = Some buf'" "length buf' = IPC_RECV_BUF_SIZE"
    "take (n + k) buf' = take n buf @ take k bs"
  using assms that [of "take n buf @ take k bs @ drop (n + k) buf"]
  by (simp add: mem_simps)

lemma client_loop_eq:
  assumes "env_ok env" and "length buf = IPC_RECV_BUF_SIZE" and "n < IPC_RECV_BUF_SIZE"
    and "decode_bytes (take n buf) = Inl INCOMPLETE" and "reg_inv (s_registry s)"
    and "conn_spec (take n buf) evs = (fs, c)"
  shows "\<exists>s'. client_loop env fd buf n s evs = Some (c, s') \<and> sess_step env fd s s' fs"
  using assms(2-6)
proof (induction "sum_list (map event_size evs)" arbitrary: evs buf n s fs rule: less_induct)
  case less
  show ?case
  proof (cases evs)
    case Nil
    with less.prems show ?thesis by (simp add: sess_step_refl)
  next
    case (Cons ev evs')
    show ?thesis
    proof (cases ev)
      case (Data bs)
      let ?k = "min (length bs) (IPC_RECV_BUF_SIZE - n)"
      let ?evs = "if ?k < length bs then Data (drop ?k bs) # evs' else evs'"
      show ?thesis
      proof (cases "bs = []")
        case True
        with less.prems Cons Data show ?thesis
          by (simp add: client_loop.simps(2) sess_step_refl)
      next
        case False
        then have k: "0 < ?k" "n + ?k \<le> IPC_RECV_BUF_SIZE" "?k \<le> length bs"
          using less.prems(2) by auto
        have spec: "conn_spec (take n buf) evs = conn_spec (take n buf) (Data (take ?k bs) # ?evs)"
        proof (cases "?k < length bs")
          case True
          then have "take ?k bs \<noteq> []" "drop ?k bs \<noteq> []" using k(1) by auto
          from conn_spec_split [OF this, of "take n buf" evs'] True show ?thesis
            unfolding Cons Data append_take_drop_id by (simp only: if_True)
        next
          case False
          then have "take ?k bs = bs" using k(3) by simp
          with False show ?thesis unfolding Cons Data by (simp only: if_False)
        qed
        obtain buf1 where b1: "memcpy buf n bs ?k = Some buf1" "length buf1 = IPC_RECV_BUF_SIZE"
          "take (n + ?k) buf1 = take n buf @ take ?k bs"
          by (rule recv_into [OF less.prems(1) k(2,3)])
        obtain gs err rest where sp: "split_stream decode_bytes frame_len INCOMPLETE (take n buf @ take ?k bs)
            = (gs, err, rest)" by (metis prod_cases3)
        obtain buf2 s1 where d: "drain env fd buf1 (n + ?k) s =
            Some (if err = None then Go_on else Drop_conn, buf2, if err = None then length rest else 0, s1)"
          "length buf2 = IPC_RECV_BUF_SIZE" "err = None \<longrightarrow> take (length rest) buf2 = rest"
          "sess_step env fd s s1 gs"
          using drain_eq [OF assms(1) b1(2) k(2) less.prems(4), unfolded b1(3), OF sp] by blast
        have tne: "take ?k bs \<noteq> []" using k(1) by auto
        have k0: "?k \<noteq> 0" using k(1) by linarith
        have res: "(fs, c) = (case (gs, err, rest) of
            (fs, Some e, r) \<Rightarrow> (fs, True)
          | (fs, None, r) \<Rightarrow> (case conn_spec r ?evs of (fs', c) \<Rightarrow> (fs @ fs', c)))"
          unfolding less.prems(5) [symmetric] spec conn_spec.simps sp [symmetric] if_not_P [OF tne] ..
        show ?thesis
        proof (cases err)
          case (Some e)
          then have "fs = gs \<and> c = True" using res by simp
          with Some d b1(1) Cons Data show ?thesis
            by (simp add: client_loop.simps(2) Let_def if_not_P [OF k0])
        next
          case None
          have inc: "decode_bytes rest = Inl INCOMPLETE"
            using proto_stream.split_rest sp None by blast
          obtain gs' where cs: "conn_spec rest ?evs = (gs', c)" "fs = gs @ gs'"
            using res None by (auto split: prod.splits)
          have small: "sum_list (map event_size ?evs) < sum_list (map event_size evs)"
            using k(1) by (auto simp: Cons Data)
          have len: "length rest < IPC_RECV_BUF_SIZE" by (rule incomplete_short [OF inc])
          have "\<exists>s'. client_loop env fd buf2 (length rest) s1 ?evs = Some (c, s') \<and> sess_step env fd s1 s' gs'"
            by (rule less.hyps [OF small d(2) len])
               (use d(3,4) None inc cs(1) in \<open>simp_all add: sess_step_def\<close>)
          then obtain s2 where s2: "client_loop env fd buf2 (length rest) s1 ?evs = Some (c, s2)"
            "sess_step env fd s1 s2 gs'" by blast
          have "client_loop env fd buf n s evs = client_loop env fd buf2 (length rest) s1 ?evs"
            using None d(1) b1(1) len
            by (simp add: client_loop.simps(2) Let_def Cons Data if_not_P [OF k0])
          then have "client_loop env fd buf n s evs = Some (c, s2)" by (simp only: s2(1))
          with sess_step_trans [OF d(4) s2(2)] show ?thesis unfolding cs(2) by blast
        qed
      qed
    next
      case Recv_EINTR
      have small: "sum_list (map event_size evs') < sum_list (map event_size evs)"
        by (simp add: Cons Recv_EINTR)
      show ?thesis
        using less.hyps [OF small less.prems(1-4), of fs] less.prems(5)
        by (simp add: client_loop.simps(2) Cons Recv_EINTR)
    qed (use less.prems Cons in \<open>simp_all add: client_loop.simps(2) sess_step_refl\<close>)
  qed
qed

section \<open>The listening socket and the accept loop\<close>

text \<open>
  \<open>ipc_server_init\<close>: the value returned, \<open>g_ipc_fd\<close> and the descriptors left open, from the
  answers of \<open>socket\<close> and \<open>bind\<close> (for the address cut to 107 bytes); that of \<open>listen\<close> is not
  looked at, and the socket stays open when \<open>bind\<close> fails.
\<close>

definition ipc_server_init ::
    "int \<Rightarrow> (u8 list \<Rightarrow> int) \<Rightarrow> u8 list \<Rightarrow> int \<Rightarrow> int set \<Rightarrow> int \<times> int \<times> int set" where
  "ipc_server_init sock bind_to sockpath g_ipc_fd fds =
     (if sock < 0 then (-1, g_ipc_fd, fds)
      else let path = (strncpy (replicate 108 0) sockpath 107)[107 := 0]
           in if bind_to (cstr path) < 0 then (-1, g_ipc_fd, insert sock fds)
              else (sock, sock, insert sock fds))"

text \<open>
  The accept loop, one round after the other: the run flag it finds, what \<open>accept\<close> returned, and
  what happens on that connection. A connection that has not ended keeps the thread; the result
  says whether there is none.
\<close>

record conn =
  c_run :: run_state
  c_fd :: int
  c_env :: conn_env
  c_junk :: "u8 list"
  c_events :: "conn_event list"

fun ipc_thread :: "conn list \<Rightarrow> registry \<Rightarrow> (bool \<times> registry) option" where
  "ipc_thread [] r = Some (True, r)"
| "ipc_thread (c # cs) r =
     (if \<not> run_state_is_running (c_run c) then Some (True, r)
      else if c_fd c < 0 then ipc_thread cs r
      else case handle_client (c_env c) (c_fd c) (c_junk c) r (c_events c) of
        None \<Rightarrow> None
      | Some (closed, s) \<Rightarrow>
          if closed then ipc_thread cs (s_registry s) else Some (False, s_registry s))"

lemma decode_empty: "decode_bytes [] = Inl INCOMPLETE"
  by (simp add: decode_bytes_def PROTO_HDR_SIZE_def)

lemma handle_client_eq:
  assumes "env_ok env" and "length junk = IPC_RECV_BUF_SIZE" and "reg_inv r"
    and "conn_spec [] evs = (fs, closed)"
  shows "\<exists>s. handle_client env fd junk r evs = Some (closed, s) \<and> s_frames s = fs \<and> reg_inv (s_registry s)
    \<and> (closed \<longrightarrow> reg_entry (s_registry s) fd = None)
    \<and> (\<forall>fd'. fd' \<noteq> fd \<longrightarrow> reg_entry (s_registry s) fd' = reg_entry r fd')
    \<and> (\<exists>r1. conn_effect env fd 0 fs (r, []) = Some (r1, s_sent s)
        \<and> s_registry s = (if closed then snd (registry_unregister fd r1) else r1))"
proof -
  let ?s0 = "\<lparr>s_registry = r, s_frames = [], s_sent = []\<rparr>"
  have "\<exists>s. client_loop env fd junk 0 ?s0 evs = Some (closed, s) \<and> sess_step env fd ?s0 s fs"
    by (rule client_loop_eq [OF assms(1,2)])
       (use assms(3,4) in \<open>simp_all add: decode_empty IPC_RECV_BUF_SIZE_eq\<close>)
  then obtain s where s: "client_loop env fd junk 0 ?s0 evs = Some (closed, s)" "sess_step env fd ?s0 s fs"
    by blast
  then have inv: "reg_inv (s_registry s)" by (simp add: sess_step_def)
  show ?thesis
    using s unregister_entry(2) [OF inv, of fd] reg_inv_unregister [OF inv, of fd]
    by (auto simp: handle_client_def sess_step_def)
qed

definition conn_ok :: "conn \<Rightarrow> bool" where
  "conn_ok c \<longleftrightarrow> env_ok (c_env c) \<and> length (c_junk c) = IPC_RECV_BUF_SIZE"

lemma ipc_thread_eq:
  "reg_inv r \<Longrightarrow> \<forall>c \<in> set cs. conn_ok c \<Longrightarrow>
     \<exists>idle r'. ipc_thread cs r = Some (idle, r') \<and> reg_inv r'
       \<and> (\<forall>fd. fd \<notin> c_fd ` set cs \<longrightarrow> reg_entry r' fd = reg_entry r fd)
       \<and> (idle \<and> reg_entry r = Map.empty \<longrightarrow> reg_entry r' = Map.empty)"
proof (induction cs arbitrary: r)
  case Nil
  then show ?case by (intro exI [of _ True] exI [of _ r]) simp
next
  case (Cons c cs)
  consider (stopped) "\<not> run_state_is_running (c_run c)" | (failed) "run_state_is_running (c_run c)" "c_fd c < 0"
    | (served) "run_state_is_running (c_run c)" "\<not> c_fd c < 0" by blast
  then show ?case
  proof cases
    case stopped
    with Cons.prems show ?thesis by (intro exI [of _ True] exI [of _ r]) simp
  next
    case failed
    with Cons show ?thesis by fastforce
  next
    case served
    obtain fs closed where sp: "conn_spec [] (c_events c) = (fs, closed)"
      by (cases "conn_spec [] (c_events c)")
    obtain s where s: "handle_client (c_env c) (c_fd c) (c_junk c) r (c_events c) = Some (closed, s)"
      "reg_inv (s_registry s)" "closed \<longrightarrow> reg_entry (s_registry s) (c_fd c) = None"
      "\<forall>fd'. fd' \<noteq> c_fd c \<longrightarrow> reg_entry (s_registry s) fd' = reg_entry r fd'"
      using handle_client_eq [OF _ _ Cons.prems(1) sp, of "c_env c" "c_junk c" "c_fd c"] Cons.prems(2)
      by (auto simp: conn_ok_def)
    show ?thesis
    proof (cases closed)
      case True
      obtain idle r' where r': "ipc_thread cs (s_registry s) = Some (idle, r')" "reg_inv r'"
        "\<forall>fd. fd \<notin> c_fd ` set cs \<longrightarrow> reg_entry r' fd = reg_entry (s_registry s) fd"
        "idle \<and> reg_entry (s_registry s) = Map.empty \<longrightarrow> reg_entry r' = Map.empty"
        using Cons.IH [OF s(2)] Cons.prems(2) by auto
      have "reg_entry (s_registry s) = Map.empty" if "reg_entry r = Map.empty"
        using s(3,4) True that by (auto simp: fun_eq_iff) metis
      with True served s r' show ?thesis by auto
    next
      case pending: False
      with served s Cons.prems show ?thesis by auto
    qed
  qed
qed

text \<open>Chunks of a stream.\<close>

lemma conn_spec_feed:
  "list_all (\<lambda>c. c \<noteq> []) cs \<Longrightarrow> conn_spec p (map Data cs) =
     (case feed_chunks decode_bytes frame_len INCOMPLETE p cs of (fs, e) \<Rightarrow> (fs, e \<noteq> None))"
  by (induction cs arbitrary: p) (auto split: prod.splits option.splits)

lemma conn_spec_chunks:
  assumes "list_all (\<lambda>c. c \<noteq> []) chunks"
    and "split_stream decode_bytes frame_len INCOMPLETE (concat chunks) = (fs, err, rest)"
  shows "conn_spec [] (map Data chunks) = (fs, err \<noteq> None)"
  unfolding conn_spec_feed [OF assms(1)] proto_stream.feed_chunks_eq [OF decode_empty]
  by (simp add: assms(2))

lemma ipc_thread_one:
  assumes "reg_inv r" and "reg_entry r = Map.empty" and "\<forall>c \<in> set cs. conn_ok c"
    and "ipc_thread cs r = Some (idle, r')"
  shows "reg_inv r' \<and> (if idle then reg_entry r' = Map.empty else \<exists>c \<in> set cs. dom (reg_entry r') \<subseteq> {c_fd c})"
  using assms
proof (induction cs arbitrary: r)
  case Nil
  then show ?case by simp
next
  case (Cons c cs)
  consider (stopped) "\<not> run_state_is_running (c_run c)" | (failed) "run_state_is_running (c_run c)" "c_fd c < 0"
    | (served) "run_state_is_running (c_run c)" "\<not> c_fd c < 0" by blast
  then show ?case
  proof cases
    case stopped
    with Cons.prems show ?thesis by auto
  next
    case failed
    with Cons show ?thesis by auto
  next
    case served
    have c: "env_ok (c_env c)" "length (c_junk c) = IPC_RECV_BUF_SIZE"
      using Cons.prems(3) by (simp_all add: conn_ok_def)
    obtain fs closed where sp: "conn_spec [] (c_events c) = (fs, closed)" by (cases "conn_spec [] (c_events c)")
    from handle_client_eq [OF c Cons.prems(1) sp, of "c_fd c"] obtain s where
      s: "handle_client (c_env c) (c_fd c) (c_junk c) r (c_events c) = Some (closed, s)"
      "reg_inv (s_registry s)" "closed \<longrightarrow> reg_entry (s_registry s) (c_fd c) = None"
      "\<forall>fd'. fd' \<noteq> c_fd c \<longrightarrow> reg_entry (s_registry s) fd' = None"
      using Cons.prems(2) by auto
    show ?thesis
    proof (cases closed)
      case True
      then have e: "reg_entry (s_registry s) = Map.empty" using s(3,4) by (metis ext)
      from True served s(1) Cons.prems(4) have "ipc_thread cs (s_registry s) = Some (idle, r')" by simp
      from Cons.IH [OF s(2) e _ this] Cons.prems(3) show ?thesis by (auto split: if_splits)
    next
      case open_conn: False
      with served s(1) Cons.prems(4) have "\<not> idle" "r' = s_registry s" by auto
      moreover have "dom (reg_entry (s_registry s)) \<subseteq> {c_fd c}"
      proof
        fix d assume "d \<in> dom (reg_entry (s_registry s))"
        with s(4) show "d \<in> {c_fd c}" by (metis domIff insertI1)
      qed
      ultimately show ?thesis using s(2) by simp
    qed
  qed
qed

section \<open>Properties\<close>

text \<open>
  C9. However the operating system cuts the byte stream of a client into pieces, the
  connection dispatches exactly the frames of the whole stream, in order, each with its
  header and payload; it stays open while the stream is a sequence of valid frames and the
  beginning of one, and is closed at the first byte sequence that no frame can start with.
  No access leaves the receive buffer.
\<close>

theorem ipc_frames_of_stream:
  assumes "env_ok env" and "length junk = 65548" and "reg_inv r" and "list_all (\<lambda>c. c \<noteq> []) chunks"
    and "split_stream decode_bytes frame_len INCOMPLETE (concat chunks) = (fs, err, rest)"
  shows "\<exists>s. handle_client env fd junk r (map Data chunks) = Some (err \<noteq> None, s) \<and> s_frames s = fs"
proof -
  have "length junk = IPC_RECV_BUF_SIZE" using assms(2) by (simp add: IPC_RECV_BUF_SIZE_eq)
  with conn_spec_chunks [OF assms(4,5)] show ?thesis
    using handle_client_eq [OF assms(1) _ assms(3)] by blast
qed

text \<open>
  A connection never harms the others: whatever happens on it, the loop never leaves its
  buffer, the table stays well formed, only the entry of this connection can change, and when
  the connection ends (end of file, errors, corrupt data, shutdown) that entry is gone.
\<close>

theorem ipc_connection_isolated:
  assumes "env_ok env" and "length junk = 65548" and "reg_inv r"
  shows "\<exists>closed s. handle_client env fd junk r evs = Some (closed, s) \<and> reg_inv (s_registry s)
    \<and> (if closed then reg_entry (s_registry s) fd = None else True)
    \<and> (\<forall>fd'. fd' \<noteq> fd \<longrightarrow> reg_entry (s_registry s) fd' = reg_entry r fd')"
proof -
  obtain fs closed where sp: "conn_spec [] evs = (fs, closed)" by (cases "conn_spec [] evs")
  have "length junk = IPC_RECV_BUF_SIZE" using assms(2) by (simp add: IPC_RECV_BUF_SIZE_eq)
  from handle_client_eq [OF assms(1) this assms(3) sp, of fd] show ?thesis
    by (intro exI [of _ closed]) auto
qed

text \<open>
  C30. The registry does not leak: starting with no registrations, after any sequence of
  connections that have all ended there is none, whatever they sent and however they ended.
  The thread serves one connection at a time, so while one is open at most that one program is
  registered, and every later connection waits until it ends.
\<close>

theorem ipc_thread_no_leak:
  assumes "reg_inv r" and "reg_entry r = Map.empty" and "\<forall>c \<in> set cs. conn_ok c"
  shows "case ipc_thread cs r of None \<Rightarrow> False
    | Some (idle, r') \<Rightarrow> reg_inv r' \<and>
        (if idle then reg_entry r' = Map.empty else \<exists>c \<in> set cs. dom (reg_entry r') \<subseteq> {c_fd c})"
proof -
  from ipc_thread_eq [OF assms(1,3)] obtain idle r' where "ipc_thread cs r = Some (idle, r')" by auto
  with ipc_thread_one [OF assms this] show ?thesis by simp
qed

definition demo_env :: conn_env where
  "demo_env = \<lparr>env_parser = demo_parser, env_clock = (\<lambda>k. \<lparr>tv_sec = 1, tv_nsec = 0\<rparr>),
     env_send = (\<lambda>k. replicate 33 (Wrote 1))\<rparr>"

lemma demo_env_ok: "env_ok demo_env"
  by (simp add: env_ok_def demo_env_def)

theorem ipc_frames_of_stream_witness:
  "\<exists>s. handle_client demo_env 4 (replicate 65548 9) registry_static
     (map Data [[0x7C, 0xEB, 1], [3, 0, 0, 0, 0, 0, 0, 0, 0, 0x7C]]) = Some (False, s)
     \<and> s_frames s = [(\<lparr>magic = PROTO_MAGIC, version = 1, cmd = 3, seq = 0, payload_len = 0\<rparr>, [])]"
proof -
  have s: "split_stream decode_bytes frame_len INCOMPLETE
      (concat [[0x7C, 0xEB, 1], [3, 0, 0, 0, 0, 0, 0, 0, 0, 0x7C]]) =
    ([(\<lparr>magic = PROTO_MAGIC, version = 1, cmd = 3, seq = 0, payload_len = 0\<rparr>, [])], None, [0x7C])"
    by code_simp
  have j: "length (replicate 65548 (9 :: u8)) = 65548" by (rule length_replicate)
  from ipc_frames_of_stream [OF demo_env_ok j reg_inv_static _ s, of 4] show ?thesis by simp
qed

theorem ipc_connection_isolated_witness:
  "\<exists>closed s. handle_client demo_env 4 (replicate 65548 9) registry_static [Data [1], Eof] = Some (closed, s)"
proof -
  have j: "length (replicate 65548 (9 :: u8)) = 65548" by (rule length_replicate)
  from ipc_connection_isolated [OF demo_env_ok j reg_inv_static, of 4 "[Data [1], Eof]"] show ?thesis
    by blast
qed

theorem ipc_thread_no_leak_witness:
  "ipc_thread [\<lparr>c_run = run_state_static, c_fd = 4, c_env = demo_env, c_junk = replicate 65548 9, c_events = [Eof]\<rparr>] registry_static \<noteq> None"
proof -
  have e: "reg_entry registry_static = Map.empty"
    by (simp add: reg_entry_uninit registry_static_def)
  have c: "\<forall>c \<in> set [\<lparr>c_run = run_state_static, c_fd = 4, c_env = demo_env, c_junk = replicate 65548 9, c_events = [Eof]\<rparr>]. conn_ok c"
    by (simp add: conn_ok_def demo_env_ok IPC_RECV_BUF_SIZE_eq)
  from ipc_thread_no_leak [OF reg_inv_static e c] show ?thesis by (auto split: option.splits)
qed

end
