(* ===== verification/Sdk.thy ===== *)
theory Sdk
  imports IpcServer
begin

text \<open>
  The client library of the older protocol: \<^verbatim>\<open>sdk/ez_router_sdk.h\<close> and
  \<^verbatim>\<open>sdk/ez_router_sdk.c\<close>. The operations build a frame in a block from \<open>malloc\<close> and hand it
  to one call of \<open>send\<close>, whose result they ignore; the frame is their output. \<open>mem n\<close> is the
  block \<open>malloc(n)\<close> returns, with the bytes it holds. \<open>None\<close> is an access through NULL or
  outside a block.
\<close>

section \<open>Data\<close>

definition MAX_LINKS :: nat where "MAX_LINKS = 64"
definition IPC_MAGIC :: u32 where "IPC_MAGIC = 0xE7F12345"
definition CMD_SET_ROUTES :: u16 where "CMD_SET_ROUTES = 1"
definition CMD_CLEAR_ROUTES :: u16 where "CMD_CLEAR_ROUTES = 2"
definition CMD_SAVE_CONFIG :: u16 where "CMD_SAVE_CONFIG = 3"
definition CMD_LOAD_PLUGIN :: u16 where "CMD_LOAD_PLUGIN = 4"
definition CMD_UNLOAD_PLUGIN :: u16 where "CMD_UNLOAD_PLUGIN = 5"

record ez_router_link =
  in_port :: int
  out_port :: int
  bidir :: int
  hook_in_plugin :: cbuf
  hook_in_func :: cbuf
  hook_out_plugin :: cbuf
  hook_out_func :: cbuf

text \<open>Its image in memory: three \<open>int\<close>s and four arrays of 64, 268 bytes without padding.\<close>

definition link_bytes :: "ez_router_link \<Rightarrow> u8 list" where
  "link_bytes l = le32 (word_of_int (in_port l)) @ le32 (word_of_int (out_port l)) @ le32 (word_of_int (bidir l))
     @ hook_in_plugin l @ hook_in_func l @ hook_out_plugin l @ hook_out_func l"

definition SIZEOF_LINK :: nat where "SIZEOF_LINK = 268"
definition SIZEOF_IPC_HEADER :: nat where "SIZEOF_IPC_HEADER = 12"

text \<open>
  The assignments to the fields of \<open>ipc_header_t\<close> at the start of a block; \<open>None\<close> for a
  reserved field that is not assigned.
\<close>

definition put_header :: "u16 \<Rightarrow> u16 option \<Rightarrow> u32 \<Rightarrow> u8 list \<Rightarrow> u8 list option" where
  "put_header c reserved len blk = do {
     b \<leftarrow> memcpy blk 0 (le32 IPC_MAGIC) 4;
     b \<leftarrow> memcpy b 4 (le16 c) 2;
     b \<leftarrow> (case reserved of None \<Rightarrow> Some b | Some r \<Rightarrow> memcpy b 6 (le16 r) 2);
     memcpy b 8 (le32 len) 4 }"

text \<open>The connection, and the descriptors of the process.\<close>

record sdk =
  g_sdk_fd :: int
  sdk_fds :: "int set"

definition sdk_static :: sdk where
  "sdk_static = \<lparr>g_sdk_fd = -1, sdk_fds = {}\<rparr>"

section \<open>Operations\<close>

text \<open>\<open>sock\<close> and \<open>accepted\<close> are what \<open>socket\<close> and \<open>connect\<close> answer; \<open>sun_path\<close> has 108 bytes.\<close>

definition ezr_connect :: "int \<Rightarrow> bool \<Rightarrow> u8 list \<Rightarrow> int set \<Rightarrow> (int \<times> int set) option" where
  "ezr_connect sock accepted sockpath fds =
     (if sock < 0 then Some (-1, fds)
      else do {
        sun_path \<leftarrow> memcpy (replicate 108 0) 0 (cstr sockpath @ [0]) (length (cstr sockpath) + 1);
        if \<not> accepted then Some (-1, fds) else Some (sock, insert sock fds) })"

definition ezr_init :: "int \<Rightarrow> bool \<Rightarrow> u8 list \<Rightarrow> sdk \<Rightarrow> (int \<times> sdk) option" where
  "ezr_init sock accepted sockpath s = do {
     (d, fds) \<leftarrow> ezr_connect sock accepted sockpath (sdk_fds s);
     Some (if d < 0 then -1 else 0, s\<lparr>g_sdk_fd := d, sdk_fds := fds\<rparr>) }"

definition ezr_clear_routes :: "(u32 \<Rightarrow> u8 list option) \<Rightarrow> sdk \<Rightarrow> (int \<times> u8 list option) option" where
  "ezr_clear_routes mem s =
     (if g_sdk_fd s < 0 then Some (-1, None)
      else do {
        hdr \<leftarrow> mem 12;
        hdr \<leftarrow> put_header CMD_CLEAR_ROUTES None 0 hdr;
        Some (0, Some (take SIZEOF_IPC_HEADER hdr)) })"

text \<open>
  \<open>links\<close> is the caller's array. The product with the \<open>int\<close> count is taken in \<open>size_t\<close>, the
  two lengths are cut to 32 bits.
\<close>

definition ezr_set_routes ::
    "(u32 \<Rightarrow> u8 list option) \<Rightarrow> ez_router_link list \<Rightarrow> int \<Rightarrow> sdk \<Rightarrow> (int \<times> u8 list option) option" where
  "ezr_set_routes mem links count s =
     (if g_sdk_fd s < 0 then Some (-1, None)
      else
        let size = word_of_nat SIZEOF_LINK * word_of_int count :: u64;
            payload_len = ucast (4 + size) :: u32;
            frame_len = ucast (word_of_nat SIZEOF_IPC_HEADER + ucast payload_len :: u64) :: u32
        in do {
          buf \<leftarrow> mem frame_len;
          buf \<leftarrow> put_header CMD_SET_ROUTES None payload_len buf;
          buf \<leftarrow> memcpy buf SIZEOF_IPC_HEADER (le32 (word_of_int count)) 4;
          buf \<leftarrow> memcpy buf (SIZEOF_IPC_HEADER + 4) (concat (map link_bytes links)) (unat size);
          Some (0, Some (take (unat frame_len) buf)) })"

definition ezr_save_config :: "(u32 \<Rightarrow> u8 list option) \<Rightarrow> sdk \<Rightarrow> (int \<times> u8 list option) option" where
  "ezr_save_config mem s =
     (if g_sdk_fd s < 0 then Some (-1, None)
      else do {
        hdr \<leftarrow> mem 12;
        hdr \<leftarrow> put_header CMD_SAVE_CONFIG None 0 hdr;
        Some (0, Some (take SIZEOF_IPC_HEADER hdr)) })"

definition ezr_load_plugin ::
    "(u32 \<Rightarrow> u8 list option) \<Rightarrow> u8 list \<Rightarrow> sdk \<Rightarrow> (int \<times> u8 list option) option" where
  "ezr_load_plugin mem plugin_path s =
     (if g_sdk_fd s < 0 then Some (-1, None)
      else
        let path_len = word_of_nat (length (cstr plugin_path) + 1) :: u32;
            payload_len = ucast (4 + ucast path_len :: u64) :: u32;
            frame_len = ucast (word_of_nat SIZEOF_IPC_HEADER + ucast payload_len :: u64) :: u32
        in case mem frame_len of
             None \<Rightarrow> Some (-1, None)
           | Some buf \<Rightarrow> do {
               buf \<leftarrow> put_header CMD_LOAD_PLUGIN (Some 0) payload_len buf;
               buf \<leftarrow> memcpy buf SIZEOF_IPC_HEADER (le32 path_len) 4;
               buf \<leftarrow> memcpy buf (SIZEOF_IPC_HEADER + 4) (cstr plugin_path @ [0]) (unat path_len);
               Some (0, Some (take (unat frame_len) buf)) })"

definition ezr_unload_plugin ::
    "(u32 \<Rightarrow> u8 list option) \<Rightarrow> u8 list \<Rightarrow> sdk \<Rightarrow> (int \<times> u8 list option) option" where
  "ezr_unload_plugin mem plugin_path s =
     (if g_sdk_fd s < 0 then Some (-1, None)
      else
        let path_len = word_of_nat (length (cstr plugin_path) + 1) :: u32;
            payload_len = ucast (4 + ucast path_len :: u64) :: u32;
            frame_len = ucast (word_of_nat SIZEOF_IPC_HEADER + ucast payload_len :: u64) :: u32
        in case mem frame_len of
             None \<Rightarrow> Some (-1, None)
           | Some buf \<Rightarrow> do {
               buf \<leftarrow> put_header CMD_UNLOAD_PLUGIN (Some 0) payload_len buf;
               buf \<leftarrow> memcpy buf SIZEOF_IPC_HEADER (le32 path_len) 4;
               buf \<leftarrow> memcpy buf (SIZEOF_IPC_HEADER + 4) (cstr plugin_path @ [0]) (unat path_len);
               Some (0, Some (take (unat frame_len) buf)) })"

definition ezr_close :: "sdk \<Rightarrow> sdk" where
  "ezr_close s =
     (if 0 \<le> g_sdk_fd s then s\<lparr>sdk_fds := sdk_fds s - {g_sdk_fd s}, g_sdk_fd := -1\<rparr> else s)"

text \<open>The calls that send a frame.\<close>

datatype sdk_call =
    Clear_routes | Set_routes "ez_router_link list" int | Save_config
  | Load_plugin "u8 list" | Unload_plugin "u8 list"

fun sdk_send :: "(u32 \<Rightarrow> u8 list option) \<Rightarrow> sdk_call \<Rightarrow> sdk \<Rightarrow> (int \<times> u8 list option) option" where
  "sdk_send mem Clear_routes s = ezr_clear_routes mem s"
| "sdk_send mem (Set_routes links count) s = ezr_set_routes mem links count s"
| "sdk_send mem Save_config s = ezr_save_config mem s"
| "sdk_send mem (Load_plugin path) s = ezr_load_plugin mem path s"
| "sdk_send mem (Unload_plugin path) s = ezr_unload_plugin mem path s"

section \<open>Frames\<close>

lemma length_le [simp]: "length (le16 w) = 2" "length (le32 w') = 4"
  by (simp_all add: le16_def le32_def)

lemma put_header_Some:
  assumes "put_header c res len blk = Some b"
  shows "length b = length blk" and "12 \<le> length blk" and "take 4 b = le32 IPC_MAGIC"
proof -
  have len: "length b = length blk" "12 \<le> length blk"
    using assms by (auto simp: put_header_def memcpy_def split: if_splits bind_splits option.splits)
  then show "length b = length blk" "12 \<le> length blk" by simp_all
  show "take 4 b = le32 IPC_MAGIC"
    using assms by (auto simp: put_header_def memcpy_def split: if_splits bind_splits option.splits)
qed

lemma memcpy_keeps:
  assumes "memcpy dst off src n = Some dst'" and "k \<le> off"
  shows "take k dst' = take k dst" and "length dst' = length dst"
  using assms by (auto simp: memcpy_def min_def split: if_splits)


text \<open>What \<open>malloc\<close> promises: a block of the size asked for, when it gives one.\<close>

definition mem_ok :: "(u32 \<Rightarrow> u8 list option) \<Rightarrow> bool" where
  "mem_ok mem \<longleftrightarrow> (\<forall>n b. mem n = Some b \<longrightarrow> length b = unat n)"

lemma sdk_frame_head:
  assumes "mem_ok mem" and "sdk_send mem call s = Some (rc, Some frame)"
  shows "12 \<le> length frame \<and> take 4 frame = le32 IPC_MAGIC"
proof (cases call)
  case Clear_routes
  with assms obtain blk b where "mem 12 = Some blk" "put_header CMD_CLEAR_ROUTES None 0 blk = Some b"
    "frame = take 12 b"
    by (auto simp: ezr_clear_routes_def SIZEOF_IPC_HEADER_def split: if_splits bind_splits)
  with put_header_Some [OF this(2)] show ?thesis by (simp add: min_def)
next
  case Save_config
  with assms obtain blk b where "mem 12 = Some blk" "put_header CMD_SAVE_CONFIG None 0 blk = Some b"
    "frame = take 12 b"
    by (auto simp: ezr_save_config_def SIZEOF_IPC_HEADER_def split: if_splits bind_splits)
  with put_header_Some [OF this(2)] show ?thesis by (simp add: min_def)
next
  case (Set_routes links count)
  with assms obtain n p blk b b1 b2 src k where f: "mem n = Some blk" "put_header CMD_SET_ROUTES None p blk = Some b"
    "memcpy b 12 (le32 (word_of_int count)) 4 = Some b1" "memcpy b1 16 src k = Some b2"
    "frame = take (unat n) b2"
    by (auto simp: ezr_set_routes_def SIZEOF_IPC_HEADER_def Let_def split: if_splits bind_splits)
  then have "length blk = unat n" using assms(1) by (simp add: mem_ok_def)
  with f(5) show ?thesis
    using put_header_Some [OF f(2)] memcpy_keeps [OF f(3), of 4] memcpy_keeps [OF f(4), of 4]
    by simp
next
  case (Load_plugin path)
  with assms obtain n p blk b b1 b2 src k l where f: "mem n = Some blk"
    "put_header CMD_LOAD_PLUGIN (Some 0) p blk = Some b"
    "memcpy b 12 l 4 = Some b1" "memcpy b1 16 src k = Some b2" "frame = take (unat n) b2"
    by (auto simp: ezr_load_plugin_def SIZEOF_IPC_HEADER_def Let_def split: if_splits bind_splits option.splits)
  then have "length blk = unat n" using assms(1) by (simp add: mem_ok_def)
  with f(5) show ?thesis
    using put_header_Some [OF f(2)] memcpy_keeps [OF f(3), of 4] memcpy_keeps [OF f(4), of 4]
    by simp
next
  case (Unload_plugin path)
  with assms obtain n p blk b b1 b2 src k l where f: "mem n = Some blk"
    "put_header CMD_UNLOAD_PLUGIN (Some 0) p blk = Some b"
    "memcpy b 12 l 4 = Some b1" "memcpy b1 16 src k = Some b2" "frame = take (unat n) b2"
    by (auto simp: ezr_unload_plugin_def SIZEOF_IPC_HEADER_def Let_def split: if_splits bind_splits option.splits)
  then have "length blk = unat n" using assms(1) by (simp add: mem_ok_def)
  with f(5) show ?thesis
    using put_header_Some [OF f(2)] memcpy_keeps [OF f(3), of 4] memcpy_keeps [OF f(4), of 4]
    by simp
qed

lemma old_magic_rejected:
  assumes "12 \<le> length bs" and "take 4 bs = le32 IPC_MAGIC"
  shows "decode_bytes bs = Inl BAD_MAGIC"
proof -
  have "bs ! 0 = take 4 bs ! 0" and "bs ! 1 = take 4 bs ! 1" by simp_all
  then have "bs ! 0 = 0x45" and "bs ! 1 = 0x23"
    by (simp_all add: assms(2) le32_def IPC_MAGIC_def drop_bit_eq_div)
  then have "magic (hdr_of_bytes bs) \<noteq> PROTO_MAGIC"
    by (simp add: hdr_of_bytes_def magic_iff)
  with assms(1) show ?thesis by (simp add: decode_bytes_def Let_def PROTO_HDR_SIZE_def)
qed

section \<open>Properties\<close>

text \<open>
  C37. The router refuses the older protocol as documented: whatever call of the library sends
  first on a new connection, and however the bytes arrive, the router dispatches no frame,
  changes no other registration, leaves none for this connection, and closes it.
\<close>

theorem sdk_frames_rejected:
  assumes "mem_ok mem" and "sdk_send mem call s = Some (rc, Some frame)"
    and "env_ok env" and "length junk = 65548" and "reg_inv r"
    and "list_all (\<lambda>c. c \<noteq> []) chunks" and "concat chunks = frame @ rest"
  shows "\<exists>s'. handle_client env fd junk r (map Data chunks) = Some (True, s') \<and> s_frames s' = []
    \<and> reg_entry (s_registry s') = (reg_entry r)(fd := None)"
proof -
  have head: "12 \<le> length (concat chunks)" "take 4 (concat chunks) = le32 IPC_MAGIC"
    using sdk_frame_head [OF assms(1,2)] by (simp_all add: assms(7))
  have "split_stream decode_bytes frame_len INCOMPLETE (concat chunks) = ([], Some BAD_MAGIC, concat chunks)"
    by (rule proto_stream.split_error [OF old_magic_rejected [OF head]]) simp
  from conn_spec_chunks [OF assms(6) this] have sp: "conn_spec [] (map Data chunks) = ([], True)" by simp
  have "length junk = IPC_RECV_BUF_SIZE" using assms(4) by (simp add: IPC_RECV_BUF_SIZE_eq)
  from handle_client_eq [OF assms(3) this assms(5) sp, of fd] show ?thesis
    by (auto simp: fun_eq_iff)
qed

theorem sdk_frames_rejected_witness:
  "\<exists>s'. handle_client demo_env 4 (replicate 65548 9) registry_static
     [Data [0x45, 0x23], Data [0xF1, 0xE7, 2, 0, 7, 7, 0, 0, 0, 0]] = Some (True, s') \<and> s_frames s' = []"
proof -
  let ?mem = "\<lambda>n :: u32. if n = 12 then Some (replicate 12 (7 :: u8)) else None"
  let ?frame = "[0x45, 0x23, 0xF1, 0xE7, 2, 0, 7, 7, 0, 0, 0, 0] :: u8 list"
  have m: "mem_ok ?mem" by (simp add: mem_ok_def)
  have f: "sdk_send ?mem Clear_routes \<lparr>g_sdk_fd = 3, sdk_fds = {3}\<rparr> = Some (0, Some ?frame)"
    by code_simp
  have j: "length (replicate 65548 (9 :: u8)) = 65548" by (rule length_replicate)
  from sdk_frames_rejected [OF m f demo_env_ok j reg_inv_static,
      of "[[0x45, 0x23], [0xF1, 0xE7, 2, 0, 7, 7, 0, 0, 0, 0]]" "[]" 4]
  show ?thesis by auto
qed


section \<open>The frame of \<open>ezr_set_routes\<close>\<close>

definition link_ok :: "ez_router_link \<Rightarrow> bool" where
  "link_ok l \<longleftrightarrow> length (hook_in_plugin l) = 64 \<and> length (hook_in_func l) = 64
     \<and> length (hook_out_plugin l) = 64 \<and> length (hook_out_func l) = 64"

lemma length_link_bytes: "link_ok l \<Longrightarrow> length (link_bytes l) = 268"
  by (simp add: link_ok_def link_bytes_def)

lemma length_links: "list_all link_ok links \<Longrightarrow> length (concat (map link_bytes links)) = 268 * length links"
  by (induction links) (simp_all add: length_link_bytes)

lemma take_links:
  "list_all link_ok links \<Longrightarrow> take (268 * c) (concat (map link_bytes links)) = concat (map link_bytes (take c links))"
proof (induction links arbitrary: c)
  case Nil
  then show ?case by simp
next
  case (Cons l links)
  then show ?case by (cases c) (simp_all add: length_link_bytes)
qed

lemma put_header_eq:
  assumes "12 \<le> length blk"
  shows "put_header c None len blk =
    Some (le32 IPC_MAGIC @ le16 c @ take 2 (drop 6 blk) @ le32 len @ drop 12 blk)"
  using assms by (simp add: put_header_def mem_simps take_drop)

text \<open>The lengths as numbers: \<open>size\<close> wraps at 64 bits, the lengths of the frame at 32.\<close>

lemma links_size: "word_of_nat SIZEOF_LINK * word_of_int count = (word_of_int (268 * count) :: u64)"
  by (simp add: SIZEOF_LINK_def)

lemma ucast_of_int: "(ucast (word_of_int k :: u64) :: u32) = word_of_int k"
  by (simp add: word_uint_eq_iff unsigned_ucast_eq uint_word_of_int take_bit_eq_mod mod_mod_cancel)

lemma cut_length: "ucast (4 + word_of_int k :: u64) = (word_of_int (4 + k) :: u32)"
  using ucast_of_int [of "4 + k"] by simp

lemma frame_length: "ucast (word_of_nat SIZEOF_IPC_HEADER + ucast (word_of_int k :: u32) :: u64) = (word_of_int (12 + k) :: u32)"
proof -
  have up: "(ucast (word_of_int k :: u32) :: u64) = word_of_int (k mod 2 ^ 32)"
    by (simp add: word_uint_eq_iff unsigned_ucast_eq uint_word_of_int take_bit_eq_mod)
  have "ucast (word_of_nat SIZEOF_IPC_HEADER + ucast (word_of_int k :: u32) :: u64)
      = (ucast (word_of_int (12 + k mod 2 ^ 32) :: u64) :: u32)"
    unfolding up SIZEOF_IPC_HEADER_def by simp
  also have "\<dots> = word_of_int (12 + k mod 2 ^ 32)" by (rule ucast_of_int)
  also have "\<dots> = word_of_int (12 + k)"
    by (simp only: word_uint_eq_iff uint_word_of_int) (simp add: mod_simps)
  finally show ?thesis .
qed

lemma unat_size: "- (2 ^ 31) \<le> count \<Longrightarrow> count < 2 ^ 31 \<Longrightarrow>
  unat (word_of_int (268 * count) :: u64) = (if 0 \<le> count then nat (268 * count) else nat (2 ^ 64 + 268 * count))"
proof -
  assume c: "- (2 ^ 31) \<le> count" "count < 2 ^ 31"
  have "uint (word_of_int (268 * count) :: u64) = (if 0 \<le> count then 268 * count else 2 ^ 64 + 268 * count)"
  proof (cases "0 \<le> count")
    case True
    have "(268 * count) mod 2 ^ 64 = 268 * count" using c True by (intro mod_pos_pos_trivial) simp_all
    with True show ?thesis by (simp only: uint_word_of_int if_True) simp
  next
    case False
    have "(268 * count) mod 2 ^ 64 = (2 ^ 64 + 268 * count) mod 2 ^ 64" by simp
    also have "\<dots> = 2 ^ 64 + 268 * count" using c False by (intro mod_pos_pos_trivial) simp_all
    finally show ?thesis using False by (simp only: uint_word_of_int if_False) simp
  qed
  then show ?thesis by (simp add: unat_eq_nat_uint)
qed


lemma set_routes_fits:
  assumes "length blk = 16 + n" and "n \<le> length src"
  shows "do { b \<leftarrow> put_header c None len blk; b \<leftarrow> memcpy b 12 (le32 cnt) 4; memcpy b 16 src n }
    = Some (le32 IPC_MAGIC @ le16 c @ take 2 (drop 6 blk) @ le32 len @ le32 cnt @ take n src)"
proof -
  have "12 \<le> length blk" using assms(1) by simp
  from put_header_eq [OF this] show ?thesis
    using assms by (simp add: mem_simps)
qed

lemma set_routes_overflows:
  assumes "length blk < 16 + n \<or> length src < n"
  shows "do { b \<leftarrow> put_header c None len blk; b \<leftarrow> memcpy b 12 (le32 cnt) 4; memcpy b 16 src n } = None"
proof (cases "put_header c None len blk")
  case (Some b)
  with put_header_Some(1) [OF Some] assms show ?thesis
    by (auto simp: memcpy_def split: bind_splits)
qed simp

text \<open>
  C36. \<open>ezr_set_routes\<close> stays inside its memory exactly when the count is not negative, not
  larger than the caller's array, and the frame's length fits 32 bits; then it hands to \<open>send\<close>
  the frame of the older protocol: the magic, the command, two bytes \<open>malloc\<close> left behind, the
  length of the payload, the count, and the images of the first \<open>count\<close> links. The code checks
  none of the three.
\<close>

theorem sdk_set_routes_exact:
  assumes "0 \<le> g_sdk_fd s" and "\<And>n. mem n = Some (blk n) \<and> length (blk n) = unat n"
    and "list_all link_ok links" and "length links < 2 ^ 31" and "- (2 ^ 31) \<le> count" and "count < 2 ^ 31"
  shows "ezr_set_routes mem links count s =
    (if 0 \<le> count \<and> nat count \<le> length links \<and> 16 + 268 * count < 2 ^ 32
     then Some (0, Some (le32 IPC_MAGIC @ le16 CMD_SET_ROUTES
       @ take 2 (drop 6 (blk (word_of_int (16 + 268 * count)))) @ le32 (word_of_int (4 + 268 * count))
       @ le32 (word_of_int count) @ concat (map link_bytes (take (nat count) links))))
     else None)"
proof -
  let ?n = "unat (word_of_int (268 * count) :: u64)"
  let ?src = "concat (map link_bytes links)" and ?fl = "word_of_int (16 + 268 * count) :: u32"
  let ?body = "do { b \<leftarrow> put_header CMD_SET_ROUTES None (word_of_int (4 + 268 * count)) (blk ?fl);
    b \<leftarrow> memcpy b 12 (le32 (word_of_int count)) 4; memcpy b 16 ?src ?n }"
  have "12 + (4 + 268 * count) = 16 + 268 * count" by simp
  then have call: "ezr_set_routes mem links count s =
      do { b \<leftarrow> ?body; Some (0, Some (take (unat ?fl) b)) }"
    using assms(1,2) unfolding ezr_set_routes_def Let_def links_size cut_length frame_length
    by (simp add: SIZEOF_IPC_HEADER_def)
  have n: "?n = (if 0 \<le> count then nat (268 * count) else nat (2 ^ 64 + 268 * count))"
    by (rule unat_size [OF assms(5,6)])
  have len: "length ?src = 268 * length links" by (rule length_links [OF assms(3)])
  have fl: "int (unat ?fl) = (16 + 268 * count) mod 2 ^ 32"
    by (simp only: unat_eq_nat_uint uint_word_of_int) simp
  show ?thesis
  proof (cases "0 \<le> count \<and> nat count \<le> length links \<and> 16 + 268 * count < 2 ^ 32")
    case True
    then have n': "?n = 268 * nat count" unfolding n by (simp add: nat_mult_distrib)
    have "int (unat ?fl) = 16 + 268 * count" using True by (simp only: fl) (intro mod_pos_pos_trivial, simp_all)
    also have "\<dots> = int (16 + 268 * nat count)" using True by simp
    finally have b: "unat ?fl = 16 + ?n" unfolding n' by (simp only: of_nat_eq_iff)
    then have "length (blk ?fl) = 16 + ?n" using assms(2) by simp
    moreover have "?n \<le> length ?src" unfolding n' len using True by simp
    ultimately have "?body = Some (le32 IPC_MAGIC @ le16 CMD_SET_ROUTES @ take 2 (drop 6 (blk ?fl))
        @ le32 (word_of_int (4 + 268 * count)) @ le32 (word_of_int count) @ take ?n ?src)"
      by (rule set_routes_fits)
    moreover have "take ?n ?src = concat (map link_bytes (take (nat count) links))"
      unfolding n' by (rule take_links [OF assms(3)])
    moreover have "length (le32 IPC_MAGIC @ le16 CMD_SET_ROUTES @ take 2 (drop 6 (blk ?fl))
        @ le32 (word_of_int (4 + 268 * count)) @ le32 (word_of_int count) @ take ?n ?src) = unat ?fl"
      using \<open>length (blk ?fl) = 16 + ?n\<close> \<open>?n \<le> length ?src\<close> b by simp
    ultimately show ?thesis using True by (simp only: call if_True simp_thms bind.bind_lunit) simp
  next
    case False
    have "length (blk ?fl) < 16 + ?n \<or> length ?src < ?n"
    proof (cases "0 \<le> count \<and> nat count \<le> length links")
      case True
      with False have "2 ^ 32 \<le> 16 + 268 * count" by simp
      then have "int (unat ?fl) < 16 + 268 * count" unfolding fl
        using pos_mod_bound [of "2 ^ 32 :: int" "16 + 268 * count"] by simp
      also have "16 + 268 * count = int (16 + ?n)" unfolding n using True by simp
      finally have "unat ?fl < 16 + ?n" by (simp only: of_nat_less_iff)
      then show ?thesis using assms(2) by simp
    next
      case out: False
      then have "length links < (if 0 \<le> count then nat count else 2 ^ 31)" using assms(4) by auto
      with n out assms(4,5) show ?thesis unfolding len by (auto split: if_splits)
    qed
    then have "?body = None" by (rule set_routes_overflows)
    with False show ?thesis by (simp only: call if_False) simp
  qed
qed


definition demo_link :: ez_router_link where
  "demo_link = \<lparr>in_port = 1, out_port = 2, bidir = 0, hook_in_plugin = replicate 64 0,
     hook_in_func = replicate 64 0, hook_out_plugin = replicate 64 0, hook_out_func = replicate 64 0\<rparr>"

theorem sdk_set_routes_exact_witness:
  "(let mem = (\<lambda>n. Some (replicate (unat n) 7)); s = \<lparr>g_sdk_fd = 3, sdk_fds = {3}\<rparr> in
     ezr_set_routes mem [demo_link] (-1) s = None \<and> ezr_set_routes mem [demo_link] 2 s = None
     \<and> map_option fst (ezr_set_routes mem [demo_link] 1 s) = Some 0)"
proof -
  let ?s = "\<lparr>g_sdk_fd = 3, sdk_fds = {3}\<rparr>"
  have l: "list_all link_ok [demo_link]" by (simp add: link_ok_def demo_link_def)
  note call = sdk_set_routes_exact [of ?s "\<lambda>n. Some (replicate (unat n) 7)" "\<lambda>n. replicate (unat n) 7" "[demo_link]"]
  from call [of "-1"] call [of 2] call [of 1] l show ?thesis by simp
qed

end
