(* ===== verification/ConfigStore.thy ===== *)
theory ConfigStore
  imports CJson
begin

text \<open>
  The configuration: \<^verbatim>\<open>routerd/include/config_store.h\<close> and
  \<^verbatim>\<open>routerd/src/config_store.c\<close>. The records, their character arrays and the counts are kept
  as declared; the union of per-type port settings is the datatype \<open>port_cfg\<close>, whose zeroed
  memory is the zeroed \<open>tty\<close> member. \<open>parity\<close> and \<open>flow\<close> are enumerations in C that take any
  integer of the JSON, so they are kept as integers. The file's text is an argument
  (\<open>None\<close> when it cannot be opened), and so are the parser and the printer of cJSON.
\<close>

section \<open>Data\<close>

definition MAX_PORTS :: nat where "MAX_PORTS = 32"
definition MAX_PLUGINS :: nat where "MAX_PLUGINS = 32"
definition MAX_ROUTES :: nat where "MAX_ROUTES = 64"

datatype port_type = PORT_TTY | PORT_TCP_SERVER | PORT_TCP_CLIENT | PORT_UDP | PORT_USB
  | PORT_IPC_SERVER | PORT_IPC_CLIENT

definition PARITY_NONE :: int where "PARITY_NONE = 0"
definition PARITY_ODD :: int where "PARITY_ODD = 1"
definition PARITY_EVEN :: int where "PARITY_EVEN = 2"
definition FLOW_NONE :: int where "FLOW_NONE = 0"
definition FLOW_RTSCTS :: int where "FLOW_RTSCTS = 1"
definition FLOW_XONXOFF :: int where "FLOW_XONXOFF = 2"

record port_tty_conf =
  tty_path :: cbuf
  baudrate :: int
  databits :: int
  stopbits :: int
  parity :: int
  flow :: int

record port_tcp_server_conf =
  server_bind :: cbuf
  server_port :: int
  backlog :: int

record port_tcp_client_conf =
  client_addr :: cbuf
  client_port :: int

record port_udp_conf =
  udp_bind :: cbuf
  udp_port :: int

datatype port_cfg =
    Cfg_tty port_tty_conf
  | Cfg_tcp_server port_tcp_server_conf
  | Cfg_tcp_client port_tcp_client_conf
  | Cfg_udp port_udp_conf
  | Cfg_usb cbuf
  | Cfg_ipc cbuf

record port_base =
  p_name :: cbuf
  p_type :: port_type
  p_fd :: int
  p_use_frame :: int

record port_def = port_base +
  p_cfg :: port_cfg

record plugin_def =
  pl_name :: cbuf
  pl_path :: cbuf

record route_def =
  r_src :: cbuf
  r_dst :: cbuf
  r_plugin :: cbuf
  r_handler :: cbuf

record config =
  ports :: "port_def list"
  port_count :: nat
  plugins :: "plugin_def list"
  plugin_count :: nat
  routes :: "route_def list"
  route_count :: nat

text \<open>Zeroed memory.\<close>

definition zero_tty :: port_tty_conf where
  "zero_tty = \<lparr>tty_path = replicate 128 0, baudrate = 0, databits = 0, stopbits = 0, parity = 0, flow = 0\<rparr>"

definition zero_port :: port_def where
  "zero_port = \<lparr>p_name = replicate 32 0, p_type = PORT_TTY, p_fd = 0, p_use_frame = 0, p_cfg = Cfg_tty zero_tty\<rparr>"

definition zero_plugin :: plugin_def where
  "zero_plugin = \<lparr>pl_name = replicate 32 0, pl_path = replicate 256 0\<rparr>"

definition zero_route :: route_def where
  "zero_route = \<lparr>r_src = replicate 32 0, r_dst = replicate 32 0, r_plugin = replicate 32 0,
     r_handler = replicate 64 0\<rparr>"

definition clear_config :: config where
  "clear_config = \<lparr>ports = replicate MAX_PORTS zero_port, port_count = 0,
     plugins = replicate MAX_PLUGINS zero_plugin, plugin_count = 0,
     routes = replicate MAX_ROUTES zero_route, route_count = 0\<rparr>"

section \<open>Reading fields\<close>

definition get_str :: "cjson option \<Rightarrow> string \<Rightarrow> cbuf \<Rightarrow> cbuf" where
  "get_str obj key b =
     (case cJSON_GetObjectItem obj (bytes key) of
        Some (CJString s) \<Rightarrow> strncpy b s (length b - 1)
      | _ \<Rightarrow> b[0 := 0])"

definition get_int :: "cjson option \<Rightarrow> string \<Rightarrow> int" where
  "get_int obj key =
     (case cJSON_GetObjectItem obj (bytes key) of Some (CJNumber n) \<Rightarrow> n | _ \<Rightarrow> 0)"

section \<open>JSON to configuration\<close>

text \<open>
  One element of the \<open>ports\<close> array, into the slot \<open>p\<close>. The \<open>tty\<close> branch leaves through
  \<open>continue\<close> when its object is missing, before \<open>fd\<close> is set.
\<close>

definition parse_port :: "cjson \<Rightarrow> port_def \<Rightarrow> port_def" where
  "parse_port item p =
     (let p = p\<lparr>p_name := get_str (Some item) ''name'' (p_name p)\<rparr>;
          jf = cJSON_GetObjectItem (Some item) (bytes ''use_frame'');
          p = p\<lparr>p_use_frame := (if cJSON_IsBool jf then of_bool (cJSON_IsTrue jf) else 0)\<rparr>;
          type_str = get_str (Some item) ''type'' (replicate 32 0);
          obj = (\<lambda>k. cJSON_GetObjectItem (Some item) (bytes k))
      in if strcmp_eq type_str (bytes ''tty'') then
           let p = p\<lparr>p_type := PORT_TTY\<rparr>; tty = obj ''tty''
           in if tty = None then p
              else p\<lparr>p_cfg := Cfg_tty \<lparr>tty_path = get_str tty ''path'' (replicate 128 0),
                       baudrate = get_int tty ''baudrate'', databits = get_int tty ''databits'',
                       stopbits = get_int tty ''stopbits'', parity = get_int tty ''parity'',
                       flow = get_int tty ''flow''\<rparr>, p_fd := -1\<rparr>
         else if strcmp_eq type_str (bytes ''tcp_server'') then
           let ts = obj ''tcp_server''
           in p\<lparr>p_type := PORT_TCP_SERVER,
                p_cfg := Cfg_tcp_server \<lparr>server_bind = get_str ts ''bind'' (replicate 64 0),
                  server_port = get_int ts ''port'', backlog = get_int ts ''backlog''\<rparr>, p_fd := -1\<rparr>
         else if strcmp_eq type_str (bytes ''tcp_client'') then
           let tc = obj ''tcp_client''
           in p\<lparr>p_type := PORT_TCP_CLIENT,
                p_cfg := Cfg_tcp_client \<lparr>client_addr = get_str tc ''addr'' (replicate 64 0),
                  client_port = get_int tc ''port''\<rparr>, p_fd := -1\<rparr>
         else if strcmp_eq type_str (bytes ''udp'') then
           let u = obj ''udp''
           in p\<lparr>p_type := PORT_UDP,
                p_cfg := Cfg_udp \<lparr>udp_bind = get_str u ''bind'' (replicate 64 0),
                  udp_port = get_int u ''port''\<rparr>, p_fd := -1\<rparr>
         else if strcmp_eq type_str (bytes ''usb'') then
           p\<lparr>p_type := PORT_USB, p_cfg := Cfg_usb (get_str (obj ''usb'') ''path'' (replicate 128 0)), p_fd := -1\<rparr>
         else if strcmp_eq type_str (bytes ''ipc'') then
           p\<lparr>p_type := PORT_IPC_SERVER, p_cfg := Cfg_ipc (get_str (obj ''ipc'') ''path'' (replicate 128 0)), p_fd := -1\<rparr>
         else p\<lparr>p_fd := -1\<rparr>)"

definition parse_plugin :: "cjson \<Rightarrow> plugin_def \<Rightarrow> plugin_def" where
  "parse_plugin item p =
     p\<lparr>pl_name := get_str (Some item) ''name'' (pl_name p), pl_path := get_str (Some item) ''path'' (pl_path p)\<rparr>"

definition parse_route :: "cjson \<Rightarrow> route_def \<Rightarrow> route_def" where
  "parse_route item r =
     r\<lparr>r_src := get_str (Some item) ''src'' (r_src r), r_dst := get_str (Some item) ''dst'' (r_dst r),
       r_plugin := get_str (Some item) ''plugin'' (r_plugin r),
       r_handler := get_str (Some item) ''handler'' (r_handler r)\<rparr>"

text \<open>
  The loop the three arrays share: \<open>p = &slots[count++]\<close> for each element while there is a
  free slot. The slot is updated in place.
\<close>

fun fill_slots :: "nat \<Rightarrow> (cjson \<Rightarrow> 'a \<Rightarrow> 'a) \<Rightarrow> cjson list \<Rightarrow> 'a list \<times> nat \<Rightarrow> 'a list \<times> nat" where
  "fill_slots cap f [] (slots, n) = (slots, n)"
| "fill_slots cap f (item # items) (slots, n) =
     (if cap \<le> n then (slots, n)
      else fill_slots cap f items (slots[n := f item (slots ! n)], n + 1))"

definition parse_ports :: "cjson option \<Rightarrow> config \<Rightarrow> config" where
  "parse_ports arr c =
     (if \<not> cJSON_IsArray arr then c
      else case fill_slots MAX_PORTS parse_port (cj_elements arr) (ports c, 0) of
        (ps, n) \<Rightarrow> c\<lparr>ports := ps, port_count := n\<rparr>)"

definition parse_plugins :: "cjson option \<Rightarrow> config \<Rightarrow> config" where
  "parse_plugins arr c =
     (if \<not> cJSON_IsArray arr then c
      else case fill_slots MAX_PLUGINS parse_plugin (cj_elements arr) (plugins c, 0) of
        (ps, n) \<Rightarrow> c\<lparr>plugins := ps, plugin_count := n\<rparr>)"

definition parse_routes :: "cjson option \<Rightarrow> config \<Rightarrow> config" where
  "parse_routes arr c =
     (if \<not> cJSON_IsArray arr then c
      else case fill_slots MAX_ROUTES parse_route (cj_elements arr) (routes c, 0) of
        (rs, n) \<Rightarrow> c\<lparr>routes := rs, route_count := n\<rparr>)"

definition load_tree :: "cjson \<Rightarrow> config" where
  "load_tree root =
     parse_routes (cJSON_GetObjectItem (Some root) (bytes ''routes''))
       (parse_plugins (cJSON_GetObjectItem (Some root) (bytes ''plugins''))
         (parse_ports (cJSON_GetObjectItem (Some root) (bytes ''ports'')) clear_config))"

definition load_config :: "json_parser \<Rightarrow> u8 list option \<Rightarrow> int \<times> config" where
  "load_config cJSON_Parse file =
     (case file of
        None \<Rightarrow> (-1, clear_config)
      | Some txt \<Rightarrow>
          (case cJSON_Parse (cstr (txt @ [0])) of
             None \<Rightarrow> (-1, clear_config)
           | Some root \<Rightarrow> (0, load_tree root)))"

section \<open>Configuration to JSON\<close>

definition js :: "string \<Rightarrow> cbuf \<Rightarrow> u8 list \<times> cjson" where
  "js key b = (bytes key, CJString (cstr b))"

definition ji :: "string \<Rightarrow> int \<Rightarrow> u8 list \<times> cjson" where
  "ji key n = (bytes key, CJNumber n)"

definition jtype :: "string \<Rightarrow> u8 list \<times> cjson" where
  "jtype t = (bytes ''type'', CJString (bytes t))"

text \<open>
  The \<open>switch (p->base.type)\<close> of \<open>save_config\<close>: it has no case for the two IPC types. The
  settings are read through the union member that belongs to the type.
\<close>

fun save_port_type :: "port_type \<Rightarrow> port_cfg \<Rightarrow> (u8 list \<times> cjson) list" where
  "save_port_type PORT_TTY (Cfg_tty t) =
     [jtype ''tty'', (bytes ''tty'', CJObject [js ''path'' (tty_path t), ji ''baudrate'' (baudrate t),
        ji ''databits'' (databits t), ji ''stopbits'' (stopbits t), ji ''parity'' (parity t),
        ji ''flow'' (flow t)])]"
| "save_port_type PORT_TCP_SERVER (Cfg_tcp_server s) =
     [jtype ''tcp_server'', (bytes ''tcp_server'', CJObject [js ''bind'' (server_bind s),
        ji ''port'' (server_port s), ji ''backlog'' (backlog s)])]"
| "save_port_type PORT_TCP_CLIENT (Cfg_tcp_client t) =
     [jtype ''tcp_client'', (bytes ''tcp_client'', CJObject [js ''addr'' (client_addr t),
        ji ''port'' (client_port t)])]"
| "save_port_type PORT_UDP (Cfg_udp u) =
     [jtype ''udp'', (bytes ''udp'', CJObject [js ''bind'' (udp_bind u), ji ''port'' (udp_port u)])]"
| "save_port_type PORT_USB (Cfg_usb u) =
     [jtype ''usb'', (bytes ''usb'', CJObject [js ''path'' u])]"
| "save_port_type _ _ = []"

definition save_port :: "port_def \<Rightarrow> cjson" where
  "save_port p = CJObject (js ''name'' (p_name p) # save_port_type (p_type p) (p_cfg p))"

definition save_plugin :: "plugin_def \<Rightarrow> cjson" where
  "save_plugin p = CJObject [js ''name'' (pl_name p), js ''path'' (pl_path p)]"

definition save_route :: "route_def \<Rightarrow> cjson" where
  "save_route r = CJObject [js ''src'' (r_src r), js ''dst'' (r_dst r), js ''plugin'' (r_plugin r),
     js ''handler'' (r_handler r)]"

definition save_tree :: "config \<Rightarrow> cjson" where
  "save_tree c = CJObject
     [(bytes ''ports'', CJArray (map save_port (take (port_count c) (ports c)))),
      (bytes ''plugins'', CJArray (map save_plugin (take (plugin_count c) (plugins c)))),
      (bytes ''routes'', CJArray (map save_route (take (route_count c) (routes c))))]"

text \<open>The text that ends up in the file.\<close>

definition save_config :: "(cjson \<Rightarrow> u8 list) \<Rightarrow> config \<Rightarrow> int \<times> u8 list" where
  "save_config cJSON_Print c = (0, cstr (cJSON_Print (save_tree c)))"

section \<open>Searches\<close>

definition config_find_port :: "cbuf option \<Rightarrow> config \<Rightarrow> nat option" where
  "config_find_port nm c =
     (case nm of
        None \<Rightarrow> None
      | Some s \<Rightarrow>
          if cstr s = [] then None
          else find_index (\<lambda>p. strncmp_eq (p_name p) s 32) (take (port_count c) (ports c)))"

definition config_find_plugin :: "cbuf \<Rightarrow> config \<Rightarrow> int" where
  "config_find_plugin nm c =
     (case find_index (\<lambda>p. strcmp_eq (pl_name p) nm) (take (plugin_count c) (plugins c)) of
        None \<Rightarrow> -1 | Some i \<Rightarrow> int i)"

text \<open>The routes are returned as their indices, in the order of \<open>out\<close>.\<close>

fun find_routes_loop :: "cbuf \<Rightarrow> int \<Rightarrow> route_def list \<Rightarrow> nat \<Rightarrow> nat list \<Rightarrow> nat list" where
  "find_routes_loop src_name max_out [] i out = out"
| "find_routes_loop src_name max_out (r # rs) i out =
     (if strcmp_eq (r_src r) src_name \<and> int (length out) < max_out
      then find_routes_loop src_name max_out rs (i + 1) (out @ [i])
      else find_routes_loop src_name max_out rs (i + 1) out)"

definition config_find_routes_by_src :: "cbuf option \<Rightarrow> int \<Rightarrow> config \<Rightarrow> nat list" where
  "config_find_routes_by_src src_name max_out c =
     (case src_name of
        None \<Rightarrow> []
      | Some s \<Rightarrow>
          if max_out \<le> 0 then []
          else find_routes_loop s max_out (take (route_count c) (routes c)) 0 [])"

section \<open>Field buffers\<close>

text \<open>
  A buffer as the loader leaves it: the string, and NULs up to the end.
\<close>

definition canon :: "nat \<Rightarrow> cbuf \<Rightarrow> bool" where
  "canon n b \<longleftrightarrow> 0 < n \<and> b = strncpy (replicate n 0) (cstr b) (n - 1)"

lemma strncpy_zero:
  assumes "0 < n"
  shows "cstr (strncpy (replicate n 0) s (n - 1)) = take (n - 1) (cstr s)"
  using assms by (cases n) (simp_all add: cstr_strncpy del: replicate.simps)

lemma canon_strncpy: "0 < n \<Longrightarrow> canon n (strncpy (replicate n 0) s (n - 1))"
  by (simp only: canon_def strncpy_zero) (simp add: strncpy_def take_cstr_no_nul min_def)

lemma drop_last_zero: "0 < n \<Longrightarrow> drop (n - 1) (replicate n 0) = ([0] :: cbuf)"
proof -
  assume "0 < n"
  then have "n - (n - 1) = Suc 0" by simp
  then show ?thesis by (simp only: drop_replicate) simp
qed

lemma canon_zero: "0 < n \<Longrightarrow> canon n (replicate n 0)"
proof -
  assume n: "0 < n"
  then obtain m where m: "n = Suc m" by (cases n) auto
  have "strncpy (replicate n 0) [] (n - 1) = replicate n 0"
    using drop_last_zero [OF n] by (simp add: strncpy_def m replicate_append_same)
  with canon_strncpy [OF n, of "[]"] show ?thesis by simp
qed

lemma canon_get_str: "0 < n \<Longrightarrow> canon n (get_str obj key (replicate n 0))"
proof -
  assume n: "0 < n"
  then have "(replicate n 0)[0 := 0] = (replicate n 0 :: cbuf)" by (cases n) simp_all
  with n show ?thesis
    using canon_strncpy [OF n] canon_zero [OF n]
    by (simp add: get_str_def split: option.splits cjson.splits)
qed

lemma canon_length: "canon n b \<Longrightarrow> length b = n"
  by (metis Suc_diff_1 canon_def diff_le_self length_replicate strncpy_length)

lemma canon_terminated: "canon n b \<Longrightarrow> nul_terminated b"
proof -
  assume c: "canon n b"
  then have "0 < n" and b: "b = strncpy (replicate n 0) (cstr b) (n - 1)" by (simp_all add: canon_def)
  from drop_last_zero [OF \<open>0 < n\<close>]
  have "0 \<in> set (strncpy (replicate n 0) (cstr b) (n - 1))" by (simp add: strncpy_def)
  with b show ?thesis by (simp add: nul_terminated_def)
qed

lemma get_str_CJString:
  "cJSON_GetObjectItem obj (bytes key) = Some (CJString (cstr b)) \<Longrightarrow> canon n b \<Longrightarrow>
     get_str obj key (replicate n 0) = b"
  by (simp add: get_str_def canon_def)

lemma get_int_CJNumber:
  "cJSON_GetObjectItem obj (bytes key) = Some (CJNumber k) \<Longrightarrow> get_int obj key = k"
  by (simp add: get_int_def)

section \<open>What loading gives\<close>

text \<open>The settings of a port are those of its type, and every string is terminated.\<close>

fun cfg_ok :: "port_type \<Rightarrow> port_cfg \<Rightarrow> bool" where
  "cfg_ok PORT_TTY (Cfg_tty t) = canon 128 (tty_path t)"
| "cfg_ok PORT_TCP_SERVER (Cfg_tcp_server s) = canon 64 (server_bind s)"
| "cfg_ok PORT_TCP_CLIENT (Cfg_tcp_client t) = canon 64 (client_addr t)"
| "cfg_ok PORT_UDP (Cfg_udp u) = canon 64 (udp_bind u)"
| "cfg_ok PORT_USB (Cfg_usb u) = canon 128 u"
| "cfg_ok PORT_IPC_SERVER (Cfg_ipc u) = canon 128 u"
| "cfg_ok _ _ = False"

definition port_ok :: "port_def \<Rightarrow> bool" where
  "port_ok p \<longleftrightarrow> canon 32 (p_name p) \<and> cfg_ok (p_type p) (p_cfg p)"

definition plugin_ok :: "plugin_def \<Rightarrow> bool" where
  "plugin_ok p \<longleftrightarrow> canon 32 (pl_name p) \<and> canon 256 (pl_path p)"

definition route_ok :: "route_def \<Rightarrow> bool" where
  "route_ok r \<longleftrightarrow> canon 32 (r_src r) \<and> canon 32 (r_dst r) \<and> canon 32 (r_plugin r) \<and> canon 64 (r_handler r)"

definition config_ok :: "config \<Rightarrow> bool" where
  "config_ok c \<longleftrightarrow>
     length (ports c) = MAX_PORTS \<and> port_count c \<le> MAX_PORTS \<and> (\<forall>p \<in> set (ports c). port_ok p)
     \<and> length (plugins c) = MAX_PLUGINS \<and> plugin_count c \<le> MAX_PLUGINS \<and> (\<forall>p \<in> set (plugins c). plugin_ok p)
     \<and> length (routes c) = MAX_ROUTES \<and> route_count c \<le> MAX_ROUTES \<and> (\<forall>r \<in> set (routes c). route_ok r)"

lemma zero_ok [simp]: "port_ok zero_port" "plugin_ok zero_plugin" "route_ok zero_route"
  by (simp_all only: port_ok_def plugin_ok_def route_ok_def zero_port_def zero_plugin_def
      zero_route_def zero_tty_def port_def.simps port_base.simps plugin_def.simps route_def.simps
      port_tty_conf.simps cfg_ok.simps) (simp_all add: canon_zero del: replicate.simps)

lemma parse_port_ok: "port_ok (parse_port item zero_port)"
  unfolding parse_port_def port_ok_def zero_port_def zero_tty_def Let_def
  by (simp add: canon_get_str canon_zero del: replicate.simps)

lemma parse_plugin_ok: "plugin_ok (parse_plugin item zero_plugin)"
  unfolding parse_plugin_def plugin_ok_def zero_plugin_def
  by (simp add: canon_get_str del: replicate.simps)

lemma parse_route_ok: "route_ok (parse_route item zero_route)"
  unfolding parse_route_def route_ok_def zero_route_def
  by (simp add: canon_get_str del: replicate.simps)

text \<open>The loop writes the elements into the slots from the front and leaves the rest.\<close>

lemma fill_slots_gen:
  "n \<le> cap \<Longrightarrow> length xs = n \<Longrightarrow>
     fill_slots cap f items (xs @ replicate (cap - n) z, n) =
       (let k = min (cap - n) (length items)
        in (xs @ map (\<lambda>it. f it z) (take k items) @ replicate (cap - n - k) z, n + k))"
proof (induction items arbitrary: xs n)
  case Nil
  then show ?case by simp
next
  case (Cons it items)
  show ?case
  proof (cases "n = cap")
    case True
    then show ?thesis by simp
  next
    case False
    with Cons.prems obtain m where m: "cap - n = Suc m" by (metis Suc_diff_Suc le_neq_implies_less)
    then have "cap - Suc n = m" by simp
    moreover have "(xs @ replicate (cap - n) z)[n := f it ((xs @ replicate (cap - n) z) ! n)] =
        (xs @ [f it z]) @ replicate m z"
      using Cons.prems m by (simp add: nth_append list_update_append)
    ultimately show ?thesis
      using Cons.IH [of "Suc n" "xs @ [f it z]"] Cons.prems False m by (simp add: Let_def)
  qed
qed

lemma fill_slots_zero:
  "fill_slots cap f items (replicate cap z, 0) =
     (map (\<lambda>it. f it z) (take cap items) @ replicate (cap - length items) z, min cap (length items))"
proof -
  have "take (min cap (length items)) items = take cap items" by (simp add: min_def)
  then show ?thesis
    using fill_slots_gen [of 0 cap "[]" f items z] by (simp add: Let_def min_def)
qed

definition array_of :: "cjson option \<Rightarrow> cjson list" where
  "array_of v = (if cJSON_IsArray v then cj_elements v else [])"

definition filled :: "nat \<Rightarrow> (cjson \<Rightarrow> 'a \<Rightarrow> 'a) \<Rightarrow> 'a \<Rightarrow> cjson option \<Rightarrow> 'a list" where
  "filled cap f z v = map (\<lambda>it. f it z) (take cap (array_of v)) @ replicate (cap - length (array_of v)) z"

lemma load_tree_eq:
  "load_tree root =
     (let get = \<lambda>k. cJSON_GetObjectItem (Some root) (bytes k) in
      \<lparr>ports = filled MAX_PORTS parse_port zero_port (get ''ports''),
       port_count = min MAX_PORTS (length (array_of (get ''ports''))),
       plugins = filled MAX_PLUGINS parse_plugin zero_plugin (get ''plugins''),
       plugin_count = min MAX_PLUGINS (length (array_of (get ''plugins''))),
       routes = filled MAX_ROUTES parse_route zero_route (get ''routes''),
       route_count = min MAX_ROUTES (length (array_of (get ''routes'')))\<rparr>)"
  by (simp add: load_tree_def parse_ports_def parse_plugins_def parse_routes_def clear_config_def
      fill_slots_zero array_of_def filled_def Let_def)

lemma filled_length: "length (filled cap f z v) = cap"
  by (simp add: filled_def)

lemma filled_all:
  assumes "\<And>it. P (f it z)" and "P z" and "x \<in> set (filled cap f z v)"
  shows "P x"
  using assms by (auto simp: filled_def)

lemma config_ok_load: "config_ok (load_tree root)"
  unfolding load_tree_eq config_ok_def Let_def
  using filled_all [where P = port_ok and f = parse_port and z = zero_port]
    filled_all [where P = plugin_ok and f = parse_plugin and z = zero_plugin]
    filled_all [where P = route_ok and f = parse_route and z = zero_route]
  by (auto simp: filled_length parse_port_ok parse_plugin_ok parse_route_ok)

lemma config_ok_clear: "config_ok clear_config"
  by (auto simp: config_ok_def clear_config_def)

section \<open>Saving and loading\<close>

text \<open>
  Which keys match which: the lookups of the loader in the objects the saver builds.
\<close>

lemmas key_match = strcasecmp_eq_def bytes_def c_tolower_def cstr_Cons

lemmas saved_fields = js_def ji_def jtype_def GetObjectItem_CJObject

lemma bytes_type_names:
  "strcmp_eq (get_str (Some (CJObject (js ''name'' nm # jtype t # rest))) ''type'' (replicate 32 0)) (bytes u)
     = (take 31 (cstr (bytes t)) = cstr (bytes u))"
proof -
  have "cJSON_GetObjectItem (Some (CJObject (js ''name'' nm # jtype t # rest))) (bytes ''type'')
      = Some (CJString (bytes t))"
    by (simp add: saved_fields key_match)
  then show ?thesis
    using strncpy_zero [of 32 "bytes t"] by (simp add: get_str_def strcmp_eq_def)
qed

lemma saved_name: "canon 32 (p_name p) \<Longrightarrow> get_str (Some (save_port p)) ''name'' (replicate 32 0) = p_name p"
  by (rule get_str_CJString) (simp_all add: save_port_def saved_fields key_match)

text \<open>
  What a port becomes when it is saved and loaded: the run-time descriptor is reset, the
  framing flag is lost, and a port of a type the saver does not know comes back as a zeroed
  \<open>tty\<close> port.
\<close>

definition resaved_port :: "port_def \<Rightarrow> port_def" where
  "resaved_port p =
     (if p_type p = PORT_IPC_SERVER
      then zero_port\<lparr>p_name := p_name p, p_fd := -1\<rparr>
      else p\<lparr>p_fd := -1, p_use_frame := 0\<rparr>)"

lemma type_names:
  "(take 31 (cstr (bytes t)) = cstr (bytes u)) = (t = u)"
  if "t \<in> {''tty'', ''tcp_server'', ''tcp_client'', ''udp'', ''usb'', ''ipc''}"
    "u \<in> {''tty'', ''tcp_server'', ''tcp_client'', ''udp'', ''usb'', ''ipc''}"
  using that by (auto simp: bytes_def cstr_Cons)

lemma saved_use_frame: "\<not> cJSON_IsBool (cJSON_GetObjectItem (Some (save_port p)) (bytes ''use_frame''))"
proof (cases "(p_type p, p_cfg p)" rule: save_port_type.cases)
qed (simp_all add: save_port_def saved_fields key_match)

text \<open>The type name and the settings object of a saved port, and reading them back.\<close>

definition saved_as :: "port_def \<Rightarrow> string \<Rightarrow> cjson \<Rightarrow> bool" where
  "saved_as p t settings \<longleftrightarrow> save_port p = CJObject [js ''name'' (p_name p), jtype t, (bytes t, settings)]
     \<and> t \<in> {''tty'', ''tcp_server'', ''tcp_client'', ''udp'', ''usb'', ''ipc''}"

lemma saved_as_type:
  "saved_as p t settings \<Longrightarrow> u \<in> {''tty'', ''tcp_server'', ''tcp_client'', ''udp'', ''usb'', ''ipc''} \<Longrightarrow>
     strcmp_eq (get_str (Some (save_port p)) ''type'' (replicate 32 0)) (bytes u) = (t = u)"
  unfolding saved_as_def by (simp only: bytes_type_names type_names)

lemma saved_as_settings:
  "saved_as p t settings \<Longrightarrow> cJSON_GetObjectItem (Some (save_port p)) (bytes t) = Some settings"
  by (auto simp: saved_as_def saved_fields key_match)

lemma get_settings:
  "canon n b \<Longrightarrow> find (\<lambda>(k, v). strcasecmp_eq (bytes key) k) kvs = Some (k', CJString (cstr b)) \<Longrightarrow>
     get_str (Some (CJObject kvs)) key (replicate n 0) = b"
  "find (\<lambda>(k, v). strcasecmp_eq (bytes key) k) kvs = Some (k', CJNumber m) \<Longrightarrow>
     get_int (Some (CJObject kvs)) key = m"
  by (simp_all add: get_str_CJString get_int_def GetObjectItem_CJObject)

lemma parse_saved_port:
  assumes "port_ok p"
  shows "parse_port (save_port p) zero_port = resaved_port p"
proof -
  have name: "get_str (Some (save_port p)) ''name'' (replicate 32 0) = p_name p"
    using assms by (intro saved_name) (simp add: port_ok_def)
  have fields: "p_name zero_port = replicate 32 0" by (simp add: zero_port_def)
  note parse = parse_port_def Let_def fields name if_not_P [OF saved_use_frame] zero_port_def
  let ?port = "\<lambda>ty c. \<lparr>p_name = p_name p, p_type = ty, p_fd = -1, p_use_frame = 0, p_cfg = c\<rparr>"
  have ipc: "parse_port (save_port p) zero_port = resaved_port p" if "p_type p = PORT_IPC_SERVER"
  proof -
    have "save_port p = CJObject [js ''name'' (p_name p)]" using that by (simp add: save_port_def)
    then have "cJSON_GetObjectItem (Some (save_port p)) (bytes ''type'') = None"
      by (simp add: saved_fields key_match)
    then have "cstr (get_str (Some (save_port p)) ''type'' (replicate 32 0)) = []"
      by (simp add: get_str_def numeral_eq_Suc)
    moreover have nonempty: "cstr (bytes u) \<noteq> []" if "u \<in> {''tty'', ''tcp_server'', ''tcp_client'', ''udp'', ''usb'', ''ipc''}" for u
      using that by (auto simp: bytes_def cstr_Cons)
    ultimately have "\<not> strcmp_eq (get_str (Some (save_port p)) ''type'' (replicate 32 0)) (bytes u)"
      if "u \<in> {''tty'', ''tcp_server'', ''tcp_client'', ''udp'', ''usb'', ''ipc''}" for u
      using nonempty [OF that] by (simp only: strcmp_eq_def) simp
    then show ?thesis
      using that by (simp add: parse resaved_port_def)
  qed
  show ?thesis
  proof (cases "(p_type p, p_cfg p)" rule: save_port_type.cases)
    case (1 t)
    let ?o = "CJObject [js ''path'' (tty_path t), ji ''baudrate'' (baudrate t),
        ji ''databits'' (databits t), ji ''stopbits'' (stopbits t), ji ''parity'' (parity t),
        ji ''flow'' (flow t)]"
    from 1 have s: "saved_as p ''tty'' ?o" by (simp add: saved_as_def save_port_def)
    have "canon 128 (tty_path t)" using assms 1 by (simp add: port_ok_def)
    then have "get_str (Some ?o) ''path'' (replicate 128 0) = tty_path t"
      "get_int (Some ?o) ''baudrate'' = baudrate t" "get_int (Some ?o) ''databits'' = databits t"
      "get_int (Some ?o) ''stopbits'' = stopbits t" "get_int (Some ?o) ''parity'' = parity t"
      "get_int (Some ?o) ''flow'' = flow t"
      by (auto intro!: get_settings simp: js_def ji_def key_match)
    then have "parse_port (save_port p) zero_port = ?port PORT_TTY (Cfg_tty t)"
      by (simp add: parse saved_as_type [OF s] saved_as_settings [OF s])
    moreover have "resaved_port p = ?port PORT_TTY (Cfg_tty t)"
      using 1 by (cases p) (simp add: resaved_port_def)
    ultimately show ?thesis by simp
  next
    case (2 t)
    let ?o = "CJObject [js ''bind'' (server_bind t), ji ''port'' (server_port t), ji ''backlog'' (backlog t)]"
    from 2 have s: "saved_as p ''tcp_server'' ?o" by (simp add: saved_as_def save_port_def)
    have "canon 64 (server_bind t)" using assms 2 by (simp add: port_ok_def)
    then have "get_str (Some ?o) ''bind'' (replicate 64 0) = server_bind t"
      "get_int (Some ?o) ''port'' = server_port t" "get_int (Some ?o) ''backlog'' = backlog t"
      by (auto intro!: get_settings simp: js_def ji_def key_match)
    then have "parse_port (save_port p) zero_port = ?port PORT_TCP_SERVER (Cfg_tcp_server t)"
      by (simp add: parse saved_as_type [OF s] saved_as_settings [OF s])
    moreover have "resaved_port p = ?port PORT_TCP_SERVER (Cfg_tcp_server t)"
      using 2 by (cases p) (simp add: resaved_port_def)
    ultimately show ?thesis by simp
  next
    case (3 t)
    let ?o = "CJObject [js ''addr'' (client_addr t), ji ''port'' (client_port t)]"
    from 3 have s: "saved_as p ''tcp_client'' ?o" by (simp add: saved_as_def save_port_def)
    have "canon 64 (client_addr t)" using assms 3 by (simp add: port_ok_def)
    then have "get_str (Some ?o) ''addr'' (replicate 64 0) = client_addr t"
      "get_int (Some ?o) ''port'' = client_port t"
      by (auto intro!: get_settings simp: js_def ji_def key_match)
    then have "parse_port (save_port p) zero_port = ?port PORT_TCP_CLIENT (Cfg_tcp_client t)"
      by (simp add: parse saved_as_type [OF s] saved_as_settings [OF s])
    moreover have "resaved_port p = ?port PORT_TCP_CLIENT (Cfg_tcp_client t)"
      using 3 by (cases p) (simp add: resaved_port_def)
    ultimately show ?thesis by simp
  next
    case (4 t)
    let ?o = "CJObject [js ''bind'' (udp_bind t), ji ''port'' (udp_port t)]"
    from 4 have s: "saved_as p ''udp'' ?o" by (simp add: saved_as_def save_port_def)
    have "canon 64 (udp_bind t)" using assms 4 by (simp add: port_ok_def)
    then have "get_str (Some ?o) ''bind'' (replicate 64 0) = udp_bind t"
      "get_int (Some ?o) ''port'' = udp_port t"
      by (auto intro!: get_settings simp: js_def ji_def key_match)
    then have "parse_port (save_port p) zero_port = ?port PORT_UDP (Cfg_udp t)"
      by (simp add: parse saved_as_type [OF s] saved_as_settings [OF s])
    moreover have "resaved_port p = ?port PORT_UDP (Cfg_udp t)"
      using 4 by (cases p) (simp add: resaved_port_def)
    ultimately show ?thesis by simp
  next
    case (5 t)
    let ?o = "CJObject [js ''path'' t]"
    from 5 have s: "saved_as p ''usb'' ?o" by (simp add: saved_as_def save_port_def)
    have "canon 128 t" using assms 5 by (simp add: port_ok_def)
    then have "get_str (Some ?o) ''path'' (replicate 128 0) = t"
      by (auto intro!: get_settings simp: js_def ji_def key_match)
    then have "parse_port (save_port p) zero_port = ?port PORT_USB (Cfg_usb t)"
      by (simp add: parse saved_as_type [OF s] saved_as_settings [OF s])
    moreover have "resaved_port p = ?port PORT_USB (Cfg_usb t)"
      using 5 by (cases p) (simp add: resaved_port_def)
    ultimately show ?thesis by simp
  qed (use assms ipc in \<open>auto simp: port_ok_def elim: cfg_ok.elims\<close>)
qed

lemma parse_saved_plugin: "plugin_ok p \<Longrightarrow> parse_plugin (save_plugin p) zero_plugin = p"
  unfolding parse_plugin_def save_plugin_def zero_plugin_def plugin_ok_def
  by (cases p) (auto intro!: get_settings simp: js_def key_match)

lemma parse_saved_route: "route_ok r \<Longrightarrow> parse_route (save_route r) zero_route = r"
  unfolding parse_route_def save_route_def zero_route_def route_ok_def
  by (cases r) (auto intro!: get_settings simp: js_def key_match)

text \<open>The whole configuration: the unused slots are zeroed.\<close>

definition resaved :: "config \<Rightarrow> config" where
  "resaved c = c\<lparr>
     ports := map resaved_port (take (port_count c) (ports c)) @ replicate (MAX_PORTS - port_count c) zero_port,
     plugins := take (plugin_count c) (plugins c) @ replicate (MAX_PLUGINS - plugin_count c) zero_plugin,
     routes := take (route_count c) (routes c) @ replicate (MAX_ROUTES - route_count c) zero_route\<rparr>"

lemma filled_take:
  assumes "n \<le> cap" and "n \<le> length xs" and "map (\<lambda>it. f it z) (map g (take n xs)) = ys"
  shows "filled cap f z (Some (CJArray (map g (take n xs)))) = ys @ replicate (cap - n) z"
    and "min cap (length (array_of (Some (CJArray (map g (take n xs)))))) = n"
proof -
  have "array_of (Some (CJArray vs)) = vs" for vs
    by (simp add: array_of_def comp_def)
  moreover have "take cap (map g (take n xs)) = map g (take n xs)" using assms(1) by simp
  ultimately show "filled cap f z (Some (CJArray (map g (take n xs)))) = ys @ replicate (cap - n) z"
    and "min cap (length (array_of (Some (CJArray (map g (take n xs)))))) = n"
    using assms by (simp_all add: filled_def)
qed

lemma load_save_tree:
  assumes "config_ok c"
  shows "load_tree (save_tree c) = resaved c"
proof -
  have g: "cJSON_GetObjectItem (Some (save_tree c)) (bytes ''ports'') =
      Some (CJArray (map save_port (take (port_count c) (ports c))))"
    "cJSON_GetObjectItem (Some (save_tree c)) (bytes ''plugins'') =
      Some (CJArray (map save_plugin (take (plugin_count c) (plugins c))))"
    "cJSON_GetObjectItem (Some (save_tree c)) (bytes ''routes'') =
      Some (CJArray (map save_route (take (route_count c) (routes c))))"
    by (simp_all add: save_tree_def GetObjectItem_CJObject key_match)

  have ports: "map (\<lambda>it. parse_port it zero_port) (map save_port (take n (ports c))) =
      map resaved_port (take n (ports c))" for n
    using assms by (auto simp: config_ok_def parse_saved_port dest: in_set_takeD)
  have plugins: "map (\<lambda>it. parse_plugin it zero_plugin) (map save_plugin (take n (plugins c))) =
      take n (plugins c)" for n
    unfolding map_map
    by (rule map_idI) (use assms in \<open>auto simp: config_ok_def parse_saved_plugin dest: in_set_takeD\<close>)
  have routes: "map (\<lambda>it. parse_route it zero_route) (map save_route (take n (routes c))) =
      take n (routes c)" for n
    unfolding map_map
    by (rule map_idI) (use assms in \<open>auto simp: config_ok_def parse_saved_route dest: in_set_takeD\<close>)
  have len: "length (ports c) = MAX_PORTS" "port_count c \<le> MAX_PORTS" "length (plugins c) = MAX_PLUGINS"
    "plugin_count c \<le> MAX_PLUGINS" "length (routes c) = MAX_ROUTES" "route_count c \<le> MAX_ROUTES"
    using assms by (simp_all add: config_ok_def)
  note f = filled_take [where f = parse_port and z = zero_port, OF len(2) _ ports]
    filled_take [where f = parse_plugin and z = zero_plugin, OF len(4) _ plugins]
    filled_take [where f = parse_route and z = zero_route, OF len(6) _ routes]
  have "load_tree (save_tree c) =
      \<lparr>ports = map resaved_port (take (port_count c) (ports c)) @ replicate (MAX_PORTS - port_count c) zero_port,
       port_count = port_count c,
       plugins = take (plugin_count c) (plugins c) @ replicate (MAX_PLUGINS - plugin_count c) zero_plugin,
       plugin_count = plugin_count c,
       routes = take (route_count c) (routes c) @ replicate (MAX_ROUTES - route_count c) zero_route,
       route_count = route_count c\<rparr>"
    by (simp only: load_tree_eq Let_def g f len order_refl)
  then show ?thesis unfolding resaved_def by (cases c) simp
qed

lemma config_ok_load_config: "config_ok (snd (load_config P f))"
  by (simp add: load_config_def config_ok_load config_ok_clear split: option.splits)

text \<open>The slots behind the counts stay zeroed.\<close>

lemma loaded_unused:
  assumes "snd (load_config P f) = c"
  shows "drop (port_count c) (ports c) = replicate (MAX_PORTS - port_count c) zero_port
    \<and> drop (plugin_count c) (plugins c) = replicate (MAX_PLUGINS - plugin_count c) zero_plugin
    \<and> drop (route_count c) (routes c) = replicate (MAX_ROUTES - route_count c) zero_route"
proof -
  have f: "drop (min cap (length (array_of v))) (filled cap f z v) =
      replicate (cap - min cap (length (array_of v))) z" for cap v and z :: 'z and f
    by (simp add: filled_def min_def)
  have "c = clear_config \<or> (\<exists>root. c = load_tree root)"
    using assms by (auto simp: load_config_def split: option.splits)
  then show ?thesis
    by (auto simp: load_tree_eq Let_def f clear_config_def)
qed

lemma resaved_same:
  assumes "snd (load_config P f) = c"
    and "\<forall>p \<in> set (take (port_count c) (ports c)). p_type p \<noteq> PORT_IPC_SERVER \<and> p_use_frame p = 0 \<and> p_fd p = -1"
  shows "resaved c = c"
proof -
  have "map resaved_port (take (port_count c) (ports c)) = take (port_count c) (ports c)"
    by (rule map_idI) (use assms(2) in \<open>auto simp: resaved_port_def\<close>)
  then have "resaved c = c\<lparr>ports := take (port_count c) (ports c) @ drop (port_count c) (ports c),
      plugins := take (plugin_count c) (plugins c) @ drop (plugin_count c) (plugins c),
      routes := take (route_count c) (routes c) @ drop (route_count c) (routes c)\<rparr>"
    using loaded_unused [OF assms(1)] by (simp add: resaved_def)
  then show ?thesis by (cases c) simp
qed

lemma load_saved:
  assumes "P (cstr (Pr (save_tree c))) = Some (save_tree c)" and "config_ok c"
  shows "load_config P (Some (snd (save_config Pr c))) = (0, resaved c)"
proof -
  have "cstr (cstr b @ [0]) = cstr b" for b by (simp add: cstr_append_nul cstr_no_nul)
  with assms show ?thesis by (simp add: load_config_def save_config_def load_save_tree)
qed

section \<open>The search for routes\<close>

definition routes_from :: "cbuf \<Rightarrow> route_def list \<Rightarrow> nat \<Rightarrow> nat list" where
  "routes_from s rs i = map (\<lambda>k. k + i) (filter (\<lambda>k. cstr (r_src (rs ! k)) = cstr s) [0..<length rs])"

lemma routes_from_Cons:
  "routes_from s (r # rs) i =
     (if cstr (r_src r) = cstr s then i # routes_from s rs (i + 1) else routes_from s rs (i + 1))"
proof -
  have "[0..<length (r # rs)] = 0 # map Suc [0..<length rs]"
    by (simp add: map_Suc_upt upt_conv_Cons del: upt_Suc)
  then show ?thesis
    by (simp add: routes_from_def filter_map comp_def del: upt_Suc)
qed

lemma find_routes_loop_eq:
  "find_routes_loop s k rs i out = out @ take (nat k - length out) (routes_from s rs i)"
proof (induction rs arbitrary: i out)
  case Nil
  then show ?case by (simp add: routes_from_def)
next
  case (Cons r rs)
  show ?case
  proof (cases "cstr (r_src r) = cstr s \<and> int (length out) < k")
    case True
    then obtain m where m: "nat k - length out = Suc m"
      by (metis Suc_diff_Suc zless_nat_eq_int_zless)
    then have "nat k - Suc (length out) = m" by simp
    with True m show ?thesis
      by (simp add: strcmp_eq_def Cons.IH routes_from_Cons)
  next
    case False
    then show ?thesis
      by (auto simp: strcmp_eq_def Cons.IH routes_from_Cons)
  qed
qed

section \<open>Properties\<close>

text \<open>
  C25. Whatever the file holds, loading leaves a well-formed configuration: at most 32 ports,
  32 plugins and 64 routes in arrays of that many slots, every string of every slot
  terminated inside its array, and the settings of a port are those of its type. When the
  file cannot be opened or is no JSON, -1 is returned and the configuration is empty.
\<close>

theorem config_load_wf:
  "(case load_config P f of (rc, c) \<Rightarrow>
      length (ports c) = 32 \<and> port_count c \<le> 32 \<and> length (plugins c) = 32 \<and> plugin_count c \<le> 32
      \<and> length (routes c) = 64 \<and> route_count c \<le> 64
      \<and> list_all (\<lambda>p. nul_terminated (p_name p) \<and> length (p_name p) = 32 \<and> cfg_ok (p_type p) (p_cfg p)) (ports c)
      \<and> list_all (\<lambda>p. nul_terminated (pl_name p) \<and> nul_terminated (pl_path p)) (plugins c)
      \<and> list_all (\<lambda>r. nul_terminated (r_src r) \<and> length (r_src r) = 32 \<and> nul_terminated (r_dst r)
            \<and> length (r_dst r) = 32 \<and> nul_terminated (r_plugin r) \<and> nul_terminated (r_handler r)) (routes c)
      \<and> (rc = 0 \<or> rc = -1 \<and> c = clear_config))"
proof -
  obtain rc c where l: "load_config P f = (rc, c)" by (cases "load_config P f")
  have ok: "config_ok c" using config_ok_load_config [of P f] by (simp add: l)
  have rc: "rc = 0 \<or> rc = -1 \<and> c = clear_config"
    using l by (auto simp: load_config_def split: option.splits)
  have "port_ok p \<Longrightarrow> nul_terminated (p_name p) \<and> length (p_name p) = 32 \<and> cfg_ok (p_type p) (p_cfg p)" for p
    by (auto simp: port_ok_def intro: canon_terminated canon_length)
  moreover have "plugin_ok p \<Longrightarrow> nul_terminated (pl_name p) \<and> nul_terminated (pl_path p)" for p
    by (auto simp: plugin_ok_def intro: canon_terminated)
  moreover have "route_ok r \<Longrightarrow> nul_terminated (r_src r) \<and> length (r_src r) = 32 \<and> nul_terminated (r_dst r)
      \<and> length (r_dst r) = 32 \<and> nul_terminated (r_plugin r) \<and> nul_terminated (r_handler r)" for r
    by (auto simp: route_ok_def intro: canon_terminated canon_length)
  ultimately show ?thesis
    using ok rc
    by (simp add: l config_ok_def list_all_iff MAX_PORTS_def MAX_PLUGINS_def MAX_ROUTES_def)
qed

text \<open>
  C18. Saving a loaded configuration and loading the file gives the same configuration, every
  byte of every slot, as long as its used ports are not IPC servers, do not use framing and
  are not open. The hypothesis on the library is that its parser reads back the tree its
  printer wrote.
\<close>

theorem config_roundtrip:
  assumes "snd (load_config P f) = c"
    and "\<forall>p \<in> set (take (port_count c) (ports c)).
      p_type p \<noteq> PORT_IPC_SERVER \<and> p_use_frame p = 0 \<and> p_fd p = -1"
    and "P' (cstr (Pr (save_tree c))) = Some (save_tree c)"
  shows "load_config P' (Some (snd (save_config Pr c))) = (0, c)"
  using load_saved [of P' Pr c, OF assms(3)] config_ok_load_config [of P f] resaved_same [OF assms(1,2)] assms(1)
  by simp

definition demo_tree :: cjson where
  "demo_tree = CJObject
     [(bytes ''ports'', CJArray [CJObject
         [(bytes ''name'', CJString (bytes ''A'')), (bytes ''type'', CJString (bytes ''udp'')),
          (bytes ''udp'', CJObject [(bytes ''port'', CJNumber 7)])]]),
      (bytes ''routes'', CJArray [CJObject
         [(bytes ''src'', CJString (bytes ''A'')), (bytes ''dst'', CJString (bytes ''B''))]])]"

definition demo_config :: config where
  "demo_config = snd (load_config (\<lambda>txt. Some demo_tree) (Some []))"

lemma demo_config_ports:
  "port_count demo_config = 1 \<and> p_type (hd (ports demo_config)) = PORT_UDP
     \<and> p_use_frame (hd (ports demo_config)) = 0 \<and> p_fd (hd (ports demo_config)) = -1"
  by code_simp

theorem config_roundtrip_witness:
  "load_config (\<lambda>txt. Some (save_tree demo_config)) (Some (snd (save_config (\<lambda>t. [1]) demo_config)))
     = (0, demo_config)"
proof -
  have "length (ports demo_config) = 32"
    using config_ok_load_config [of "\<lambda>txt. Some demo_tree" "Some []"]
    by (simp add: config_ok_def demo_config_def MAX_PORTS_def)
  then have "set (take (port_count demo_config) (ports demo_config)) = {hd (ports demo_config)}"
    using demo_config_ports by (cases "ports demo_config") auto
  then show ?thesis
    using demo_config_ports
    by (intro config_roundtrip [where P = "\<lambda>txt. Some demo_tree" and f = "Some []"])
       (simp_all add: demo_config_def)
qed

text \<open>
  C26. What a save and load loses, for any loaded configuration: exactly the framing flags and
  the descriptors of the ports, and the type and settings of every IPC server port, which
  comes back as a \<open>tty\<close> port with an empty path; names, plugins, routes and the settings of
  all other ports survive. The hypothesis on the library is the one of the round trip.
\<close>

theorem config_save_loses:
  assumes "snd (load_config P f) = c"
    and "P' (cstr (Pr (save_tree c))) = Some (save_tree c)"
  shows "case load_config P' (Some (snd (save_config Pr c))) of (rc, c') \<Rightarrow>
     rc = 0 \<and> plugins c' = plugins c \<and> plugin_count c' = plugin_count c
     \<and> routes c' = routes c \<and> route_count c' = route_count c \<and> port_count c' = port_count c
     \<and> take (port_count c) (ports c') = map (\<lambda>p.
         if p_type p = PORT_IPC_SERVER
         then p\<lparr>p_fd := -1, p_use_frame := 0, p_type := PORT_TTY, p_cfg := Cfg_tty zero_tty\<rparr>
         else p\<lparr>p_fd := -1, p_use_frame := 0\<rparr>) (take (port_count c) (ports c))"
proof -
  have ok: "config_ok c" using config_ok_load_config [of P f] assms(1) by simp
  have "zero_port\<lparr>p_name := p_name p, p_fd := -1\<rparr> =
      p\<lparr>p_fd := -1, p_use_frame := 0, p_type := PORT_TTY, p_cfg := Cfg_tty zero_tty\<rparr>" for p
    by (cases p) (simp add: zero_port_def)
  then have "resaved_port = (\<lambda>p. if p_type p = PORT_IPC_SERVER
      then p\<lparr>p_fd := -1, p_use_frame := 0, p_type := PORT_TTY, p_cfg := Cfg_tty zero_tty\<rparr>
      else p\<lparr>p_fd := -1, p_use_frame := 0\<rparr>)"
    by (simp add: fun_eq_iff resaved_port_def)
  moreover have "plugins (resaved c) = plugins c" "routes (resaved c) = routes c"
    using loaded_unused [OF assms(1)] append_take_drop_id [of "plugin_count c" "plugins c"]
      append_take_drop_id [of "route_count c" "routes c"] by (simp_all add: resaved_def)
  moreover have "length (take (port_count c) (ports c)) = port_count c"
    using ok by (simp add: config_ok_def)
  ultimately show ?thesis
    using load_saved [of P' Pr c, OF assms(2) ok] by (simp add: resaved_def)
qed

theorem config_save_loses_witness:
  "fst (load_config (\<lambda>txt. Some (save_tree demo_config)) (Some (snd (save_config (\<lambda>t. [1]) demo_config)))) = 0"
  using config_save_loses [of "\<lambda>txt. Some demo_tree" "Some []" demo_config
      "\<lambda>txt. Some (save_tree demo_config)" "\<lambda>t. [1]"]
  by (auto simp: demo_config_def split: prod.splits)

text \<open>
  The descriptor a port starts with is -1, except that a \<open>tty\<close> port without a \<open>tty\<close>
  object keeps the 0 of the cleared memory, which is an open descriptor.
\<close>

theorem config_port_fd:
  "p_fd (parse_port item zero_port) =
     (if cstr (get_str (Some item) ''type'' (replicate 32 0)) = bytes ''tty''
         \<and> cJSON_GetObjectItem (Some item) (bytes ''tty'') = None
      then 0 else -1)"
proof -
  have "strcmp_eq b (bytes ''tty'') = (cstr b = bytes ''tty'')" for b
  proof -
    have "cstr (bytes ''tty'') = bytes ''tty''" by (simp add: bytes_def cstr_Cons)
    then show ?thesis by (simp add: strcmp_eq_def)
  qed
  then show ?thesis by (simp add: parse_port_def Let_def zero_port_def)
qed

text \<open>
  The routes of a source are found completely and in order: the result is the first
  \<open>max_out\<close> of the indices, ascending, of the used routes whose source is this name.
\<close>

theorem config_routes_found:
  "config_find_routes_by_src (Some s) max_out c =
     take (nat max_out)
       (filter (\<lambda>i. cstr (r_src (take (route_count c) (routes c) ! i)) = cstr s)
         [0..<length (take (route_count c) (routes c))])"
  by (simp add: config_find_routes_by_src_def find_routes_loop_eq routes_from_def)

text \<open>
  C27. In a loaded configuration the bounded comparison of \<open>config_find_port\<close> decides equality
  of names: the result is the first used port with exactly this name, and NULL when there is
  none, for names of up to 32 bytes.
\<close>

theorem config_find_port_exact:
  assumes "config_ok c" and "cstr s \<noteq> []" and "length (cstr s) \<le> 32"
  shows "config_find_port (Some s) c =
    find_index (\<lambda>p. cstr (p_name p) = cstr s) (take (port_count c) (ports c))"
proof -
  have "strncmp_eq (p_name p) s 32 = (cstr (p_name p) = cstr s)"
    if "p \<in> set (take (port_count c) (ports c))" for p
  proof -
    have "port_ok p" using assms(1) that by (auto simp: config_ok_def dest: in_set_takeD)
    then have "length (cstr (p_name p)) < 32"
      using length_cstr_less [OF canon_terminated] canon_length
      by (fastforce simp: port_ok_def)
    then show ?thesis using assms(3) by (simp add: strncmp_eq_def)
  qed
  then have "find_index (\<lambda>p. strncmp_eq (p_name p) s 32) (take (port_count c) (ports c)) =
      find_index (\<lambda>p. cstr (p_name p) = cstr s) (take (port_count c) (ports c))"
    by (intro find_index_cong) (auto simp del: nth_take dest: nth_mem)
  with assms(2) show ?thesis by (simp add: config_find_port_def)
qed

theorem config_find_port_exact_witness:
  "config_find_port (Some (bytes ''A'')) demo_config =
     find_index (\<lambda>p. cstr (p_name p) = cstr (bytes ''A'')) (take (port_count demo_config) (ports demo_config))"
  by (rule config_find_port_exact)
     (use config_ok_load_config [of "\<lambda>txt. Some demo_tree" "Some []"] in
       \<open>simp_all add: demo_config_def bytes_def cstr_Cons\<close>)

end
