(* ===== verification/Log.thy ===== *)
theory Log
  imports CString
begin

text \<open>
  The log: \<^verbatim>\<open>routerd/include/log.h\<close> and \<^verbatim>\<open>routerd/src/log.c\<close>. The state is the two global
  variables and the bytes printed so far; the local time is an argument of \<open>log_write\<close>, and its
  text is what the format and its arguments give. The mutex keeps a line in one piece.
\<close>

datatype log_level = LOG_LEVEL_NONE | LOG_LEVEL_ERROR | LOG_LEVEL_WARN | LOG_LEVEL_INFO | LOG_LEVEL_DEBUG

fun level_code :: "log_level \<Rightarrow> nat" where
  "level_code LOG_LEVEL_NONE = 0"
| "level_code LOG_LEVEL_ERROR = 1"
| "level_code LOG_LEVEL_WARN = 2"
| "level_code LOG_LEVEL_INFO = 3"
| "level_code LOG_LEVEL_DEBUG = 4"

lemma level_code_inj [simp]: "level_code a = level_code b \<longleftrightarrow> a = b"
  by (cases a; cases b) simp_all

text \<open>The enumeration is compared as its numbers.\<close>

instantiation log_level :: linorder
begin

definition less_eq_log_level :: "log_level \<Rightarrow> log_level \<Rightarrow> bool" where
  "less_eq_log_level a b = (level_code a \<le> level_code b)"

definition less_log_level :: "log_level \<Rightarrow> log_level \<Rightarrow> bool" where
  "less_log_level a b = (level_code a < level_code b)"

instance
  by standard (auto simp: less_eq_log_level_def less_log_level_def antisym)

end

record log_state =
  g_log_enable :: int
  g_log_level :: log_level
  log_out :: "u8 list"

definition log_static :: log_state where
  "log_static = \<lparr>g_log_enable = 0, g_log_level = LOG_LEVEL_INFO, log_out = []\<rparr>"

fun level_to_str :: "log_level \<Rightarrow> string" where
  "level_to_str LOG_LEVEL_ERROR = ''ERROR''"
| "level_to_str LOG_LEVEL_WARN = ''WARN''"
| "level_to_str LOG_LEVEL_INFO = ''INFO''"
| "level_to_str LOG_LEVEL_DEBUG = ''DEBUG''"
| "level_to_str LOG_LEVEL_NONE = ''NONE''"

definition log_init :: "int \<Rightarrow> log_level \<Rightarrow> log_state \<Rightarrow> log_state" where
  "log_init enable level s = s\<lparr>g_log_enable := enable, g_log_level := level,
     log_out := log_out s @
       (if enable \<noteq> 0 then bytes ''[log] enabled, level='' @ bytes (level_to_str level) @ [10]
        else bytes ''[log] disabled'' @ [10])\<rparr>"

definition log_set_level :: "log_level \<Rightarrow> log_state \<Rightarrow> log_state" where
  "log_set_level level s = s\<lparr>g_log_level := level\<rparr>"

definition log_enable :: "int \<Rightarrow> log_state \<Rightarrow> log_state" where
  "log_enable enable s = s\<lparr>g_log_enable := enable\<rparr>"

definition log_toggle :: "log_state \<Rightarrow> log_state" where
  "log_toggle s =
     (let enable = (if g_log_enable s = 0 then 1 else 0)
      in s\<lparr>g_log_enable := enable, log_out := log_out s @
           bytes ''[log] switched '' @ bytes (if enable \<noteq> 0 then ''ON'' else ''OFF'') @ [10]\<rparr>)"

section \<open>Lines\<close>

text \<open>The fields of \<open>struct tm\<close> that are printed: years since 1900, months from 0.\<close>

record tm =
  tm_year :: int
  tm_mon :: int
  tm_mday :: int
  tm_hour :: int
  tm_min :: int
  tm_sec :: int

definition dec2 :: "int \<Rightarrow> u8 list" where
  "dec2 i = [48 + word_of_int (i div 10), 48 + word_of_int (i mod 10)]"

text \<open>\<open>strftime\<close> with \<open>%Y-%m-%d %H:%M:%S\<close>.\<close>

definition timestamp :: "tm \<Rightarrow> u8 list" where
  "timestamp t = dec_int (tm_year t + 1900) @ bytes ''-'' @ dec2 (tm_mon t + 1) @ bytes ''-'' @ dec2 (tm_mday t)
     @ bytes '' '' @ dec2 (tm_hour t) @ bytes '':'' @ dec2 (tm_min t) @ bytes '':'' @ dec2 (tm_sec t)"

definition log_line :: "tm \<Rightarrow> log_level \<Rightarrow> u8 list \<Rightarrow> u8 list" where
  "log_line t level txt =
     bytes ''['' @ timestamp t @ bytes ''] ['' @ bytes (level_to_str level) @ bytes ''] '' @ txt @ [10]"

definition log_write :: "tm \<Rightarrow> log_level \<Rightarrow> u8 list \<Rightarrow> log_state \<Rightarrow> log_state" where
  "log_write t level txt s =
     (if g_log_enable s = 0 \<or> level > g_log_level s then s
      else s\<lparr>log_out := log_out s @ log_line t level txt\<rparr>)"

text \<open>Which lines are printed.\<close>

lemma log_writes_out:
  "g_log_enable s \<noteq> 0 \<Longrightarrow> log_out (fold (\<lambda>(t, l, x). log_write t l x) ws s) =
     log_out s @ concat (map (\<lambda>(t, l, x). log_line t l x) (filter (\<lambda>(t, l, x). l \<le> g_log_level s) ws))"
  by (induction ws arbitrary: s) (auto simp: log_write_def not_less)

text \<open>The buffer \<open>timebuf\<close> has 32 bytes, which is room enough for every year an \<open>int\<close> holds.\<close>

lemma dec_nat_length: "n < 10 ^ k \<Longrightarrow> 0 < k \<Longrightarrow> length (dec_nat n) \<le> k"
proof (induction k arbitrary: n)
  case (Suc k)
  show ?case
  proof (cases "n < 10")
    case True
    then show ?thesis by (simp add: dec_nat.simps [of n])
  next
    case False
    with Suc.prems(1) have "n div 10 < 10 ^ k" and "0 < k"
      by (auto simp: less_mult_imp_div_less intro: gr0I)
    with Suc.IH [of "n div 10"] False show ?thesis by (simp add: dec_nat.simps [of n])
  qed
qed simp

lemma timestamp_fits:
  assumes "- (2 ^ 31) \<le> tm_year t" and "tm_year t < 2 ^ 31"
  shows "length (timestamp t) < 32"
proof -
  have "length (dec_nat (nat \<bar>tm_year t + 1900\<bar>)) \<le> 10"
    by (rule dec_nat_length) (use assms in simp_all)
  then have "length (dec_int (tm_year t + 1900)) \<le> 11"
    by (auto simp: dec_int_def)
  then show ?thesis by (simp add: timestamp_def dec2_def bytes_def)
qed

end
