(* ===== verification/ConfigPrint.thy ===== *)
theory ConfigPrint
  imports ConfigStore Log
begin

text \<open>
  The dump of the configuration, \<open>config_print\<close> in \<^verbatim>\<open>routerd/src/config_store.c\<close>: the text of
  each call of \<open>LOG_INFO\<close>, in order, handed to \<open>log_write\<close>.
\<close>

section \<open>Conversions\<close>

text \<open>A literal with \<open>%s\<close> or \<open>%d\<close> and a line end.\<close>

definition line_s :: "string \<Rightarrow> cbuf \<Rightarrow> u8 list" where
  "line_s t b = bytes t @ cstr b @ [10]"

definition line_d :: "string \<Rightarrow> int \<Rightarrow> u8 list" where
  "line_d t i = bytes t @ dec_int i @ [10]"

section \<open>The dump\<close>

fun type_code :: "port_type \<Rightarrow> int" where
  "type_code PORT_TTY = 0"
| "type_code PORT_TCP_SERVER = 1"
| "type_code PORT_TCP_CLIENT = 2"
| "type_code PORT_UDP = 3"
| "type_code PORT_USB = 4"
| "type_code PORT_IPC_SERVER = 5"
| "type_code PORT_IPC_CLIENT = 6"

text \<open>The \<open>switch\<close> over the type; a port's settings are those of its type.\<close>

fun print_settings :: "port_type \<Rightarrow> port_cfg \<Rightarrow> u8 list list" where
  "print_settings PORT_TTY (Cfg_tty t) =
     [bytes ''tty'' @ [10], line_s ''      path      : '' (tty_path t), line_d ''      baudrate  : '' (baudrate t),
      line_d ''      databits  : '' (databits t), line_d ''      stopbits  : '' (stopbits t),
      line_d ''      parity    : '' (parity t), line_d ''      flow      : '' (flow t)]"
| "print_settings PORT_TCP_SERVER (Cfg_tcp_server t) =
     [bytes ''tcp_server'' @ [10], line_s ''      bind      : '' (server_bind t),
      line_d ''      port      : '' (server_port t), line_d ''      backlog   : '' (backlog t)]"
| "print_settings PORT_TCP_CLIENT (Cfg_tcp_client t) =
     [bytes ''tcp_client'' @ [10], line_s ''      addr      : '' (client_addr t),
      line_d ''      port      : '' (client_port t)]"
| "print_settings PORT_UDP (Cfg_udp t) =
     [bytes ''udp'' @ [10], line_s ''      bind      : '' (udp_bind t), line_d ''      port      : '' (udp_port t)]"
| "print_settings PORT_USB (Cfg_usb path) = [bytes ''usb'' @ [10], line_s ''      path      : '' path]"
| "print_settings PORT_IPC_SERVER (Cfg_ipc path) = [bytes ''ipc'' @ [10], line_s ''      path      : '' path]"
| "print_settings ty _ = [bytes ''UNKNOWN('' @ dec_int (type_code ty) @ bytes '')'' @ [10]]"

definition print_port :: "nat \<times> port_def \<Rightarrow> u8 list list" where
  "print_port = (\<lambda>(i, p).
     [bytes ''  ['' @ dec_int (int i) @ bytes '']'' @ [10], line_s ''    name : '' (p_name p),
      line_d ''    use_frame: '' (p_use_frame p), bytes ''    type : '']
     @ print_settings (p_type p) (p_cfg p) @ [line_d ''    fd : '' (p_fd p)])"

definition print_plugin :: "nat \<times> plugin_def \<Rightarrow> u8 list list" where
  "print_plugin = (\<lambda>(i, p).
     [bytes ''  ['' @ dec_int (int i) @ bytes '']'' @ [10], line_s ''    name : '' (pl_name p),
      line_s ''    path : '' (pl_path p)])"

definition print_route :: "nat \<times> route_def \<Rightarrow> u8 list list" where
  "print_route = (\<lambda>(i, r).
     [bytes ''  ['' @ dec_int (int i) @ bytes '']'' @ [10], line_s ''    src     : '' (r_src r),
      line_s ''    dst     : '' (r_dst r), line_s ''    plugin  : '' (r_plugin r),
      line_s ''    handler : '' (r_handler r)])"

definition config_dump :: "config \<Rightarrow> u8 list list" where
  "config_dump c =
     [[10] @ bytes ''================ CONFIG DUMP ================'' @ [10]]
     @ [[10] @ line_d ''[PORTS] count = '' (int (port_count c))]
     @ concat (map print_port (enumerate 0 (take (port_count c) (ports c))))
     @ [[10] @ line_d ''[PLUGINS] count = '' (int (plugin_count c))]
     @ concat (map print_plugin (enumerate 0 (take (plugin_count c) (plugins c))))
     @ [[10] @ line_d ''[ROUTES] count = '' (int (route_count c))]
     @ concat (map print_route (enumerate 0 (take (route_count c) (routes c))))
     @ [[10] @ bytes ''============================================='' @ [10, 10]]"

text \<open>The clock is read for each line: \<open>clock i\<close> is the local time at the \<open>i\<close>-th.\<close>

definition config_print :: "(nat \<Rightarrow> tm) \<Rightarrow> config \<Rightarrow> log_state \<Rightarrow> log_state" where
  "config_print clock c s =
     fold (\<lambda>(i, txt). log_write (clock i) LOG_LEVEL_INFO txt) (enumerate 0 (config_dump c)) s"

section \<open>What is printed\<close>

lemma config_print_out:
  "config_print clock c s = (if g_log_enable s = 0 \<or> LOG_LEVEL_INFO > g_log_level s then s
     else s\<lparr>log_out := log_out s @
       concat (map (\<lambda>(i, txt). log_line (clock i) LOG_LEVEL_INFO txt) (enumerate 0 (config_dump c)))\<rparr>)"
proof -
  have "fold (\<lambda>(i, txt). log_write (clock i) LOG_LEVEL_INFO txt) its s =
     (if g_log_enable s = 0 \<or> LOG_LEVEL_INFO > g_log_level s then s
      else s\<lparr>log_out := log_out s @ concat (map (\<lambda>(i, txt). log_line (clock i) LOG_LEVEL_INFO txt) its)\<rparr>)" for its
    by (induction its arbitrary: s) (auto simp: log_write_def)
  then show ?thesis by (simp add: config_print_def)
qed

end
