(* ===== verification/RouterLink.thy ===== *)
theory RouterLink
  imports CString
begin

text \<open>
  The older table of links: \<^verbatim>\<open>routerd/include/router_link.h\<close> and
  \<^verbatim>\<open>routerd/src/router_link.c\<close>. The bodies of the three functions are commented out except for
  one line that is printed, so none of them changes the table.
\<close>

definition MAX_LINKS_router :: nat where "MAX_LINKS_router = 64"

record router_link =
  in_port :: int
  out_port :: int
  bidir :: int
  hook_in_name :: cbuf
  hook_out_name :: cbuf

text \<open>The global table and the number of its links, with what is printed.\<close>

record link_table =
  g_links :: "router_link list"
  g_link_count :: int
  link_out :: "u8 list"

definition zero_link :: router_link where
  "zero_link = \<lparr>in_port = 0, out_port = 0, bidir = 0, hook_in_name = replicate 128 0, hook_out_name = replicate 128 0\<rparr>"

definition link_static :: link_table where
  "link_static = \<lparr>g_links = replicate MAX_LINKS_router zero_link, g_link_count = 0, link_out = []\<rparr>"

definition router_clear_routes :: "link_table \<Rightarrow> link_table" where
  "router_clear_routes s = s\<lparr>link_out := link_out s @ bytes ''[router] routes cleared'' @ [10]\<rparr>"

definition router_register_routes :: "router_link list \<Rightarrow> int \<Rightarrow> link_table \<Rightarrow> link_table" where
  "router_register_routes src count s = s"

definition router_restore_from_config :: "link_table \<Rightarrow> link_table" where
  "router_restore_from_config s = s"

text \<open>Whatever is called, no link is ever in the table.\<close>

datatype link_call = Clear | Register "router_link list" int | Restore

fun link_step :: "link_call \<Rightarrow> link_table \<Rightarrow> link_table" where
  "link_step Clear s = router_clear_routes s"
| "link_step (Register src n) s = router_register_routes src n s"
| "link_step Restore s = router_restore_from_config s"

lemma link_step_same: "g_links (link_step c s) = g_links s" "g_link_count (link_step c s) = g_link_count s"
  by (cases c; simp add: router_clear_routes_def router_register_routes_def router_restore_from_config_def)+

lemma links_never_registered:
  "g_links (fold link_step calls link_static) = replicate MAX_LINKS_router zero_link
    \<and> g_link_count (fold link_step calls link_static) = 0"
proof -
  have "g_links (fold link_step calls s) = g_links s \<and> g_link_count (fold link_step calls s) = g_link_count s" for s
    by (induction calls arbitrary: s) (simp_all add: link_step_same)
  then show ?thesis by (simp add: link_static_def)
qed

end
