(* ===== verification/Supervisor.thy ===== *)
theory Supervisor
  imports Registry
begin

text \<open>
  The supervisor of child programs: \<^verbatim>\<open>routerd/include/supervisor.h\<close> and
  \<^verbatim>\<open>routerd/src/supervisor.c\<close>. The result of \<open>fork\<close> in the parent and the clock are
  arguments. \<open>supervisor_spawn\<close> gives up the mutex around \<open>fork\<close>, so it is two steps: picking a
  slot, and recording the child in whatever the table is then.
\<close>

section \<open>State and operations\<close>

definition SUPERVISOR_MAX_CHILDREN :: nat where "SUPERVISOR_MAX_CHILDREN = 32"
definition SUPERVISOR_NAME_LEN :: nat where "SUPERVISOR_NAME_LEN = 64"

record sup_child =
  ch_in_use :: bool
  ch_pid :: int
  ch_spawn_ms :: u64
  ch_name :: cbuf

record supervisor =
  sup_inited :: bool
  g_children :: "sup_child list"
  sigchld_ignored :: bool

definition zero_child :: sup_child where
  "zero_child = \<lparr>ch_in_use = False, ch_pid = 0, ch_spawn_ms = 0, ch_name = replicate SUPERVISOR_NAME_LEN 0\<rparr>"

definition supervisor_static :: supervisor where
  "supervisor_static = \<lparr>sup_inited = False, g_children = replicate SUPERVISOR_MAX_CHILDREN zero_child,
     sigchld_ignored = False\<rparr>"

definition supervisor_init :: "supervisor \<Rightarrow> supervisor" where
  "supervisor_init s =
     (if \<not> sup_inited s
      then s\<lparr>g_children := replicate SUPERVISOR_MAX_CHILDREN zero_child, sigchld_ignored := True, sup_inited := True\<rparr>
      else s)"

definition supervisor_close :: "supervisor \<Rightarrow> supervisor" where
  "supervisor_close s = s"

definition free_slot_of :: "supervisor \<Rightarrow> nat option" where
  "free_slot_of s = find_index (\<lambda>c. \<not> ch_in_use c) (g_children s)"

text \<open>Up to \<open>fork\<close>: the slot that was picked, or the call fails.\<close>

definition spawn_pick :: "u8 list option \<Rightarrow> u8 list list option \<Rightarrow> supervisor \<Rightarrow> nat option \<times> supervisor" where
  "spawn_pick nm argv s =
     (let s = (if sup_inited s then s else supervisor_init s)
      in case (nm, argv) of
           (Some n, Some (a # as)) \<Rightarrow> (free_slot_of s, s)
         | _ \<Rightarrow> (None, s))"

text \<open>
  After \<open>fork\<close> in the parent: the value returned and the process killed because the table had
  filled up in between, if any.
\<close>

definition spawn_finish ::
    "nat \<Rightarrow> int \<Rightarrow> u8 list \<Rightarrow> timespec \<Rightarrow> supervisor \<Rightarrow> int \<times> int option \<times> supervisor" where
  "spawn_finish slot pid nm ts s =
     (if pid < 0 then (-1, None, s)
      else
        case (if ch_in_use (g_children s ! slot) then free_slot_of s else Some slot) of
          None \<Rightarrow> (-1, Some pid, s)
        | Some i \<Rightarrow>
            let c = g_children s ! i;
                c = c\<lparr>ch_in_use := True, ch_pid := pid, ch_spawn_ms := registry_now_ms ts,
                      ch_name := (strncpy (ch_name c) nm (SUPERVISOR_NAME_LEN - 1))[SUPERVISOR_NAME_LEN - 1 := 0]\<rparr>
            in (pid, None, s\<lparr>g_children := (g_children s)[i := c]\<rparr>))"

text \<open>With no other thread in between.\<close>

definition supervisor_spawn ::
    "int \<Rightarrow> timespec \<Rightarrow> u8 list option \<Rightarrow> u8 list list option \<Rightarrow> supervisor \<Rightarrow> int \<times> int option \<times> supervisor" where
  "supervisor_spawn pid ts nm argv s =
     (case spawn_pick nm argv s of
        (None, s) \<Rightarrow> (-1, None, s)
      | (Some slot, s) \<Rightarrow> spawn_finish slot pid (case nm of Some n \<Rightarrow> n | None \<Rightarrow> []) ts s)"

definition collect_cb :: "subproc_entry \<Rightarrow> subproc_entry list \<Rightarrow> subproc_entry list" where
  "collect_cb e es = (if length es < REGISTRY_MAX_SUBPROCS then es @ [e] else es)"

definition is_stale :: "u64 \<Rightarrow> u64 \<Rightarrow> subproc_entry \<Rightarrow> bool" where
  "is_stale now_ms timeout_ms e \<longleftrightarrow>
     (if now_ms \<le> last_heartbeat_ms e then False
      else let age = now_ms - last_heartbeat_ms e in age > timeout_ms)"

definition supervisor_check_heartbeats_at :: "u64 \<Rightarrow> u64 \<Rightarrow> registry \<Rightarrow> nat" where
  "supervisor_check_heartbeats_at now_ms timeout_ms r =
     (let ctx = registry_iterate collect_cb r []
      in fold (\<lambda>e stale. if is_stale now_ms timeout_ms e then stale + 1 else stale) ctx 0)"

definition supervisor_check_heartbeats :: "timespec \<Rightarrow> u64 \<Rightarrow> registry \<Rightarrow> nat" where
  "supervisor_check_heartbeats ts timeout_ms r =
     supervisor_check_heartbeats_at (registry_now_ms ts) timeout_ms r"

definition supervisor_child_count :: "supervisor \<Rightarrow> nat" where
  "supervisor_child_count s = (if \<not> sup_inited s then 0 else length (filter ch_in_use (g_children s)))"

section \<open>The child table\<close>

definition sup_inv :: "supervisor \<Rightarrow> bool" where
  "sup_inv s \<longleftrightarrow> length (g_children s) = SUPERVISOR_MAX_CHILDREN
     \<and> (\<forall>c \<in> set (g_children s). length (ch_name c) = SUPERVISOR_NAME_LEN)"

lemma sup_init_simps [simp]:
  "sup_inited (supervisor_init s)" "sup_inited s \<Longrightarrow> supervisor_init s = s"
  "(if sup_inited s then s else supervisor_init s) = supervisor_init s"
  by (simp_all add: supervisor_init_def)

lemma sup_inv_init: "sup_inv s \<Longrightarrow> sup_inv (supervisor_init s)"
  by (auto simp: sup_inv_def supervisor_init_def zero_child_def)

lemma child_count_init [simp]: "supervisor_child_count (supervisor_init s) = supervisor_child_count s"
  by (simp add: supervisor_child_count_def supervisor_init_def zero_child_def)

lemma child_count_le: "sup_inv s \<Longrightarrow> supervisor_child_count s \<le> 32"
  using length_filter_le [of ch_in_use "g_children s"]
  unfolding supervisor_child_count_def sup_inv_def SUPERVISOR_MAX_CHILDREN_def
  by (cases "sup_inited s") (simp_all del: length_filter_le)

lemma free_slot_full: "sup_inited s \<Longrightarrow> (free_slot_of s = None) = (supervisor_child_count s = length (g_children s))"
  using length_filter_less [of _ "g_children s" ch_in_use]
  by (fastforce simp: free_slot_of_def find_index_None supervisor_child_count_def filter_True)

text \<open>Recording a child in any table: used slots are never touched.\<close>

lemma spawn_finish_effect:
  assumes "sup_inv s" and "sup_inited s" and "slot < length (g_children s)"
    and "spawn_finish slot pid nm ts s = (rc, killed, s')"
  shows "sup_inv s' \<and> sup_inited s'
    \<and> (\<forall>i < length (g_children s). ch_in_use (g_children s ! i) \<longrightarrow> g_children s' ! i = g_children s ! i)
    \<and> (if pid < 0 then rc = -1 \<and> killed = None \<and> s' = s
       else rc = pid \<and> killed = None \<and> supervisor_child_count s' = supervisor_child_count s + 1
         \<or> rc = -1 \<and> killed = Some pid \<and> s' = s \<and> supervisor_child_count s = length (g_children s))"
proof (cases "pid < 0")
  case True
  with assms show ?thesis by (simp add: spawn_finish_def)
next
  case False
  show ?thesis
  proof (cases "if ch_in_use (g_children s ! slot) then free_slot_of s else Some slot")
    case None
    then have "free_slot_of s = None" by (simp split: if_splits)
    then have full: "supervisor_child_count s = length (g_children s)"
      by (simp add: free_slot_full [OF assms(2)])
    from None False assms(4) have "rc = -1" "killed = Some pid" "s' = s" by (simp_all add: spawn_finish_def)
    with False full assms(1,2) show ?thesis by simp
  next
    case (Some i)
    then have i: "i < length (g_children s)" "\<not> ch_in_use (g_children s ! i)"
      using assms(3) by (auto simp: free_slot_of_def split: if_splits dest: find_index_SomeD(1,2))
    let ?c = "(g_children s ! i)\<lparr>ch_in_use := True, ch_pid := pid, ch_spawn_ms := registry_now_ms ts,
        ch_name := (strncpy (ch_name (g_children s ! i)) nm (SUPERVISOR_NAME_LEN - 1))[SUPERVISOR_NAME_LEN - 1 := 0]\<rparr>"
    have s': "s' = s\<lparr>g_children := (g_children s)[i := ?c]\<rparr>" "rc = pid" "killed = None"
      using assms(4) False Some by (auto simp: spawn_finish_def Let_def)
    have nmlen: "length (ch_name (g_children s ! i)) = SUPERVISOR_NAME_LEN"
      using assms(1) i(1) by (simp add: sup_inv_def)
    have "sup_inv s'"
      using assms(1) nmlen by (auto simp: s' sup_inv_def dest!: in_set_updateD)
    moreover have "supervisor_child_count s' = supervisor_child_count s + 1"
      using count_filter_update_grow [of i "g_children s" ch_in_use ?c] i assms(2)
      by (simp add: s' supervisor_child_count_def)
    ultimately show ?thesis
      using i(2) False assms(2) by (auto simp: s' nth_list_update_if)
  qed
qed

section \<open>The heartbeat check\<close>

text \<open>The copy of the table: \<open>collect_cb\<close> never finds its array full.\<close>

lemma collect_eq:
  assumes "reg_inv r"
  shows "registry_iterate collect_cb r [] = (if g_inited r then filter in_use (g_table r) else [])"
proof -
  have collect: "fold collect_cb es acc = acc @ es" if "length acc + length es \<le> REGISTRY_MAX_SUBPROCS" for es acc
    using that by (induction es arbitrary: acc) (auto simp: collect_cb_def)
  have "length (filter in_use (g_table r)) \<le> REGISTRY_MAX_SUBPROCS" if "g_inited r"
    using assms that length_filter_le [of in_use "g_table r"] by (simp add: reg_inv_def table_inv_def)
  then show ?thesis using collect [of "[]" "filter in_use (g_table r)"] by (simp add: registry_iterate_def)
qed

lemma collect_entries:
  assumes "reg_inv r"
  shows "(\<exists>e \<in> set (registry_iterate collect_cb r []). client_fd e = fd \<and> entry_info e = v) = (reg_entry r fd = Some v)"
proof (cases "g_inited r")
  case False
  then show ?thesis by (simp add: collect_eq [OF assms] reg_entry_uninit)
next
  case True
  have t: "table_inv (g_table r)" using assms by (simp add: reg_inv_def)
  show ?thesis
  proof
    assume "\<exists>e \<in> set (registry_iterate collect_cb r []). client_fd e = fd \<and> entry_info e = v"
    then obtain i where "i < length (g_table r)" "in_use (g_table r ! i)" "client_fd (g_table r ! i) = fd"
      "entry_info (g_table r ! i) = v" by (auto simp: collect_eq [OF assms] True in_set_conv_nth)
    with reg_entry_at [OF t True] show "reg_entry r fd = Some v" by auto
  next
    assume "reg_entry r fd = Some v"
    from reg_entry_SomeD [OF this] obtain i where "i < length (g_table r)" "used_by_fd fd (g_table r ! i)"
      "v = entry_info (g_table r ! i)" by auto
    then show "\<exists>e \<in> set (registry_iterate collect_cb r []). client_fd e = fd \<and> entry_info e = v"
      by (intro bexI [of _ "g_table r ! i"]) (simp_all add: collect_eq [OF assms] True used_by_fd_def)
  qed
qed

lemma is_stale_iff: "is_stale now_ms timeout_ms e = (unat timeout_ms < unat now_ms - unat (last_heartbeat_ms e))"
  by (auto simp: is_stale_def Let_def word_le_nat_alt word_less_nat_alt unat_sub)

lemma stale_fold: "fold (\<lambda>e n. if Q e then n + 1 else n) es (a :: nat) = a + length (filter Q es)"
  by (induction es arbitrary: a) auto

lemma stale_count:
  assumes "reg_inv r"
  shows "supervisor_check_heartbeats_at now_ms timeout_ms r =
    card {fd. \<exists>meta t. reg_entry r fd = Some (meta, t) \<and> unat timeout_ms < unat now_ms - unat t}"
proof -
  let ?l = "registry_iterate collect_cb r []"
  have "distinct (map client_fd ?l)"
    using assms distinct_fds [of "g_table r"] by (simp add: collect_eq [OF assms] reg_inv_def)
  then have d: "distinct (map client_fd (filter (is_stale now_ms timeout_ms) ?l))" by (rule distinct_map_filter)
  have "client_fd ` {e \<in> set ?l. is_stale now_ms timeout_ms e} =
      {fd. \<exists>meta t. reg_entry r fd = Some (meta, t) \<and> unat timeout_ms < unat now_ms - unat t}"
    unfolding collect_entries [OF assms, symmetric] by (auto simp: is_stale_iff entry_info_def)
  with distinct_card [OF d] show ?thesis
    by (simp add: supervisor_check_heartbeats_at_def Let_def stale_fold)
qed

section \<open>Properties\<close>

text \<open>
  C31. The heartbeat check counts exactly the registered connections whose last heartbeat is
  more than the time-out before now: no entry is missed because of the 64-bit subtraction,
  and an entry stamped after now is not stale.
\<close>

theorem stale_count_exact:
  assumes "reg_inv r"
  shows "supervisor_check_heartbeats_at now_ms timeout_ms r =
    card {fd. \<exists>meta t. reg_entry r fd = Some (meta, t) \<and> unat timeout_ms < unat now_ms - unat t}"
  by (rule stale_count [OF assms])

theorem stale_count_exact_witness:
  "supervisor_check_heartbeats_at 11000 5000 demo_reg = 1"
proof -
  have "{fd. \<exists>meta t. reg_entry demo_reg fd = Some (meta, t) \<and> unat (5000 :: u64) < unat (11000 :: u64) - unat t} = {4}"
    by (auto simp: demo_reg_entry)
  with stale_count_exact [OF demo_reg_inv, of 11000 5000] show ?thesis by simp
qed

text \<open>
  C32. Spawning with other threads in between: whatever the table has become while the mutex
  was released for \<open>fork\<close>, recording the child overwrites no used slot; it adds one child and
  returns its pid, or the table has filled up, the child is killed and -1 returned.
\<close>

theorem spawn_no_overwrite:
  assumes "sup_inv s" and "sup_inited s" and "slot < length (g_children s)" and "0 \<le> pid"
    and "spawn_finish slot pid nm ts s = (rc, killed, s')"
  shows "(\<forall>i < length (g_children s). ch_in_use (g_children s ! i) \<longrightarrow> g_children s' ! i = g_children s ! i)
    \<and> (rc = pid \<and> killed = None \<and> supervisor_child_count s' = supervisor_child_count s + 1
       \<or> rc = -1 \<and> killed = Some pid \<and> s' = s \<and> supervisor_child_count s = 32)"
proof -
  have "length (g_children s) = 32" using assms(1) by (simp add: sup_inv_def SUPERVISOR_MAX_CHILDREN_def)
  moreover have "\<not> pid < 0" using assms(4) by simp
  ultimately show ?thesis
    using spawn_finish_effect [OF assms(1-3,5)] by (simp only: if_False) blast
qed

lemma sup_inv_static: "sup_inv supervisor_static"
  by (simp add: sup_inv_def supervisor_static_def zero_child_def)

theorem spawn_no_overwrite_witness:
  "fst (spawn_finish 0 7 (bytes ''x'') \<lparr>tv_sec = 1, tv_nsec = 0\<rparr> (supervisor_init supervisor_static)) = 7"
proof -
  let ?s = "supervisor_init supervisor_static"
  have l: "0 < length (g_children ?s)" and c: "supervisor_child_count ?s = 0"
    by (simp_all add: supervisor_init_def supervisor_static_def SUPERVISOR_MAX_CHILDREN_def
        supervisor_child_count_def zero_child_def)
  obtain rc k s' where f: "spawn_finish 0 7 (bytes ''x'') \<lparr>tv_sec = 1, tv_nsec = 0\<rparr> ?s = (rc, k, s')"
    by (metis prod_cases3)
  from spawn_no_overwrite [OF sup_inv_init [OF sup_inv_static] _ l _ f] c f show ?thesis by simp
qed

text \<open>
  The life of the child table: nothing ever frees a slot, so after any spawn requests the
  number of "active" children is the number of requests that got a process, up to 32, and
  once it is 32 every further request fails before it forks.
\<close>

theorem spawn_table_fills:
  "supervisor_child_count (fold (\<lambda>(pid, ts). snd \<circ> snd \<circ> supervisor_spawn pid ts (Some nm) (Some [nm])) reqs supervisor_static)
     = min 32 (length (filter (\<lambda>(pid, ts). 0 \<le> pid) reqs))"
proof -
  let ?f = "\<lambda>(pid, ts). snd \<circ> snd \<circ> supervisor_spawn pid ts (Some nm) (Some [nm])"
  have step: "sup_inv (?f req s) \<and> supervisor_child_count (?f req s) =
      min 32 (supervisor_child_count s + (if 0 \<le> fst req then 1 else 0))" if inv: "sup_inv s" for req s
  proof -
    obtain pid ts where req: "req = (pid, ts)" by (cases req)
    let ?s = "supervisor_init s"
    have len: "length (g_children ?s) = 32"
      using sup_inv_init [OF inv] by (simp add: sup_inv_def SUPERVISOR_MAX_CHILDREN_def)
    have le: "supervisor_child_count s \<le> 32" by (rule child_count_le [OF inv])
    show ?thesis
    proof (cases "free_slot_of ?s")
      case None
      then have "supervisor_child_count s = 32" using free_slot_full [of ?s] len by simp
      with None sup_inv_init [OF inv] show ?thesis
        by (simp add: req supervisor_spawn_def spawn_pick_def)
    next
      case (Some i)
      then have i: "i < length (g_children ?s)" "\<not> ch_in_use (g_children ?s ! i)"
        by (auto simp: free_slot_of_def dest: find_index_SomeD(1,2))
      have notfull: "supervisor_child_count s \<noteq> 32" using Some free_slot_full [of ?s] len by auto
      obtain rc k s' where f: "spawn_finish i pid nm ts ?s = (rc, k, s')" by (metis prod_cases3)
      from spawn_finish_effect [OF sup_inv_init [OF inv] _ i(1) f] Some f le notfull len show ?thesis
        by (auto simp: req supervisor_spawn_def spawn_pick_def split: if_splits)
    qed
  qed
  have "sup_inv s \<Longrightarrow> supervisor_child_count (fold ?f reqs s) =
      min 32 (supervisor_child_count s + length (filter (\<lambda>(pid, ts). 0 \<le> pid) reqs))" for s
  proof (induction reqs arbitrary: s)
    case Nil
    with child_count_le [of s] show ?case by simp
  next
    case (Cons req reqs)
    from step [OF Cons.prems, of req] Cons.IH [of "?f req s"] show ?case
      by (auto simp: case_prod_beta)
  qed
  from this [OF sup_inv_static] show ?thesis
    by (simp add: supervisor_child_count_def supervisor_static_def)
qed

end
