(* ===== verification/PortManager.thy ===== *)
theory PortManager
  imports ConfigStore
begin

text \<open>
  Opening, finding and writing to ports: \<^verbatim>\<open>routerd/include/port_manager.h\<close> and
  \<^verbatim>\<open>routerd/src/port_manager.c\<close>. The answers of the operating system are the functions of
  the record \<open>os\<close>; the model keeps the set of descriptors the process has open. A
  \<open>port_def_t*\<close> is a \<open>port_ref\<close>: a port of the configuration, or a block the reactor
  allocated; following it is \<open>deref\<close>, which gives \<open>None\<close> for a freed block.
\<close>

section \<open>Terminal settings\<close>

text \<open>The flag words of \<open>struct termios\<close> and the bits the code uses, as on Linux.\<close>

record termios =
  c_iflag :: u32
  c_oflag :: u32
  c_cflag :: u32
  c_lflag :: u32
  c_vmin :: u8
  c_vtime :: u8
  c_speed :: u32

definition ECHO :: u32 where "ECHO = 0x8"
definition ECHOE :: u32 where "ECHOE = 0x10"
definition ECHOK :: u32 where "ECHOK = 0x20"
definition ECHONL :: u32 where "ECHONL = 0x40"
definition ICANON :: u32 where "ICANON = 0x2"
definition ISIG :: u32 where "ISIG = 0x1"
definition IEXTEN :: u32 where "IEXTEN = 0x8000"
definition IXON :: u32 where "IXON = 0x400"
definition IXOFF :: u32 where "IXOFF = 0x1000"
definition IXANY :: u32 where "IXANY = 0x800"
definition ICRNL :: u32 where "ICRNL = 0x100"
definition INLCR :: u32 where "INLCR = 0x40"
definition IGNCR :: u32 where "IGNCR = 0x80"
definition OPOST :: u32 where "OPOST = 0x1"
definition CSIZE :: u32 where "CSIZE = 0x30"
definition CS7 :: u32 where "CS7 = 0x20"
definition CS8 :: u32 where "CS8 = 0x30"
definition CSTOPB :: u32 where "CSTOPB = 0x40"
definition CREAD :: u32 where "CREAD = 0x80"
definition PARENB :: u32 where "PARENB = 0x100"
definition PARODD :: u32 where "PARODD = 0x200"
definition CLOCAL :: u32 where "CLOCAL = 0x800"
definition CRTSCTS :: u32 where "CRTSCTS = 0x80000000"

lemmas tty_bits = ECHO_def ECHOE_def ECHOK_def ECHONL_def ICANON_def ISIG_def IEXTEN_def IXON_def
  IXOFF_def IXANY_def ICRNL_def INLCR_def IGNCR_def OPOST_def CSIZE_def CS7_def CS8_def CSTOPB_def
  CREAD_def PARENB_def PARODD_def CLOCAL_def CRTSCTS_def

unbundle bit_operations_syntax

text \<open>\<open>cfmakeraw\<close>, as its manual page defines it (0x1EB: \<open>IGNBRK | BRKINT | PARMRK | ISTRIP |
  INLCR | IGNCR | ICRNL\<close>), with its one-byte reads.\<close>

definition cfmakeraw :: "termios \<Rightarrow> termios" where
  "cfmakeraw t = t\<lparr>
     c_iflag := c_iflag t AND NOT (0x1EB OR IXON),
     c_oflag := c_oflag t AND NOT OPOST,
     c_lflag := c_lflag t AND NOT (ECHO OR ECHONL OR ICANON OR ISIG OR IEXTEN),
     c_cflag := (c_cflag t AND NOT (CSIZE OR PARENB)) OR CS8,
     c_vmin := 1, c_vtime := 0\<rparr>"

definition baud_to_speed :: "int \<Rightarrow> u32" where
  "baud_to_speed baud =
     (if baud = 9600 then 0xD else if baud = 19200 then 0xE else if baud = 38400 then 0xF
      else if baud = 57600 then 0x1001 else if baud = 115200 then 0x1002
      else if baud = 230400 then 0x1003 else 0x1002)"

text \<open>The settings \<open>port_open_tty\<close> hands to \<open>tcsetattr\<close>, from those it got.\<close>

definition tty_settings :: "port_tty_conf \<Rightarrow> termios \<Rightarrow> termios" where
  "tty_settings p t =
     (let t = cfmakeraw t;
          l = c_lflag t AND NOT (ECHO OR ECHOE OR ECHOK OR ECHONL OR ICANON OR ISIG OR IEXTEN);
          i = c_iflag t AND NOT (IXON OR IXOFF OR IXANY OR ICRNL OR INLCR OR IGNCR);
          out = c_oflag t AND NOT OPOST;
          c = c_cflag t AND NOT CSIZE;
          c = c OR (if databits p = 7 then CS7 else CS8);
          c = (if stopbits p = 2 then c OR CSTOPB else c AND NOT CSTOPB);
          c = (if parity p = PARITY_NONE then c AND NOT PARENB
               else if parity p = PARITY_ODD then c OR (PARENB OR PARODD)
               else (c OR PARENB) AND NOT PARODD);
          c = (if flow p = FLOW_RTSCTS then c OR CRTSCTS else c AND NOT CRTSCTS);
          c = c OR (CLOCAL OR CREAD)
      in t\<lparr>c_lflag := l, c_iflag := i, c_oflag := out, c_cflag := c,
           c_speed := baud_to_speed (baudrate p), c_vmin := 1, c_vtime := 0\<rparr>)"

section \<open>Opening ports\<close>

text \<open>
  What the operating system answers, negative for failure as in C; what it answers to a call
  that creates a descriptor may depend on the descriptors already open.
\<close>

record os =
  os_open :: "int set \<Rightarrow> u8 list \<Rightarrow> int"
  os_socket :: "int set \<Rightarrow> int"
  os_tcgetattr :: "int \<Rightarrow> termios option"
  os_tcsetattr :: "int \<Rightarrow> termios \<Rightarrow> bool"
  os_bind :: "int \<Rightarrow> u8 list \<Rightarrow> int \<Rightarrow> int"
  os_listen :: "int \<Rightarrow> int \<Rightarrow> int"
  os_connect :: "int \<Rightarrow> u8 list \<Rightarrow> int \<Rightarrow> int"

text \<open>
  Each function gives the value it returns and the descriptors that are open afterwards. A
  \<open>usb\<close> port is opened as a \<open>tty\<close> port, so the code reads the path of its union member as the
  path of the \<open>tty\<close> member, and the zeros behind it as the other settings.
\<close>

fun as_tty :: "port_cfg \<Rightarrow> port_tty_conf" where
  "as_tty (Cfg_tty t) = t"
| "as_tty (Cfg_usb p) = zero_tty\<lparr>tty_path := p\<rparr>"
| "as_tty (Cfg_ipc p) = zero_tty\<lparr>tty_path := p\<rparr>"
| "as_tty _ = zero_tty"

definition port_open_tty :: "os \<Rightarrow> port_def \<Rightarrow> int set \<Rightarrow> int \<times> int set" where
  "port_open_tty w p fds =
     (let d = os_open w fds (cstr (tty_path (as_tty (p_cfg p))))
      in if d < 0 then (-1, fds)
         else let fds = insert d fds
              in case os_tcgetattr w d of
                   None \<Rightarrow> (-1, fds - {d})
                 | Some t \<Rightarrow>
                     if os_tcsetattr w d (tty_settings (as_tty (p_cfg p)) t) then (d, fds)
                     else (-1, fds - {d}))"

text \<open>\<open>htons\<close> keeps 16 bits of its argument; \<open>bind\<close> is told the port in the host's order.\<close>

definition htons :: "int \<Rightarrow> int" where
  "htons port = port mod 2 ^ 16"

fun port_open_tcp_server :: "os \<Rightarrow> port_tcp_server_conf \<Rightarrow> int set \<Rightarrow> int \<times> int set" where
  "port_open_tcp_server w s fds =
     (let d = os_socket w fds
      in if d < 0 then (-1, fds)
         else let fds = insert d fds
              in if os_bind w d (cstr (server_bind s)) (htons (server_port s)) < 0 then (-1, fds - {d})
                 else if os_listen w d (backlog s) < 0 then (-1, fds - {d})
                 else (d, fds))"

text \<open>The results of \<open>connect\<close> and, for UDP, of \<open>bind\<close> are not looked at.\<close>

fun port_open_tcp_client :: "os \<Rightarrow> port_tcp_client_conf \<Rightarrow> int set \<Rightarrow> int \<times> int set" where
  "port_open_tcp_client w s fds =
     (let d = os_socket w fds in if d < 0 then (-1, fds) else (d, insert d fds))"

fun port_open_udp :: "os \<Rightarrow> port_udp_conf \<Rightarrow> int set \<Rightarrow> int \<times> int set" where
  "port_open_udp w s fds =
     (let d = os_socket w fds in if d < 0 then (-1, fds) else (d, insert d fds))"

definition port_open_usb :: "os \<Rightarrow> port_def \<Rightarrow> int set \<Rightarrow> int \<times> int set" where
  "port_open_usb w p fds = port_open_tty w p fds"

text \<open>\<open>addr.sun_path\<close> has 108 bytes; \<open>unlink\<close> gets the uncut path.\<close>

definition sun_path :: "cbuf \<Rightarrow> cbuf" where
  "sun_path path = strncpy (replicate 108 0) path 107"

fun port_open_ipc_server :: "os \<Rightarrow> cbuf \<Rightarrow> int set \<Rightarrow> int \<times> int set" where
  "port_open_ipc_server w path fds =
     (let d = os_socket w fds
      in if d < 0 then (-1, fds)
         else let fds = insert d fds
              in if os_bind w d (cstr (sun_path path)) 0 < 0 then (-1, fds - {d})
                 else if os_listen w d 5 < 0 then (-1, fds - {d})
                 else (d, fds))"

text \<open>The \<open>switch\<close> of \<open>port_open_single\<close>. The settings are those of the port's type.\<close>

fun open_by_type :: "os \<Rightarrow> port_def \<Rightarrow> port_type \<Rightarrow> port_cfg \<Rightarrow> int set \<Rightarrow> int \<times> int set" where
  "open_by_type w p PORT_TTY c fds = port_open_tty w p fds"
| "open_by_type w p PORT_TCP_SERVER (Cfg_tcp_server s) fds = port_open_tcp_server w s fds"
| "open_by_type w p PORT_TCP_CLIENT (Cfg_tcp_client s) fds = port_open_tcp_client w s fds"
| "open_by_type w p PORT_UDP (Cfg_udp s) fds = port_open_udp w s fds"
| "open_by_type w p PORT_USB c fds = port_open_usb w p fds"
| "open_by_type w p PORT_IPC_SERVER (Cfg_ipc path) fds = port_open_ipc_server w path fds"
| "open_by_type w p _ c fds = (-1, fds)"

definition port_open_single :: "os \<Rightarrow> port_def \<Rightarrow> int set \<Rightarrow> int \<times> port_def \<times> int set" where
  "port_open_single w p fds =
     (case open_by_type w p (p_type p) (p_cfg p) fds of
        (d, fds') \<Rightarrow> (d, if 0 \<le> d then p\<lparr>p_fd := d\<rparr> else p, fds'))"

text \<open>The operating system answers the \<open>i\<close>-th port as \<open>w i\<close>.\<close>

fun open_ports :: "(nat \<Rightarrow> os) \<Rightarrow> nat \<Rightarrow> port_def list \<Rightarrow> int set \<Rightarrow> port_def list \<times> int set" where
  "open_ports w i [] fds = ([], fds)"
| "open_ports w i (p # ps) fds =
     (case port_open_single (w i) p fds of
        (d, p', fds') \<Rightarrow> (case open_ports w (i + 1) ps fds' of (ps', fds'') \<Rightarrow> (p' # ps', fds'')))"

definition ports_open_all :: "(nat \<Rightarrow> os) \<Rightarrow> config \<Rightarrow> int set \<Rightarrow> config \<times> int set" where
  "ports_open_all w c fds =
     (case open_ports w 0 (take (port_count c) (ports c)) fds of
        (ps, fds') \<Rightarrow> (c\<lparr>ports := ps @ drop (port_count c) (ports c)\<rparr>, fds'))"

definition port_close_single :: "port_def \<Rightarrow> int set \<Rightarrow> port_def \<times> int set" where
  "port_close_single p fds =
     (if 0 \<le> p_fd p then (p\<lparr>p_fd := -1\<rparr>, fds - {p_fd p}) else (p, fds))"

fun close_ports :: "port_def list \<Rightarrow> int set \<Rightarrow> port_def list \<times> int set" where
  "close_ports [] fds = ([], fds)"
| "close_ports (p # ps) fds =
     (case port_close_single p fds of
        (p', fds') \<Rightarrow> (case close_ports ps fds' of (ps', fds'') \<Rightarrow> (p' # ps', fds'')))"

definition ports_close_all :: "config \<Rightarrow> int set \<Rightarrow> config \<times> int set" where
  "ports_close_all c fds =
     (case close_ports (take (port_count c) (ports c)) fds of
        (ps, fds') \<Rightarrow> (c\<lparr>ports := ps @ drop (port_count c) (ports c)\<rparr>, fds'))"

section \<open>Finding ports\<close>

definition port_find_by_name :: "cbuf \<Rightarrow> config \<Rightarrow> nat option" where
  "port_find_by_name nm c = find_index (\<lambda>p. strcmp_eq (p_name p) nm) (take (port_count c) (ports c))"

definition port_get_fd_by_name :: "cbuf \<Rightarrow> config \<Rightarrow> int" where
  "port_get_fd_by_name nm c =
     (case find (\<lambda>p. strcmp_eq (p_name p) nm) (take (port_count c) (ports c)) of
        None \<Rightarrow> -1 | Some p \<Rightarrow> p_fd p)"

definition port_find_by_fd :: "int \<Rightarrow> config \<Rightarrow> nat option" where
  "port_find_by_fd d c = find_index (\<lambda>p. p_fd p = d) (take (port_count c) (ports c))"

section \<open>The port table and sending\<close>

datatype port_ref = Cfg_port nat | Heap_port nat

record port_entry =
  used :: bool
  e_fd :: int
  e_port :: "port_ref option"

text \<open>The memory the reactor and the dispatcher thread share.\<close>

record router =
  g_config :: config
  heap :: "nat \<rightharpoonup> port_def"
  g_port_table :: "port_entry list"

definition zero_port_entry :: port_entry where
  "zero_port_entry = \<lparr>used = False, e_fd = 0, e_port = None\<rparr>"

fun deref :: "router \<Rightarrow> port_ref \<Rightarrow> port_def option" where
  "deref s (Cfg_port i) = (if i < length (ports (g_config s)) then Some (ports (g_config s) ! i) else None)"
| "deref s (Heap_port a) = heap s a"

text \<open>\<open>port_find\<close>: the outer \<open>None\<close> is the use of a freed port.\<close>

fun port_find_loop :: "router \<Rightarrow> cbuf \<Rightarrow> port_entry list \<Rightarrow> port_ref option option" where
  "port_find_loop s nm [] = Some None"
| "port_find_loop s nm (e # es) =
     (if \<not> used e then port_find_loop s nm es
      else case e_port e of
        None \<Rightarrow> port_find_loop s nm es
      | Some ref \<Rightarrow> do {
          p \<leftarrow> deref s ref;
          if strcmp_eq (p_name p) nm then
            if p_type p = PORT_TCP_SERVER then port_find_loop s nm es
            else if p_type p = PORT_IPC_SERVER then port_find_loop s nm es
            else Some (Some ref)
          else port_find_loop s nm es })"

definition port_find :: "cbuf option \<Rightarrow> router \<Rightarrow> port_ref option option" where
  "port_find nm s =
     (case nm of None \<Rightarrow> Some None | Some n \<Rightarrow> port_find_loop s n (g_port_table s))"

text \<open>
  \<open>write(fd, data, len)\<close>: the bytes it is given, \<open>None\<close> when \<open>len\<close> exceeds the block (a
  negative \<open>len\<close> is a huge \<open>size_t\<close>). The result is the answer of the operating system.
\<close>

definition write_arg :: "u8 list \<Rightarrow> int \<Rightarrow> u8 list option" where
  "write_arg blk n = (if 0 \<le> n \<and> n \<le> int (length blk) then Some (take (nat n) blk) else None)"

type_synonym os_write = "int \<Rightarrow> u8 list \<Rightarrow> int"
type_synonym writes = "(int \<times> u8 list) list"

text \<open>
  The broadcast loop counts the clients that took the data and those that failed, and goes
  on after a failure. The writes are listed in order.
\<close>

fun broadcast_loop ::
    "os_write \<Rightarrow> router \<Rightarrow> cbuf \<Rightarrow> u8 list \<Rightarrow> int \<Rightarrow> port_entry list \<Rightarrow> nat \<times> nat \<times> writes \<Rightarrow>
       (nat \<times> nat \<times> writes) option" where
  "broadcast_loop w s nm blk n [] acc = Some acc"
| "broadcast_loop w s nm blk n (e # es) (sent_to, failed, out) =
     (if \<not> used e then broadcast_loop w s nm blk n es (sent_to, failed, out)
      else case e_port e of
        None \<Rightarrow> broadcast_loop w s nm blk n es (sent_to, failed, out)
      | Some ref \<Rightarrow> do {
          cli \<leftarrow> deref s ref;
          if p_type cli \<noteq> PORT_TCP_CLIENT then broadcast_loop w s nm blk n es (sent_to, failed, out)
          else if \<not> strcmp_eq (p_name cli) nm then broadcast_loop w s nm blk n es (sent_to, failed, out)
          else do {
            txt \<leftarrow> write_arg blk n;
            if w (p_fd cli) txt < 0
            then broadcast_loop w s nm blk n es (sent_to, failed + 1, out @ [(p_fd cli, txt)])
            else broadcast_loop w s nm blk n es (sent_to + 1, failed, out @ [(p_fd cli, txt)]) } })"

definition port_send_tcp_server_broadcast ::
    "os_write \<Rightarrow> router \<Rightarrow> port_def \<Rightarrow> u8 list \<Rightarrow> int \<Rightarrow> (int \<times> writes) option" where
  "port_send_tcp_server_broadcast w s server blk n = do {
     (sent_to, failed, out) \<leftarrow> broadcast_loop w s (p_name server) blk n (g_port_table s) (0, 0, []);
     Some (if sent_to = 0 \<and> failed = 0 then 0 else if sent_to = 0 then -1 else n, out) }"

text \<open>
  \<open>port_send\<close>: the case of \<open>PORT_IPC_SERVER\<close> has no \<open>break\<close>, so it writes and then takes the
  status of the case of \<open>PORT_UDP\<close>.
\<close>

definition port_send :: "os_write \<Rightarrow> router \<Rightarrow> port_ref option \<Rightarrow> u8 list \<Rightarrow> int \<Rightarrow> (int \<times> writes) option" where
  "port_send w s ref blk n =
     (case ref of
        None \<Rightarrow> Some (-1, [])
      | Some r \<Rightarrow> do {
          p \<leftarrow> deref s r;
          if p_fd p < 0 then Some (-1, [])
          else
            let wr = (\<lambda>_. do { txt \<leftarrow> write_arg blk n; Some (w (p_fd p) txt, [(p_fd p, txt)]) })
            in case p_type p of
                 PORT_TTY \<Rightarrow> wr ()
               | PORT_USB \<Rightarrow> wr ()
               | PORT_TCP_CLIENT \<Rightarrow> wr ()
               | PORT_IPC_CLIENT \<Rightarrow> wr ()
               | PORT_TCP_SERVER \<Rightarrow> port_send_tcp_server_broadcast w s p blk n
               | PORT_IPC_SERVER \<Rightarrow> do { (rc, out) \<leftarrow> wr (); Some (0, out) }
               | PORT_UDP \<Rightarrow> Some (0, []) })"

section \<open>Lemmas\<close>

text \<open>Opening one port opens one descriptor or none.\<close>

definition os_fresh :: "os \<Rightarrow> bool" where
  "os_fresh w \<longleftrightarrow> (\<forall>fds. (0 \<le> os_socket w fds \<longrightarrow> os_socket w fds \<notin> fds)
     \<and> (\<forall>path. 0 \<le> os_open w fds path \<longrightarrow> os_open w fds path \<notin> fds))"

lemma open_by_type_effect:
  assumes "os_fresh w" and "open_by_type w p ty c fds = (d, fds')"
  shows "fds' = (if 0 \<le> d then insert d fds else fds) \<and> (0 \<le> d \<longrightarrow> d \<notin> fds) \<and> (d < 0 \<longrightarrow> d = -1)"
  using assms
  by (induction w p ty c fds rule: open_by_type.induct)
     (auto simp: port_open_usb_def port_open_tty_def os_fresh_def Let_def insert_Diff_if
       split: option.splits if_splits)

lemma port_open_single_effect:
  assumes "os_fresh w" and "port_open_single w p fds = (d, p', fds')"
  shows "(0 \<le> d \<and> d \<notin> fds \<and> fds' = insert d fds \<and> p' = p\<lparr>p_fd := d\<rparr>)
    \<or> (d = -1 \<and> fds' = fds \<and> p' = p)"
proof -
  obtain d0 fds0 where o: "open_by_type w p (p_type p) (p_cfg p) fds = (d0, fds0)"
    by (cases "open_by_type w p (p_type p) (p_cfg p) fds")
  with open_by_type_effect [OF assms(1) o] assms(2) show ?thesis
    by (auto simp: port_open_single_def split: if_splits)
qed

text \<open>The descriptors the ports of a list hold.\<close>

definition port_fds :: "port_def list \<Rightarrow> int set" where
  "port_fds ps = {p_fd p | p. p \<in> set ps \<and> 0 \<le> p_fd p}"

lemma port_fds_simps [simp]:
  "port_fds [] = {}" "port_fds (p # ps) = (if 0 \<le> p_fd p then insert (p_fd p) (port_fds ps) else port_fds ps)"
  by (auto simp: port_fds_def)

text \<open>
  Opening a list of ports, for each the descriptor that was opened or -1. A port that could not
  be opened is left as it was, with whatever descriptor it had.
\<close>

definition opened :: "int \<Rightarrow> port_def \<Rightarrow> port_def" where
  "opened d p = (if 0 \<le> d then p\<lparr>p_fd := d\<rparr> else p)"

lemma open_ports_results:
  assumes "\<And>i. os_fresh (w i)"
  shows "open_ports w i ps fds = (ps', fds') \<Longrightarrow>
    \<exists>rs. length rs = length ps \<and> ps' = map2 opened rs ps \<and> fds' = fds \<union> {d \<in> set rs. 0 \<le> d}
      \<and> distinct (filter (\<lambda>d. 0 \<le> d) rs) \<and> (\<forall>d \<in> set rs. d = -1 \<or> 0 \<le> d \<and> d \<notin> fds)"
proof (induction ps arbitrary: i fds ps' fds')
  case Nil
  then show ?case by simp
next
  case (Cons p ps)
  obtain d q fds1 where o: "port_open_single (w i) p fds = (d, q, fds1)"
    by (cases "port_open_single (w i) p fds")
  obtain qs fds2 where r: "open_ports w (i + 1) ps fds1 = (qs, fds2)"
    by (cases "open_ports w (i + 1) ps fds1")
  have res: "ps' = q # qs" "fds' = fds2" using Cons.prems o r by simp_all
  from Cons.IH [OF r] obtain rs where rs: "length rs = length ps" "qs = map2 opened rs ps"
    "fds2 = fds1 \<union> {d \<in> set rs. 0 \<le> d}" "distinct (filter (\<lambda>d. 0 \<le> d) rs)"
    "\<forall>d \<in> set rs. d = -1 \<or> 0 \<le> d \<and> d \<notin> fds1" by blast
  have "q = opened d p \<and> (d = -1 \<and> fds1 = fds \<or> 0 \<le> d \<and> d \<notin> fds \<and> fds1 = insert d fds)"
    using port_open_single_effect [OF assms o] by (auto simp: opened_def)
  with rs show ?case by (intro exI [of _ "d # rs"]) (auto simp: res)
qed

lemma opened_closed:
  "(if 0 \<le> p_fd (opened d p) then (opened d p)\<lparr>p_fd := -1\<rparr> else opened d p) =
     (if 0 \<le> d \<or> 0 \<le> p_fd p then p\<lparr>p_fd := -1\<rparr> else p)"
  by (simp add: opened_def)

text \<open>Whatever the system answers, only descriptors change.\<close>

lemma open_ports_same:
  "open_ports w i ps fds = (ps', fds') \<Longrightarrow> map (\<lambda>p. p\<lparr>p_fd := -1\<rparr>) ps' = map (\<lambda>p. p\<lparr>p_fd := -1\<rparr>) ps"
proof (induction ps arbitrary: i fds ps' fds')
  case (Cons p ps)
  then show ?case by (auto simp: port_open_single_def split: prod.splits)
qed simp

lemma open_ports_effect:
  assumes "\<And>i. os_fresh (w i)" and "\<forall>p \<in> set ps. p_fd p < 0" and "open_ports w i ps fds = (ps', fds')"
  shows "fds' = fds \<union> port_fds ps' \<and> fds \<inter> port_fds ps' = {} \<and> length ps' = length ps
    \<and> distinct (map p_fd (filter (\<lambda>p. 0 \<le> p_fd p) ps')) \<and> (\<forall>q \<in> set ps'. 0 \<le> p_fd q \<or> q \<in> set ps)
    \<and> map (\<lambda>p. p\<lparr>p_fd := -1\<rparr>) ps' = map (\<lambda>p. p\<lparr>p_fd := -1\<rparr>) ps"
  using assms(2,3)
proof (induction ps arbitrary: i fds ps' fds')
  case Nil
  then show ?case by simp
next
  case (Cons p ps)
  obtain d q fds1 where o: "port_open_single (w i) p fds = (d, q, fds1)"
    by (cases "port_open_single (w i) p fds")
  obtain qs fds2 where r: "open_ports w (i + 1) ps fds1 = (qs, fds2)"
    by (cases "open_ports w (i + 1) ps fds1")
  have res: "ps' = q # qs" "fds' = fds2" using Cons.prems(2) o r by simp_all
  have IH: "fds2 = fds1 \<union> port_fds qs \<and> fds1 \<inter> port_fds qs = {} \<and> length qs = length ps
    \<and> distinct (map p_fd (filter (\<lambda>p. 0 \<le> p_fd p) qs)) \<and> (\<forall>q \<in> set qs. 0 \<le> p_fd q \<or> q \<in> set ps)
    \<and> map (\<lambda>p. p\<lparr>p_fd := -1\<rparr>) qs = map (\<lambda>p. p\<lparr>p_fd := -1\<rparr>) ps"
    by (rule Cons.IH [OF _ r]) (use Cons.prems(1) in simp)
  have mem: "x \<notin> p_fd ` {x \<in> set qs. 0 \<le> p_fd x}" if "x \<notin> port_fds qs" for x
    using that by (auto simp: port_fds_def)
  from port_open_single_effect [OF assms(1) o] show ?case
  proof (elim disjE conjE)
    assume d: "0 \<le> d" "d \<notin> fds" "fds1 = insert d fds" "q = p\<lparr>p_fd := d\<rparr>"
    then have "d \<notin> port_fds qs" using IH by auto
    with d IH mem [of d] show ?thesis by (auto simp: res)
  next
    assume "d = -1" "fds1 = fds" "q = p"
    with IH Cons.prems(1) show ?thesis by (auto simp: res)
  qed
qed

lemma close_ports_effect:
  "close_ports ps fds = (map (\<lambda>p. if 0 \<le> p_fd p then p\<lparr>p_fd := -1\<rparr> else p) ps, fds - port_fds ps)"
  by (induction ps arbitrary: fds) (auto simp: port_close_single_def)

text \<open>Searching the table.\<close>

definition table_valid :: "router \<Rightarrow> bool" where
  "table_valid s \<longleftrightarrow> (\<forall>e \<in> set (g_port_table s). used e \<longrightarrow> (case e_port e of None \<Rightarrow> True | Some r \<Rightarrow> deref s r \<noteq> None))"

definition receiver :: "router \<Rightarrow> cbuf \<Rightarrow> port_entry \<Rightarrow> bool" where
  "receiver s nm e \<longleftrightarrow> used e \<and>
     (case e_port e of None \<Rightarrow> False
      | Some r \<Rightarrow> (case deref s r of None \<Rightarrow> False
          | Some p \<Rightarrow> strcmp_eq (p_name p) nm \<and> p_type p \<noteq> PORT_TCP_SERVER \<and> p_type p \<noteq> PORT_IPC_SERVER))"

lemma port_find_loop_eq:
  assumes "\<forall>e \<in> set es. used e \<longrightarrow> (case e_port e of None \<Rightarrow> True | Some r \<Rightarrow> deref s r \<noteq> None)"
  shows "port_find_loop s nm es = Some (case find (receiver s nm) es of None \<Rightarrow> None | Some e \<Rightarrow> e_port e)"
  using assms by (induction es) (auto simp: receiver_def split: option.splits)

lemma port_find_eq:
  assumes "table_valid s"
  shows "port_find (Some nm) s =
    Some (case find (receiver s nm) (g_port_table s) of None \<Rightarrow> None | Some e \<Rightarrow> e_port e)"
  using assms port_find_loop_eq by (simp add: port_find_def table_valid_def)

text \<open>The clients a broadcast reaches, and what it does.\<close>

definition bcast_clients :: "router \<Rightarrow> cbuf \<Rightarrow> port_entry list \<Rightarrow> int list" where
  "bcast_clients s nm es = concat (map (\<lambda>e.
     if used e then (case e_port e of None \<Rightarrow> []
       | Some r \<Rightarrow> (case deref s r of None \<Rightarrow> []
           | Some p \<Rightarrow> if p_type p = PORT_TCP_CLIENT \<and> strcmp_eq (p_name p) nm then [p_fd p] else []))
     else []) es)"

lemma broadcast_loop_eq:
  assumes "\<forall>e \<in> set es. used e \<longrightarrow> (case e_port e of None \<Rightarrow> True | Some r \<Rightarrow> deref s r \<noteq> None)"
    and "write_arg blk n = Some txt"
  shows "broadcast_loop w s nm blk n es (a, b, out) =
    (let fds = bcast_clients s nm es
     in Some (a + length (filter (\<lambda>d. 0 \<le> w d txt) fds), b + length (filter (\<lambda>d. w d txt < 0) fds),
              out @ map (\<lambda>d. (d, txt)) fds))"
  using assms(1)
proof (induction es arbitrary: a b out)
  case Nil
  then show ?case by (simp add: bcast_clients_def)
next
  case (Cons e es)
  show ?case
  proof (cases "used e")
    case False
    with Cons show ?thesis by (simp add: bcast_clients_def)
  next
    case True
    show ?thesis
    proof (cases "e_port e")
      case None
      with Cons True show ?thesis by (simp add: bcast_clients_def)
    next
      case (Some r)
      with Cons.prems True obtain p where "deref s r = Some p" by auto
      with Cons True Some assms(2) show ?thesis
        by (auto simp: bcast_clients_def Let_def)
    qed
  qed
qed

text \<open>The bits of the terminal settings, one mask at a time.\<close>

lemma mask_or: "(x OR y) AND m = (x AND m) OR (y AND (m::u32))" by (simp add: bit_eq_iff bit_simps) blast
lemma mask_and: "(x AND y) AND m = x AND (y AND (m::u32))" by (simp add: bit_eq_iff bit_simps)

lemma tty_cflag:
  "c_cflag (tty_settings p t) AND CSIZE = (if databits p = 7 then CS7 else CS8)"
  "c_cflag (tty_settings p t) AND CSTOPB = (if stopbits p = 2 then CSTOPB else 0)"
  "c_cflag (tty_settings p t) AND PARENB = (if parity p = PARITY_NONE then 0 else PARENB)"
  "parity p \<noteq> PARITY_NONE \<Longrightarrow> c_cflag (tty_settings p t) AND PARODD = (if parity p = PARITY_ODD then PARODD else 0)"
  "c_cflag (tty_settings p t) AND CRTSCTS = (if flow p = FLOW_RTSCTS then CRTSCTS else 0)"
  "c_cflag (tty_settings p t) AND (CLOCAL OR CREAD) = CLOCAL OR CREAD"
  by (simp_all add: tty_settings_def tty_bits Let_def mask_or mask_and)

lemma tty_other:
  "c_iflag (tty_settings p t) AND (IXON OR IXOFF OR IXANY OR ICRNL OR INLCR OR IGNCR) = 0"
  "c_oflag (tty_settings p t) AND OPOST = 0"
  "c_lflag (tty_settings p t) AND (ECHO OR ECHOE OR ECHOK OR ECHONL OR ICANON OR ISIG OR IEXTEN) = 0"
  by (simp_all add: tty_settings_def tty_bits Let_def mask_or mask_and)

section \<open>Properties\<close>

text \<open>
  C28. Opening all ports leaks no descriptor and shares none: the descriptors open afterwards are
  those open before and, for each port that could be opened, one of its own; nothing but the
  descriptors of the opened ports changes in the configuration. Closing all ports then closes
  every descriptor a port holds and sets it to -1. When every port held -1 before, this gives
  back exactly the configuration and the descriptors there were. It need not otherwise: a port
  that could not be opened keeps the descriptor it had, and a loaded \<open>tty\<close> port without settings
  has 0, so that closing all ports closes the standard input. The hypothesis on the operating
  system is that it never hands out a descriptor that is open.
\<close>

theorem ports_open_close:
  assumes "\<And>i. os_fresh (w i)" and "port_count c \<le> length (ports c)"
    and "ports_open_all w c fds = (c', fds')"
  shows "\<exists>rs. length rs = port_count c \<and> distinct (filter (\<lambda>d. 0 \<le> d) rs)
    \<and> (\<forall>d \<in> set rs. d = -1 \<or> 0 \<le> d \<and> d \<notin> fds) \<and> fds' = fds \<union> {d \<in> set rs. 0 \<le> d}
    \<and> c' = c\<lparr>ports := map2 (\<lambda>d p. if 0 \<le> d then p\<lparr>p_fd := d\<rparr> else p) rs (take (port_count c) (ports c))
        @ drop (port_count c) (ports c)\<rparr>
    \<and> ports_close_all c' fds' =
        (c\<lparr>ports := map2 (\<lambda>d p. if 0 \<le> d \<or> 0 \<le> p_fd p then p\<lparr>p_fd := -1\<rparr> else p) rs (take (port_count c) (ports c))
           @ drop (port_count c) (ports c)\<rparr>,
         fds - {p_fd p | p. (-1, p) \<in> set (zip rs (take (port_count c) (ports c))) \<and> 0 \<le> p_fd p})
    \<and> ((\<forall>p \<in> set (take (port_count c) (ports c)). p_fd p = -1) \<longrightarrow> ports_close_all c' fds' = (c, fds))"
proof -
  let ?n = "port_count c"
  let ?ps = "take ?n (ports c)"
  let ?closed = "\<lambda>d p. if 0 \<le> d \<or> 0 \<le> p_fd p then p\<lparr>p_fd := -1\<rparr> else p"
  obtain ps where o: "open_ports w 0 ?ps fds = (ps, fds')" and c': "c' = c\<lparr>ports := ps @ drop ?n (ports c)\<rparr>"
    using assms(3) by (auto simp: ports_open_all_def split: prod.splits)
  from open_ports_results [OF assms(1) o] obtain rs where
    rs: "length rs = length ?ps" "ps = map2 opened rs ?ps" "fds' = fds \<union> {d \<in> set rs. 0 \<le> d}"
      "distinct (filter (\<lambda>d. 0 \<le> d) rs)" "\<forall>d \<in> set rs. d = -1 \<or> 0 \<le> d \<and> d \<notin> fds" by blast
  have len: "length ps = ?n" "length rs = ?n" using rs(1,2) assms(2) by simp_all
  then have t: "take ?n (ports c') = ps" "drop ?n (ports c') = drop ?n (ports c)" by (simp_all add: c')
  have closed: "map (\<lambda>p. if 0 \<le> p_fd p then p\<lparr>p_fd := -1\<rparr> else p) ps = map2 ?closed rs ?ps"
    unfolding rs(2) map_map by (rule map_cong) (simp_all only: comp_def opened_closed case_prod_unfold)
  have "fds' - port_fds ps = fds - {p_fd p | p. (-1, p) \<in> set (zip rs ?ps) \<and> 0 \<le> p_fd p}"
  proof (rule set_eqI)
    fix x
    have held: "x \<in> port_fds ps \<longleftrightarrow> 0 \<le> x \<and> (\<exists>d p. (d, p) \<in> set (zip rs ?ps) \<and> x = p_fd (opened d p))"
      by (auto simp: port_fds_def rs(2))
    have "x \<in> port_fds ps" if "x \<in> set rs" "0 \<le> x"
    proof -
      from that(1) have "x \<in> set (map fst (zip rs ?ps))" using rs(1) by simp
      then obtain p where "(x, p) \<in> set (zip rs ?ps)" by auto
      with that(2) show ?thesis by (fastforce simp: held opened_def)
    qed
    moreover have "d = -1 \<or> 0 \<le> d \<and> d \<notin> fds" if "(d, p) \<in> set (zip rs ?ps)" for d p
      using rs(5) set_zip_leftD [OF that] by blast
    ultimately have "x \<in> port_fds ps \<longleftrightarrow> x \<in> set rs \<and> 0 \<le> x
        \<or> (\<exists>p. (-1, p) \<in> set (zip rs ?ps) \<and> x = p_fd p \<and> 0 \<le> x)"
      by (auto simp: held opened_def dest: set_zip_leftD split: if_splits) fastforce+
    moreover have "x \<notin> fds" if "x \<in> set rs" "0 \<le> x" using rs(5) that by auto
    ultimately show "x \<in> fds' - port_fds ps
        \<longleftrightarrow> x \<in> fds - {p_fd p | p. (-1, p) \<in> set (zip rs ?ps) \<and> 0 \<le> p_fd p}"
      by (auto simp: rs(3))
  qed
  then have close: "ports_close_all c' fds' = (c\<lparr>ports := map2 ?closed rs ?ps @ drop ?n (ports c)\<rparr>,
      fds - {p_fd p | p. (-1, p) \<in> set (zip rs ?ps) \<and> 0 \<le> p_fd p})"
    by (simp add: ports_close_all_def close_ports_effect c' len closed)
  have "ports_close_all c' fds' = (c, fds)" if "\<forall>p \<in> set ?ps. p_fd p = -1"
  proof -
    have same: "p\<lparr>p_fd := -1\<rparr> = p \<and> \<not> 0 \<le> p_fd p" if "(d, p) \<in> set (zip rs ?ps)" for d p
      using that \<open>\<forall>p \<in> set ?ps. p_fd p = -1\<close> set_zip_rightD [OF that] by (cases p) auto
    have "map2 ?closed rs ?ps = map snd (zip rs ?ps)" by (rule map_cong) (auto dest: same)
    also have "\<dots> = ?ps" using rs(1) by simp
    finally show ?thesis using same by (fastforce simp: close)
  qed
  with rs len close show ?thesis by (intro exI [of _ rs]) (simp add: c' opened_def [abs_def])
qed

definition demo_os :: os where
  "demo_os = \<lparr>os_open = (\<lambda>fds path. -1), os_socket = (\<lambda>fds. if 3 \<in> fds then -1 else 3),
     os_tcgetattr = (\<lambda>d. None), os_tcsetattr = (\<lambda>d t. False), os_bind = (\<lambda>d a n. 0),
     os_listen = (\<lambda>d n. 0), os_connect = (\<lambda>d a n. -1)\<rparr>"

lemma demo_os_open: "ports_open_all (\<lambda>i. demo_os) demo_config {0, 1, 2}
    = (demo_config\<lparr>ports := (ports demo_config)[0 := (ports demo_config ! 0)\<lparr>p_fd := 3\<rparr>]\<rparr>, {0, 1, 2, 3})"
  by code_simp

text \<open>A \<open>tty\<close> port as the loader leaves it when its settings are missing.\<close>

definition bare_config :: config where
  "bare_config = snd (load_config (\<lambda>txt. Some (CJObject [(bytes ''ports'', CJArray [CJObject
     [(bytes ''name'', CJString (bytes ''U'')), (bytes ''type'', CJString (bytes ''tty''))]])])) (Some []))"

lemma bare_config_open: "ports_open_all (\<lambda>i. demo_os) bare_config {0, 1, 2} = (bare_config, {0, 1, 2})"
  by code_simp

theorem ports_open_close_witness:
  "ports_close_all (demo_config\<lparr>ports := (ports demo_config)[0 := (ports demo_config ! 0)\<lparr>p_fd := 3\<rparr>]\<rparr>) {0, 1, 2, 3}
     = (demo_config, {0, 1, 2})
   \<and> snd (ports_close_all bare_config {0, 1, 2}) = {1, 2}"
proof
  have f: "os_fresh demo_os" by (auto simp: os_fresh_def demo_os_def)
  have n: "port_count demo_config \<le> length (ports demo_config)" by code_simp
  have "list_all (\<lambda>p. p_fd p = -1) (take (port_count demo_config) (ports demo_config))" by code_simp
  then have c: "\<forall>p \<in> set (take (port_count demo_config) (ports demo_config)). p_fd p = -1"
    by (simp only: list_all_iff)
  from ports_open_close [of "\<lambda>i. demo_os", OF f n demo_os_open] c
  show "ports_close_all (demo_config\<lparr>ports := (ports demo_config)[0 := (ports demo_config ! 0)\<lparr>p_fd := 3\<rparr>]\<rparr>) {0, 1, 2, 3}
      = (demo_config, {0, 1, 2})"
    by (elim exE conjE) (erule (1) mp)
  have n: "port_count bare_config = 1" "port_count bare_config \<le> length (ports bare_config)"
    "map p_fd (take 1 (ports bare_config)) = [0]" by code_simp+
  then obtain p where p: "take 1 (ports bare_config) = [p]" "p_fd p = 0" by auto
  from ports_open_close [of "\<lambda>i. demo_os", OF f n(2) bare_config_open] n(1) p obtain rs where
    rs: "length rs = 1" "\<forall>d \<in> set rs. d = -1 \<or> 0 \<le> d \<and> d \<notin> {0, 1, 2 :: int}"
      "{0, 1, 2} = {0, 1, 2} \<union> {d \<in> set rs. 0 \<le> d}"
      "snd (ports_close_all bare_config {0, 1, 2}) = {0, 1, 2} - {p_fd q | q. (-1, q) \<in> set (zip rs [p]) \<and> 0 \<le> p_fd q}"
    by auto
  then have "rs = [-1]" by (cases rs) auto
  with rs(4) p(2) show "snd (ports_close_all bare_config {0, 1, 2}) = {1, 2}" by auto
qed

text \<open>
  The line settings a serial port is opened with are those of its configuration: 7 or 8
  data bits, two stop bits, the parity and hardware flow control exactly as configured, the
  receiver on, and a raw line without echo, line editing, signals or output processing.
  Software flow control is always off, also when the configuration asks for it.
\<close>

theorem tty_line_settings:
  "c_cflag (tty_settings p t) AND CSIZE = (if databits p = 7 then CS7 else CS8)
    \<and> c_cflag (tty_settings p t) AND CSTOPB = (if stopbits p = 2 then CSTOPB else 0)
    \<and> c_cflag (tty_settings p t) AND PARENB = (if parity p = PARITY_NONE then 0 else PARENB)
    \<and> (parity p = PARITY_NONE \<or>
        c_cflag (tty_settings p t) AND PARODD = (if parity p = PARITY_ODD then PARODD else 0))
    \<and> c_cflag (tty_settings p t) AND CRTSCTS = (if flow p = FLOW_RTSCTS then CRTSCTS else 0)
    \<and> c_cflag (tty_settings p t) AND (CLOCAL OR CREAD) = CLOCAL OR CREAD
    \<and> c_iflag (tty_settings p t) AND (IXON OR IXOFF OR IXANY OR ICRNL OR INLCR OR IGNCR) = 0
    \<and> c_oflag (tty_settings p t) AND OPOST = 0
    \<and> c_lflag (tty_settings p t) AND (ECHO OR ECHOE OR ECHOK OR ECHONL OR ICANON OR ISIG OR IEXTEN) = 0
    \<and> c_vmin (tty_settings p t) = 1 \<and> c_vtime (tty_settings p t) = 0"
  using tty_cflag [of p t] tty_other [of p t] by (auto simp: tty_settings_def Let_def)

text \<open>
  C29. Sending to a port, by its type, when the bytes to send lie in the caller's block: a
  port without descriptor gets nothing and -1 is returned; a serial or USB port or a client
  gets one write, whose result is returned; a TCP server's clients each get one write, and
  the result is the length when one of them took it, -1 when all failed, 0 when there is
  none; an IPC server gets one write whose result is lost; a UDP port gets nothing.
\<close>

theorem port_send_by_type:
  assumes "table_valid s" and "deref s r = Some p" and "write_arg blk n = Some txt"
  shows "port_send w s (Some r) blk n =
    (let fd = p_fd p; one = [(fd, txt)];
         fds = bcast_clients s (p_name p) (g_port_table s)
     in if fd < 0 then Some (-1, [])
        else case p_type p of
          PORT_TCP_SERVER \<Rightarrow>
            Some (if fds = [] then 0 else if list_all (\<lambda>d. w d txt < 0) fds then -1 else n, map (\<lambda>d. (d, txt)) fds)
        | PORT_IPC_SERVER \<Rightarrow> Some (0, one)
        | PORT_UDP \<Rightarrow> Some (0, [])
        | _ \<Rightarrow> Some (w fd txt, one))"
proof -
  have b: "broadcast_loop w s nm blk n (g_port_table s) (0, 0, []) =
      (let fds = bcast_clients s nm (g_port_table s)
       in Some (length (filter (\<lambda>d. 0 \<le> w d txt) fds), length (filter (\<lambda>d. w d txt < 0) fds),
                map (\<lambda>d. (d, txt)) fds))" for nm
    using broadcast_loop_eq [of "g_port_table s" s blk n "txt" w nm "0" "0" "[]"] assms(1,3)
    by (simp add: table_valid_def Let_def)
  have all: "(filter (\<lambda>d. 0 \<le> w d txt) fds = []) = list_all (\<lambda>d. w d txt < 0) fds" for fds
    by (auto simp: filter_empty_conv list_all_iff not_le)
  have none: "filter (\<lambda>d. 0 \<le> w d txt) fds = [] \<Longrightarrow> (filter (\<lambda>d. w d txt < 0) fds = []) = (fds = [])" for fds
    by (cases fds) (auto split: if_splits)
  show ?thesis
    using assms(2,3) none
    by (auto simp: port_send_def Let_def port_send_tcp_server_broadcast_def b all [symmetric]
        split: port_type.splits)
qed

definition demo_router :: router where
  "demo_router = \<lparr>g_config = demo_config, heap = [7 \<mapsto> zero_port\<lparr>p_type := PORT_TCP_CLIENT, p_fd := 5\<rparr>],
     g_port_table = [\<lparr>used = True, e_fd = 5, e_port = Some (Heap_port 7)\<rparr>]\<rparr>"

lemma demo_router_valid: "table_valid demo_router"
  by (simp add: table_valid_def demo_router_def)

theorem port_send_by_type_witness:
  "port_send (\<lambda>d b. -1) demo_router (Some (Heap_port 7)) [1, 2, 3] 2 = Some (-1, [(5, [1, 2])])"
  using port_send_by_type [OF demo_router_valid, of "Heap_port 7" "zero_port\<lparr>p_type := PORT_TCP_CLIENT, p_fd := 5\<rparr>"
      "[1, 2, 3]" 2 "[1, 2]" "\<lambda>d b. -1"]
  by (simp add: demo_router_def write_arg_def Let_def)

end
