(* ===== verification/FifoQueue.thy ===== *)
theory FifoQueue
  imports EzPrelude
begin

text \<open>
  The contract of a bounded queue: what the threads on either side of the event queue rely
  on. \<open>enq\<close> and \<open>deq\<close> give \<open>None\<close> where the caller has to wait. The provider is the ring of
  \<open>EventQueue\<close>; the client is the system of producers and the dispatcher thread there.
\<close>

text \<open>A run of queue operations, with what was accepted and what came out.\<close>

datatype 'a fifo_op = Enq 'a | Deq

fun run_fifo :: "('a \<Rightarrow> 'q \<Rightarrow> 'q option) \<Rightarrow> ('q \<Rightarrow> ('a \<times> 'q) option) \<Rightarrow>
    'a fifo_op list \<Rightarrow> 'q \<Rightarrow> 'a list \<times> 'a list \<times> 'q" where
  "run_fifo enq deq [] q = ([], [], q)"
| "run_fifo enq deq (Enq x # ops) q =
     (case enq x q of
        None \<Rightarrow> run_fifo enq deq ops q
      | Some q' \<Rightarrow> (case run_fifo enq deq ops q' of (ins, outs, r) \<Rightarrow> (x # ins, outs, r)))"
| "run_fifo enq deq (Deq # ops) q =
     (case deq q of
        None \<Rightarrow> run_fifo enq deq ops q
      | Some (y, q') \<Rightarrow> (case run_fifo enq deq ops q' of (ins, outs, r) \<Rightarrow> (ins, y # outs, r)))"

text \<open>Several elements one after the other; \<open>None\<close> when there is no room for one.\<close>

fun enq_list :: "('a \<Rightarrow> 'q \<Rightarrow> 'q option) \<Rightarrow> 'a list \<Rightarrow> 'q \<Rightarrow> 'q option" where
  "enq_list enq [] q = Some q"
| "enq_list enq (x # xs) q = Option.bind (enq x q) (enq_list enq xs)"

locale fifo_queue =
  fixes inv :: "'q \<Rightarrow> bool"
    and contents :: "'q \<Rightarrow> 'a list"
    and capacity :: nat
    and enq :: "'a \<Rightarrow> 'q \<Rightarrow> 'q option"
    and deq :: "'q \<Rightarrow> ('a \<times> 'q) option"
  assumes enq_full: "inv q \<Longrightarrow> enq x q = None \<longleftrightarrow> length (contents q) = capacity"
    and enq_some: "inv q \<Longrightarrow> enq x q = Some q' \<Longrightarrow> inv q' \<and> contents q' = contents q @ [x]"
    and deq_empty: "inv q \<Longrightarrow> deq q = None \<longleftrightarrow> contents q = []"
    and deq_some: "inv q \<Longrightarrow> deq q = Some (y, q') \<Longrightarrow> inv q' \<and> contents q = y # contents q'"
    and bounded: "inv q \<Longrightarrow> length (contents q) \<le> capacity"
begin

text \<open>First in, first out: nothing is lost, duplicated or reordered.\<close>

theorem run_order:
  "inv q \<Longrightarrow> run_fifo enq deq ops q = (ins, outs, r) \<Longrightarrow>
     inv r \<and> contents q @ ins = outs @ contents r"
proof (induction ops arbitrary: q ins outs)
  case Nil
  then show ?case by simp
next
  case (Cons op ops)
  show ?case
  proof (cases op)
    case (Enq x)
    show ?thesis
    proof (cases "enq x q")
      case None
      with Cons Enq show ?thesis by simp
    next
      case (Some q')
      with Cons.prems Enq obtain ins' where r: "run_fifo enq deq ops q' = (ins', outs, r)"
        "ins = x # ins'" by (auto split: prod.splits)
      from enq_some [OF Cons.prems(1) Some] Cons.IH [OF _ r(1)] r(2) show ?thesis by simp
    qed
  next
    case Deq
    show ?thesis
    proof (cases "deq q")
      case None
      with Cons Deq show ?thesis by simp
    next
      case (Some p)
      obtain y q' where p: "p = (y, q')" by (cases p)
      with Some Cons.prems Deq obtain outs' where r: "run_fifo enq deq ops q' = (ins, outs', r)"
        "outs = y # outs'" by (auto split: prod.splits)
      from deq_some [OF Cons.prems(1) Some [unfolded p]] Cons.IH [OF _ r(1)] r(2) show ?thesis by simp
    qed
  qed
qed

lemma enq_list_fits:
  "inv q \<Longrightarrow> length (contents q) + length xs \<le> capacity \<Longrightarrow>
     \<exists>q'. enq_list enq xs q = Some q' \<and> inv q' \<and> contents q' = contents q @ xs"
proof (induction xs arbitrary: q)
  case Nil
  then show ?case by simp
next
  case (Cons x xs)
  then obtain q1 where q1: "enq x q = Some q1"
    using enq_full [of q x] by (cases "enq x q") auto
  with enq_some [OF Cons.prems(1) q1] Cons.IH [of q1] Cons.prems(2) show ?case by simp
qed

lemma deq_nonempty:
  "inv q \<Longrightarrow> contents q = y # ys \<Longrightarrow> \<exists>q'. deq q = Some (y, q') \<and> inv q' \<and> contents q' = ys"
  using deq_empty [of q] deq_some [of q] by (cases "deq q") auto

lemma enq_Some_iff: "inv q \<Longrightarrow> (\<exists>q'. enq x q = Some q') \<longleftrightarrow> length (contents q) < capacity"
  using enq_full [of q x] bounded [of q] by (cases "enq x q") auto

end

end
