(* ===== verification/EventQueue.thy ===== *)
theory EventQueue
  imports CString FifoQueue "HOL-Library.Multiset"
begin

text \<open>
  The queue between the reactor and the dispatcher thread: \<^verbatim>\<open>routerd/include/event.h\<close>,
  \<^verbatim>\<open>routerd/include/event_queue.h\<close> and \<^verbatim>\<open>routerd/src/event_queue.c\<close>. The ring, its two
  indices and the drop counter are the state. A thread that holds the mutex runs alone; it
  gives the mutex up inside \<open>pthread_cond_timedwait\<close> and \<open>pthread_cond_wait\<close>, so
  \<open>queue_push\<close> is the part before the wait (\<open>queue_push\<close>) and the part after each return of
  the wait (\<open>queue_push_wake\<close>), and \<open>queue_pop\<close> is tried again after each return of its wait.
\<close>

section \<open>Data\<close>

definition MAX_DATA :: nat where "MAX_DATA = 1024"
definition QSIZE :: nat where "QSIZE = 128"
definition QUEUE_PUSH_TIMEOUT_MS :: int where "QUEUE_PUSH_TIMEOUT_MS = 100"

record event_msg =
  msg_dst :: cbuf
  msg_len :: int
  msg_data :: "u8 list"

record event_queue =
  queue :: "event_msg list"
  head :: nat
  tail :: nat
  g_drop_count :: u64

definition zero_msg :: event_msg where
  "zero_msg = \<lparr>msg_dst = replicate 32 0, msg_len = 0, msg_data = replicate MAX_DATA 0\<rparr>"

definition queue_static :: event_queue where
  "queue_static = \<lparr>queue = replicate QSIZE zero_msg, head = 0, tail = 0, g_drop_count = 0\<rparr>"

section \<open>Operations\<close>

definition queue_init :: "event_queue \<Rightarrow> event_queue" where
  "queue_init q = q\<lparr>head := 0, tail := 0, g_drop_count := 0\<rparr>"

definition ring_full :: "event_queue \<Rightarrow> bool" where
  "ring_full q \<longleftrightarrow> (tail q + 1) mod QSIZE = head q"

definition ring_store :: "event_msg \<Rightarrow> event_queue \<Rightarrow> event_queue" where
  "ring_store msg q = q\<lparr>queue := (queue q)[tail q := msg], tail := (tail q + 1) mod QSIZE\<rparr>"

text \<open>The absolute time at which a push gives up, from the time it started.\<close>

definition push_deadline :: "int \<times> int \<Rightarrow> int \<times> int" where
  "push_deadline now =
     (let sec = fst now + QUEUE_PUSH_TIMEOUT_MS div 1000;
          nsec = snd now + (QUEUE_PUSH_TIMEOUT_MS mod 1000) * 1000000
      in if 1000000000 \<le> nsec then (sec + 1, nsec - 1000000000) else (sec, nsec))"

text \<open>\<open>Returned rc\<close>, or the producer waits for room.\<close>

datatype push_result = Returned int | Waits

definition queue_push :: "event_msg \<Rightarrow> event_queue \<Rightarrow> push_result \<times> event_queue" where
  "queue_push msg q = (if ring_full q then (Waits, q) else (Returned 0, ring_store msg q))"

text \<open>
  After the wait: a time-out drops the message without another look at the ring; any other
  return checks the ring again.
\<close>

definition queue_push_wake :: "bool \<Rightarrow> event_msg \<Rightarrow> event_queue \<Rightarrow> push_result \<times> event_queue" where
  "queue_push_wake timedout msg q =
     (if timedout then (Returned (-1), q\<lparr>g_drop_count := g_drop_count q + 1\<rparr>)
      else if ring_full q then (Waits, q)
      else (Returned 0, ring_store msg q))"

definition queue_pop :: "event_queue \<Rightarrow> (event_msg \<times> event_queue) option" where
  "queue_pop q =
     (if head q = tail q then None
      else Some (queue q ! head q, q\<lparr>head := (head q + 1) mod QSIZE\<rparr>))"

definition queue_get_drop_count :: "event_queue \<Rightarrow> u64" where
  "queue_get_drop_count q = g_drop_count q"

section \<open>The ring as a list\<close>

definition ring_inv :: "event_queue \<Rightarrow> bool" where
  "ring_inv q \<longleftrightarrow> length (queue q) = QSIZE \<and> head q < QSIZE \<and> tail q < QSIZE"

definition ring_count :: "event_queue \<Rightarrow> nat" where
  "ring_count q = (tail q + QSIZE - head q) mod QSIZE"

definition contents :: "event_queue \<Rightarrow> event_msg list" where
  "contents q = map (\<lambda>k. queue q ! ((head q + k) mod QSIZE)) [0..<ring_count q]"

definition try_push :: "event_msg \<Rightarrow> event_queue \<Rightarrow> event_queue option" where
  "try_push msg q = (case queue_push msg q of (Returned rc, q') \<Rightarrow> Some q' | (Waits, q') \<Rightarrow> None)"

lemma QSIZE_simps [simp]: "0 < QSIZE" "QSIZE \<noteq> 0" "(QSIZE :: nat) = 128"
  by (simp_all add: QSIZE_def)

lemma ring_count_cases:
  "head q < 128 \<Longrightarrow> tail q < 128 \<Longrightarrow>
     ring_count q = (if head q \<le> tail q then tail q - head q else tail q + 128 - head q)"
  by (auto simp: ring_count_def mod_if)

lemma ring_inv_simps: "ring_inv q \<longleftrightarrow> length (queue q) = 128 \<and> head q < 128 \<and> tail q < 128"
  by (simp add: ring_inv_def)

lemma ring_full_iff: "ring_inv q \<Longrightarrow> ring_full q \<longleftrightarrow> ring_count q = 127"
  by (auto simp: ring_full_def ring_count_cases ring_inv_simps mod_if)

lemma ring_empty_iff: "ring_inv q \<Longrightarrow> head q = tail q \<longleftrightarrow> ring_count q = 0"
  by (auto simp: ring_count_cases ring_inv_simps)

lemma ring_count_less: "ring_count q < 128"
  by (simp add: ring_count_def)

lemma length_contents [simp]: "length (contents q) = ring_count q"
  by (simp add: contents_def)

lemma contents_nth: "k < ring_count q \<Longrightarrow> contents q ! k = queue q ! ((head q + k) mod 128)"
  by (simp add: contents_def)

lemma ring_store_inv: "ring_inv q \<Longrightarrow> ring_inv (ring_store msg q)"
  by (simp add: ring_inv_simps ring_store_def)

lemma ring_store_contents:
  assumes inv: "ring_inv q" and room: "\<not> ring_full q"
  shows "contents (ring_store msg q) = contents q @ [msg]"
proof (rule nth_equalityI)
  let ?q = "ring_store msg q"
  have c: "ring_count ?q = Suc (ring_count q)"
    using inv room
    by (auto simp: ring_count_def ring_store_def ring_inv_simps ring_full_def mod_if)
  then show "length (contents ?q) = length (contents q @ [msg])" by simp
  fix k assume "k < length (contents ?q)"
  then have k: "k < Suc (ring_count q)" by (simp add: c)
  have at: "((head q + k) mod 128 = tail q) = (k = ring_count q)"
    using inv k ring_count_less [of q] by (auto simp: ring_count_cases ring_inv_simps mod_if)
  have "contents ?q ! k = (queue q)[tail q := msg] ! ((head q + k) mod 128)"
    using k contents_nth [of k ?q] unfolding c by (simp add: ring_store_def)
  also have "\<dots> = (contents q @ [msg]) ! k"
    using inv k at by (auto simp: nth_append contents_def nth_list_update_if ring_inv_simps)
  finally show "contents ?q ! k = (contents q @ [msg]) ! k" .
qed

lemma queue_pop_Some:
  assumes inv: "ring_inv q" and pop: "queue_pop q = Some (m, q')"
  shows "ring_inv q' \<and> contents q = m # contents q'"
proof -
  have q': "q' = q\<lparr>head := (head q + 1) mod 128\<rparr>" and m: "m = queue q ! head q"
    and ne: "head q \<noteq> tail q"
    using pop by (auto simp: queue_pop_def split: if_splits)
  have c: "ring_count q = Suc (ring_count q')"
    using inv ne by (auto simp: ring_count_def q' ring_inv_simps mod_if)
  have inv': "ring_inv q'" using inv by (simp add: ring_inv_simps q')
  have "contents q = m # contents q'"
  proof (rule nth_equalityI)
    show "length (contents q) = length (m # contents q')" by (simp add: c)
    fix k assume "k < length (contents q)"
    then have k: "k < Suc (ring_count q')" by (simp add: c)
    show "contents q ! k = (m # contents q') ! k"
    proof (cases k)
      case 0
      with inv m show ?thesis by (simp add: contents_def c ring_inv_simps del: upt_Suc)
    next
      case (Suc j)
      with k have "contents q' ! j = queue q ! ((head q' + j) mod 128)"
        by (simp add: contents_def q')
      also have "(head q' + j) mod 128 = (head q + k) mod 128"
        using Suc mod_add_left_eq [of "Suc (head q)" 128 j] by (simp add: q' add.commute)
      finally show ?thesis using k Suc by (simp add: contents_def c del: upt_Suc)
    qed
  qed
  with inv' show ?thesis by simp
qed

interpretation event_fifo: fifo_queue ring_inv contents 127 try_push queue_pop
proof
  fix q q' x y
  assume inv: "ring_inv q"
  show "try_push x q = None \<longleftrightarrow> length (contents q) = 127"
    using inv by (simp add: try_push_def queue_push_def ring_full_iff)
  show "ring_inv q' \<and> contents q' = contents q @ [x]" if "try_push x q = Some q'"
    using that inv
    by (auto simp: try_push_def queue_push_def ring_store_inv ring_store_contents split: if_splits)
  show "queue_pop q = None \<longleftrightarrow> contents q = []"
    using inv ring_empty_iff [OF inv] by (auto simp: queue_pop_def contents_def)
  show "ring_inv q' \<and> contents q = y # contents q'" if "queue_pop q = Some (y, q')"
    using inv that by (rule queue_pop_Some)
  show "length (contents q) \<le> 127"
    using ring_count_less [of q] by simp
qed

section \<open>Producers and the dispatcher\<close>

text \<open>
  The threads around the ring. \<open>waiting\<close> are the messages of the producers inside
  \<open>pthread_cond_timedwait\<close>; the lists record what was handed to \<open>queue_push\<close>, what it stored,
  what it dropped, and what the dispatcher got.
\<close>

record queue_sys =
  ring :: event_queue
  waiting :: "event_msg list"
  submitted :: "event_msg list"
  stored :: "event_msg list"
  dropped :: "event_msg list"
  popped :: "event_msg list"

definition sys_init :: queue_sys where
  "sys_init = \<lparr>ring = queue_init queue_static, waiting = [], submitted = [], stored = [],
     dropped = [], popped = []\<rparr>"

text \<open>What a return from \<open>queue_push\<close> or from its wait means for the lists.\<close>

fun push_outcome :: "event_msg \<Rightarrow> push_result \<times> event_queue \<Rightarrow> queue_sys \<Rightarrow> queue_sys" where
  "push_outcome m (Waits, r) s = s\<lparr>ring := r, waiting := waiting s @ [m]\<rparr>"
| "push_outcome m (Returned rc, r) s =
     (if rc = 0 then s\<lparr>ring := r, stored := stored s @ [m]\<rparr>
      else s\<lparr>ring := r, dropped := dropped s @ [m]\<rparr>)"

inductive queue_step :: "queue_sys \<Rightarrow> queue_sys \<Rightarrow> bool" where
  push: "queue_step s (push_outcome m (queue_push m (ring s)) (s\<lparr>submitted := submitted s @ [m]\<rparr>))"
| wake: "waiting s = ms @ m # ms' \<Longrightarrow>
    queue_step s (push_outcome m (queue_push_wake timedout m (ring s)) (s\<lparr>waiting := ms @ ms'\<rparr>))"
| pop: "queue_pop (ring s) = Some (m, r) \<Longrightarrow>
    queue_step s (s\<lparr>ring := r, popped := popped s @ [m]\<rparr>)"

inductive_cases queue_stepE [elim!]: "queue_step s s'"

inductive queue_reachable :: "queue_sys \<Rightarrow> bool" where
  init: "queue_reachable sys_init"
| step: "queue_reachable s \<Longrightarrow> queue_step s s' \<Longrightarrow> queue_reachable s'"

definition sys_inv :: "queue_sys \<Rightarrow> bool" where
  "sys_inv s \<longleftrightarrow> ring_inv (ring s) \<and> stored s = popped s @ contents (ring s)
     \<and> g_drop_count (ring s) = word_of_nat (length (dropped s))
     \<and> mset (submitted s) = mset (stored s) + mset (dropped s) + mset (waiting s)"

lemma contents_drop [simp]:
  "contents (q\<lparr>g_drop_count := n\<rparr>) = contents q" "ring_inv (q\<lparr>g_drop_count := n\<rparr>) = ring_inv q"
  by (simp_all add: contents_def ring_count_def ring_inv_def)

lemma ring_store_drop [simp]: "g_drop_count (ring_store m q) = g_drop_count q"
  by (simp add: ring_store_def)

lemma queue_pop_drop: "queue_pop q = Some (m, r) \<Longrightarrow> g_drop_count r = g_drop_count q"
  by (auto simp: queue_pop_def split: if_splits)

lemma sys_inv_outcome:
  assumes "ring_inv (ring s)" and "stored s = popped s @ contents (ring s)"
    and "g_drop_count (ring s) = word_of_nat (length (dropped s))"
    and "mset (submitted s) = add_mset m (mset (stored s) + mset (dropped s) + mset (waiting s))"
  shows "sys_inv (push_outcome m (queue_push_wake timedout m (ring s)) s)"
  using assms
  by (auto simp: sys_inv_def queue_push_wake_def ring_store_inv ring_store_contents)

lemma queue_push_as_wake: "queue_push m q = queue_push_wake False m q"
  by (simp add: queue_push_def queue_push_wake_def)

lemma sys_inv_step: "sys_inv s \<Longrightarrow> queue_step s s' \<Longrightarrow> sys_inv s'"
proof (erule queue_stepE)
  fix m
  assume "sys_inv s" and "s' = push_outcome m (queue_push m (ring s)) (s\<lparr>submitted := submitted s @ [m]\<rparr>)"
  then show "sys_inv s'"
    using sys_inv_outcome [of "s\<lparr>submitted := submitted s @ [m]\<rparr>" m False]
    by (simp add: sys_inv_def queue_push_as_wake)
next
  fix ms m ms' timedout
  assume "sys_inv s" and "waiting s = ms @ m # ms'"
    and "s' = push_outcome m (queue_push_wake timedout m (ring s)) (s\<lparr>waiting := ms @ ms'\<rparr>)"
  then show "sys_inv s'"
    using sys_inv_outcome [of "s\<lparr>waiting := ms @ ms'\<rparr>" m timedout]
    by (simp add: sys_inv_def)
next
  fix m r
  assume "sys_inv s" and "s' = s\<lparr>ring := r, popped := popped s @ [m]\<rparr>"
    and "queue_pop (ring s) = Some (m, r)"
  then show "sys_inv s'"
    using queue_pop_Some [of "ring s" m r] by (simp add: sys_inv_def queue_pop_drop)
qed

lemma queue_reachable_inv: "queue_reachable s \<Longrightarrow> sys_inv s"
proof (induction rule: queue_reachable.induct)
  case init
  show ?case
    by (simp add: sys_inv_def sys_init_def queue_init_def queue_static_def ring_inv_def
        contents_def ring_count_def)
next
  case (step s s')
  show ?case by (rule sys_inv_step [OF step.IH step.hyps(2)])
qed

section \<open>Properties\<close>

text \<open>
  C24. The event queue between any number of producers and the dispatcher, over every
  interleaving of pushes, time-outs, wake-ups and pops: the dispatcher gets the stored
  messages in the order they were stored, and the ring holds the rest, at most 127; every
  message handed to \<open>queue_push\<close> is exactly once stored, dropped or still waited for; and the
  drop counter is the number of dropped messages (modulo the width of the counter).
\<close>

theorem event_queue_order:
  assumes "queue_reachable s"
  shows "stored s = popped s @ contents (ring s) \<and> length (contents (ring s)) \<le> 127
    \<and> mset (submitted s) = mset (stored s) + mset (dropped s) + mset (waiting s)
    \<and> queue_get_drop_count (ring s) = word_of_nat (length (dropped s))"
  using queue_reachable_inv [OF assms] event_fifo.bounded [of "ring s"]
  by (simp add: sys_inv_def queue_get_drop_count_def)

theorem event_queue_order_witness:
  "stored (push_outcome zero_msg (queue_push zero_msg (ring sys_init)) (sys_init\<lparr>submitted := [zero_msg]\<rparr>))
     = [zero_msg]"
proof -
  let ?s = "push_outcome zero_msg (queue_push zero_msg (ring sys_init)) (sys_init\<lparr>submitted := [zero_msg]\<rparr>)"
  have "queue_reachable ?s"
    using queue_reachable.step [OF queue_reachable.init queue_step.push [of sys_init zero_msg]]
    by (simp add: sys_init_def)
  from event_queue_order [OF this] show ?thesis
    by (simp add: sys_init_def queue_push_def ring_full_def queue_init_def queue_static_def)
qed

text \<open>
  C11. A run of pushes and pops on the ring is first in, first out: what went in behind the
  old contents is what came out followed by the new contents, and a push is refused exactly
  when 127 messages are stored (one slot of the 128 stays free).
\<close>

theorem event_ring_fifo:
  assumes "ring_inv q" and "run_fifo try_push queue_pop ops q = (ins, outs, r)"
  shows "contents q @ ins = outs @ contents r
    \<and> (\<forall>m. fst (queue_push m r) = Waits \<longleftrightarrow> length (contents r) = 127)"
proof -
  have r: "ring_inv r \<and> contents q @ ins = outs @ contents r"
    by (rule event_fifo.run_order [OF assms])
  then have "fst (queue_push m r) = Waits \<longleftrightarrow> length (contents r) = 127" for m
    using event_fifo.enq_full [of r m] by (auto simp: try_push_def queue_push_def)
  with r show ?thesis by simp
qed

lemma ring_inv_static: "ring_inv queue_static"
  by (simp add: ring_inv_def queue_static_def)

theorem event_ring_fifo_witness:
  "\<exists>ins outs r. run_fifo try_push queue_pop [Enq zero_msg, Deq, Deq] queue_static = (ins, outs, r)
     \<and> contents queue_static @ ins = outs @ contents r"
  using event_ring_fifo [OF ring_inv_static] by (metis prod_cases3)

text \<open>
  A push that finds the ring full gives up 100 ms after it started: the deadline it
  passes to \<open>pthread_cond_timedwait\<close> is a normalised time exactly 100 ms ahead.
\<close>

theorem push_deadline_100ms:
  assumes "0 \<le> nsec" and "nsec < 1000000000" and "push_deadline (sec, nsec) = (sec', nsec')"
  shows "0 \<le> nsec' \<and> nsec' < 1000000000
    \<and> sec' * 1000000000 + nsec' = sec * 1000000000 + nsec + 100 * 1000000"
  using assms by (auto simp: push_deadline_def QUEUE_PUSH_TIMEOUT_MS_def Let_def split: if_splits)

theorem push_deadline_100ms_witness:
  "(8 :: int) * 1000000000 + 50000000 = 7 * 1000000000 + 950000000 + 100 * 1000000"
  using push_deadline_100ms [of 950000000 7 8 50000000]
  by (simp add: push_deadline_def QUEUE_PUSH_TIMEOUT_MS_def)

end
