(* ===== verification/RouterCore.thy ===== *)
theory RouterCore
  imports PortManager EventQueue
begin

text \<open>
  Handling one message of the event queue: \<^verbatim>\<open>routerd/src/router_core.c\<close>, called by the loop
  of \<open>dispatcher_thread\<close> in \<^verbatim>\<open>routerd/src/ez_router.c\<close>. The handler's effect is the list of
  writes to descriptors; \<open>None\<close> is the use of a freed port or of bytes outside the message.
\<close>

definition router_core_handle :: "os_write \<Rightarrow> router \<Rightarrow> event_msg option \<Rightarrow> writes option" where
  "router_core_handle w s msg =
     (case msg of
        None \<Rightarrow> Some []
      | Some m \<Rightarrow> do {
          dst \<leftarrow> port_find (Some (msg_dst m)) s;
          case dst of
            None \<Rightarrow> Some []
          | Some r \<Rightarrow> do {
              (rc, out) \<leftarrow> port_send w s (Some r) (msg_data m) (msg_len m);
              Some out } })"

text \<open>Every message the reactor queues is well formed.\<close>

definition msg_ok :: "event_msg \<Rightarrow> bool" where
  "msg_ok m \<longleftrightarrow> length (msg_dst m) = 32 \<and> length (msg_data m) = MAX_DATA
     \<and> 0 \<le> msg_len m \<and> msg_len m \<le> int MAX_DATA"

definition msg_bytes :: "event_msg \<Rightarrow> u8 list" where
  "msg_bytes m = take (nat (msg_len m)) (msg_data m)"

lemma msg_ok_write: "msg_ok m \<Longrightarrow> write_arg (msg_data m) (msg_len m) = Some (msg_bytes m)"
  by (simp add: msg_ok_def write_arg_def msg_bytes_def)

lemma receiver_entry:
  assumes "find (receiver s nm) es = Some e"
  obtains r p where "e_port e = Some r" "deref s r = Some p" "strcmp_eq (p_name p) nm"
    "p_type p \<noteq> PORT_TCP_SERVER" "p_type p \<noteq> PORT_IPC_SERVER"
proof -
  from assms have "receiver s nm e" by (auto simp: find_Some_iff)
  then show thesis using that by (auto simp: receiver_def split: option.splits)
qed

text \<open>Where bytes for a destination go: the writes, for the first entry that can receive them.\<close>

definition delivery :: "router \<Rightarrow> cbuf \<Rightarrow> u8 list \<Rightarrow> writes" where
  "delivery s dst b =
     (case find (receiver s dst) (g_port_table s) of
        None \<Rightarrow> []
      | Some e \<Rightarrow>
          (case Option.bind (e_port e) (deref s) of
             None \<Rightarrow> []
           | Some p \<Rightarrow> if p_fd p < 0 \<or> p_type p = PORT_UDP then [] else [(p_fd p, b)]))"

lemma router_core_handle_eq:
  assumes "table_valid s" and "msg_ok m"
  shows "router_core_handle w s (Some m) = Some (delivery s (msg_dst m) (msg_bytes m))"
proof (cases "find (receiver s (msg_dst m)) (g_port_table s)")
  case None
  then show ?thesis
    by (simp add: router_core_handle_def delivery_def port_find_eq [OF assms(1)])
next
  case (Some e)
  then obtain r p where e: "e_port e = Some r" "deref s r = Some p"
    "p_type p \<noteq> PORT_TCP_SERVER" "p_type p \<noteq> PORT_IPC_SERVER"
    by (rule receiver_entry)
  with Some show ?thesis
    using msg_ok_write [OF assms(2)]
    by (simp add: router_core_handle_def delivery_def port_find_eq [OF assms(1)] port_send_def Let_def
        split: port_type.splits)
qed

text \<open>
  A queued message reaches at most one port: the first used entry of the port table, in
  the order of the slots, whose port has the destination's name and is no server. Its
  descriptor gets one write of exactly the message's bytes, unless the port is closed or a UDP
  port; a message without such a port is dropped. In particular a server's name as
  destination reaches the first of its clients and no other.
\<close>

theorem router_delivers_once:
  assumes "table_valid s" and "msg_ok m"
  shows "router_core_handle w s (Some m) =
    Some (case find (receiver s (msg_dst m)) (g_port_table s) of
            None \<Rightarrow> []
          | Some e \<Rightarrow>
              (case Option.bind (e_port e) (deref s) of
                 None \<Rightarrow> []
               | Some p \<Rightarrow> if p_fd p < 0 \<or> p_type p = PORT_UDP then []
                           else [(p_fd p, take (nat (msg_len m)) (msg_data m))]))"
  using router_core_handle_eq [OF assms] unfolding delivery_def msg_bytes_def .

theorem router_delivers_once_witness:
  "router_core_handle (\<lambda>d b. 3) demo_router (Some (zero_msg\<lparr>msg_len := 3\<rparr>)) = Some [(5, [0, 0, 0])]"
proof -
  have "msg_ok (zero_msg\<lparr>msg_len := 3\<rparr>)" by (simp add: msg_ok_def zero_msg_def MAX_DATA_def)
  from router_delivers_once [OF demo_router_valid this, of "\<lambda>d b. 3"] show ?thesis
    by (simp add: demo_router_def receiver_def zero_msg_def zero_port_def strcmp_eq_def MAX_DATA_def
        numeral_eq_Suc)
qed

end
