(* ===== verification/PluginLoader.thy ===== *)
theory PluginLoader
  imports CString
begin

text \<open>
  The table of plugin handlers: \<^verbatim>\<open>routerd/include/plugin_loader.h\<close> and
  \<^verbatim>\<open>routerd/src/plugin_loader.c\<close>. A function pointer is a value of the type \<open>'h\<close>, \<open>None\<close> the
  NULL of the static array. What \<open>dlopen\<close> runs, the constructor of the shared object, is an
  argument: the registrations it makes.
\<close>

text \<open>
  What a handler is to its caller: it works on the caller's buffer in place and returns a
  length; \<open>None\<close> is an access outside the buffer.
\<close>

type_synonym plugin_handler = "u8 list \<Rightarrow> int \<Rightarrow> (int \<times> u8 list) option"

definition MAX_HANDLERS :: nat where "MAX_HANDLERS = 256"

record 'h handler_entry =
  full_name :: cbuf
  func :: "'h option"

record 'h plugin_table =
  g_handlers :: "'h handler_entry list"
  g_handler_count :: nat

definition plugin_static :: "'h plugin_table" where
  "plugin_static = \<lparr>g_handlers = replicate MAX_HANDLERS \<lparr>full_name = replicate 128 0, func = None\<rparr>,
     g_handler_count = 0\<rparr>"

text \<open>\<open>"%s.%s"\<close>.\<close>

definition handler_name :: "u8 list \<Rightarrow> u8 list \<Rightarrow> u8 list" where
  "handler_name plugin_name name = cstr plugin_name @ bytes ''.'' @ cstr name"

definition plugin_register_handler ::
    "u8 list \<Rightarrow> u8 list \<Rightarrow> 'h \<Rightarrow> 'h plugin_table \<Rightarrow> 'h plugin_table" where
  "plugin_register_handler plugin_name name f s =
     (if MAX_HANDLERS \<le> g_handler_count s then s
      else let i = g_handler_count s; e = g_handlers s ! i;
               e = e\<lparr>full_name := snprintf_into (full_name e) 128 (handler_name plugin_name name),
                     func := Some f\<rparr>
           in s\<lparr>g_handlers := (g_handlers s)[i := e], g_handler_count := i + 1\<rparr>)"

definition plugin_get_handler :: "cbuf \<Rightarrow> 'h plugin_table \<Rightarrow> 'h option" where
  "plugin_get_handler nm s =
     (case find (\<lambda>e. strcmp_eq (full_name e) nm) (take (g_handler_count s) (g_handlers s)) of
        None \<Rightarrow> None | Some e \<Rightarrow> func e)"

text \<open>The lines \<open>plugin_list_handlers\<close> prints, without their framing.\<close>

definition plugin_list_handlers :: "'h plugin_table \<Rightarrow> (u8 list \<times> 'h option) list" where
  "plugin_list_handlers s =
     map (\<lambda>e. (cstr (full_name e), func e)) (take (g_handler_count s) (g_handlers s))"

type_synonym 'h registration = "u8 list \<times> u8 list \<times> 'h"

definition plugin_load ::
    "(cbuf \<Rightarrow> 'h registration list option) \<Rightarrow> cbuf \<Rightarrow> 'h plugin_table \<Rightarrow> int \<times> 'h plugin_table" where
  "plugin_load dlopen path s =
     (case dlopen path of
        None \<Rightarrow> (-1, s)
      | Some regs \<Rightarrow> (0, fold (\<lambda>(p, h, f). plugin_register_handler p h f) regs s))"

section \<open>The table as a list of registrations\<close>

definition handlers_inv :: "'h plugin_table \<Rightarrow> bool" where
  "handlers_inv s \<longleftrightarrow> length (g_handlers s) = MAX_HANDLERS \<and> g_handler_count s \<le> MAX_HANDLERS
     \<and> (\<forall>e \<in> set (g_handlers s). length (full_name e) = 128)"

lemma handler_name_no_nul: "0 \<notin> set (handler_name p h)"
  by (simp add: handler_name_def cstr_no_nul) (simp add: bytes_def)

definition as_listed :: "'h registration \<Rightarrow> u8 list \<times> 'h option" where
  "as_listed r = (case r of (p, h, f) \<Rightarrow> (take 127 (handler_name p h), Some f))"

lemma register_handler_step:
  assumes "handlers_inv s"
  shows "handlers_inv (plugin_register_handler p h f s)"
    and "plugin_list_handlers (plugin_register_handler p h f s) =
      take MAX_HANDLERS (plugin_list_handlers s @ [as_listed (p, h, f)])"
proof -
  show "handlers_inv (plugin_register_handler p h f s)"
    using assms
    by (auto simp: handlers_inv_def plugin_register_handler_def Let_def dest!: in_set_updateD)
  show "plugin_list_handlers (plugin_register_handler p h f s) =
      take MAX_HANDLERS (plugin_list_handlers s @ [as_listed (p, h, f)])"
  proof (cases "MAX_HANDLERS \<le> g_handler_count s")
    case True
    with assms show ?thesis
      by (simp add: plugin_register_handler_def plugin_list_handlers_def handlers_inv_def)
  next
    case False
    let ?i = "g_handler_count s" and ?e = "g_handlers s ! g_handler_count s"
    let ?e' = "?e\<lparr>full_name := snprintf_into (full_name ?e) 128 (handler_name p h), func := Some f\<rparr>"
    have i: "?i < length (g_handlers s)" using assms False by (simp add: handlers_inv_def)
    then have "take (?i + 1) ((g_handlers s)[?i := ?e']) = take ?i (g_handlers s) @ [?e']"
      by (simp add: take_Suc_conv_app_nth)
    moreover have "cstr (full_name ?e') = take 127 (handler_name p h)"
      using cstr_snprintf_into [OF _ handler_name_no_nul, of 128] by simp
    ultimately have "plugin_list_handlers (plugin_register_handler p h f s) =
        plugin_list_handlers s @ [as_listed (p, h, f)]"
      using False by (simp add: plugin_register_handler_def plugin_list_handlers_def Let_def as_listed_def)
    then show ?thesis
      using assms False by (simp add: plugin_list_handlers_def handlers_inv_def)
  qed
qed

lemma register_all:
  "handlers_inv s \<Longrightarrow>
     handlers_inv (fold (\<lambda>(p, h, f). plugin_register_handler p h f) regs s)
     \<and> plugin_list_handlers (fold (\<lambda>(p, h, f). plugin_register_handler p h f) regs s) =
         take MAX_HANDLERS (plugin_list_handlers s @ map as_listed regs)"
proof (induction regs arbitrary: s)
  case Nil
  then show ?case by (simp add: plugin_list_handlers_def handlers_inv_def)
next
  case (Cons r regs)
  obtain p h f where r: "r = (p, h, f)" by (cases r)
  have "take MAX_HANDLERS (take MAX_HANDLERS (xs @ [y]) @ ys) = take MAX_HANDLERS (xs @ y # ys)"
    for xs ys and y :: "u8 list \<times> 'a option"
    by (cases "MAX_HANDLERS \<le> length xs") (simp_all add: min_def)
  with Cons.IH [OF register_handler_step(1) [OF Cons.prems]] register_handler_step(2) [OF Cons.prems]
  show ?case by (simp add: r)
qed

lemma handlers_inv_static [simp]: "handlers_inv plugin_static"
  by (simp add: handlers_inv_def plugin_static_def)

lemma plugin_list_static: "plugin_list_handlers plugin_static = []"
  by (simp add: plugin_list_handlers_def plugin_static_def)

lemma get_handler_listed:
  "plugin_get_handler nm s =
     (case find (\<lambda>(n, f). n = cstr nm) (plugin_list_handlers s) of None \<Rightarrow> None | Some (n, f) \<Rightarrow> f)"
proof -
  have "(case find (\<lambda>e. strcmp_eq (full_name e) nm) es of None \<Rightarrow> None | Some e \<Rightarrow> func e) =
      (case find (\<lambda>(n, f). n = cstr nm) (map (\<lambda>e. (cstr (full_name e), func e)) es) of
         None \<Rightarrow> None | Some (n, f) \<Rightarrow> f)" for es :: "'a handler_entry list"
    by (induction es) (auto simp: strcmp_eq_def)
  then show ?thesis by (simp add: plugin_get_handler_def plugin_list_handlers_def)
qed

text \<open>
  After any registrations, a lookup gives the function of the first registration, among
  the first 256, whose \<open>plugin.handler\<close> name, cut to 127 bytes, is the name looked up, and
  NULL when there is none: later registrations of the same name and those beyond 256 are
  without effect, and no name is written past its array.
\<close>

theorem plugin_lookup:
  "plugin_get_handler nm (fold (\<lambda>(p, h, f). plugin_register_handler p h f) regs plugin_static) =
     map_option (\<lambda>(p, h, f). f)
       (find (\<lambda>(p, h, f). take 127 (handler_name p h) = cstr nm) (take 256 regs))"
proof -
  let ?s = "fold (\<lambda>(p, h, f). plugin_register_handler p h f) regs plugin_static"
  have "plugin_list_handlers ?s = map as_listed (take 256 regs)"
    using register_all [OF handlers_inv_static, of regs]
    by (simp add: plugin_list_static MAX_HANDLERS_def take_map)
  moreover have "(case find (\<lambda>(n, f). n = cstr nm) (map as_listed rs) of None \<Rightarrow> None | Some (n, f) \<Rightarrow> f) =
      map_option (\<lambda>(p, h, f). f) (find (\<lambda>(p, h, f). take 127 (handler_name p h) = cstr nm) rs)"
    for rs :: "'a registration list"
    by (induction rs) (auto simp: as_listed_def)
  ultimately show ?thesis by (simp add: get_handler_listed)
qed

end
