(* ===== verification/FilterPlugin.thy ===== *)
theory FilterPlugin
  imports PluginLoader EventQueue
begin

text \<open>
  The sample plugin \<^verbatim>\<open>plugins/filter.c\<close>: its two handlers, on the caller's buffer, and the
  registrations of its constructor.
\<close>

text \<open>The loop of \<open>usb_to_uart\<close>: \<open>n\<close> rounds are left, the index is \<open>i\<close>.\<close>

fun upper_loop :: "nat \<Rightarrow> nat \<Rightarrow> u8 list \<Rightarrow> u8 list option" where
  "upper_loop 0 i d = Some d"
| "upper_loop (Suc n) i d =
     (if i < length d
      then if 97 \<le> d ! i \<and> d ! i \<le> 122 then upper_loop n (i + 1) (d[i := d ! i - 32])
           else upper_loop n (i + 1) d
      else None)"

definition usb_to_uart :: plugin_handler where
  "usb_to_uart d n = do { d' \<leftarrow> upper_loop (nat n) 0 d; Some (n, d') }"

definition uart_to_usb :: plugin_handler where
  "uart_to_usb d n =
     (if n + 1 > 2048 then Some (n, d)
      else do {
        d' \<leftarrow> memmove_in d 1 0 (nat n);
        d' \<leftarrow> store d' 0 0xAA;
        Some (n + 1, d') })"

definition filter_init :: "plugin_handler registration list" where
  "filter_init = [(bytes ''filter'', bytes ''usb_to_uart'', usb_to_uart),
     (bytes ''filter'', bytes ''uart_to_usb'', uart_to_usb)]"

section \<open>What the handlers do\<close>

definition c_upper :: "u8 \<Rightarrow> u8" where
  "c_upper c = (if 97 \<le> c \<and> c \<le> 122 then c - 32 else c)"

lemma upper_loop_eq:
  "i + n \<le> length d \<Longrightarrow>
     upper_loop n i d = Some (take i d @ map c_upper (take n (drop i d)) @ drop (i + n) d)"
proof (induction n arbitrary: i d)
  case 0
  then show ?case by simp
next
  case (Suc n)
  let ?d = "d[i := c_upper (d ! i)]"
  have "upper_loop (Suc n) i d = upper_loop n (i + 1) ?d"
    using Suc.prems by (simp add: c_upper_def list_update_id)
  also have "\<dots> = Some (take (i + 1) ?d @ map c_upper (take n (drop (i + 1) ?d)) @ drop (i + 1 + n) ?d)"
    by (rule Suc.IH) (use Suc.prems in simp)
  also have "take (i + 1) ?d = take i d @ [c_upper (d ! i)]"
    using Suc.prems by (simp add: take_Suc_conv_app_nth)
  finally show ?case
    using Suc.prems by (simp add: Cons_nth_drop_Suc [symmetric])
qed

text \<open>
  On the reactor's buffer of 1024 bytes with up to 1023 bytes of data, the two handlers of
  the sample plugin stay inside the buffer and return a length within \<open>MAX_DATA\<close>:
  \<open>usb_to_uart\<close> upcases the data and changes nothing else, \<open>uart_to_usb\<close> puts 0xAA in front of
  the data.
\<close>

theorem filter_handlers:
  assumes "length d = MAX_DATA" and "0 \<le> n" and "n \<le> 1023"
  shows "usb_to_uart d n = Some (n, map c_upper (take (nat n) d) @ drop (nat n) d)
    \<and> uart_to_usb d n = Some (n + 1, 0xAA # take (nat n) d @ drop (nat n + 1) d)
    \<and> n + 1 \<le> int MAX_DATA"
proof -
  have len: "length d = 1024" and n: "nat n \<le> 1023" using assms by (simp_all add: MAX_DATA_def)
  have "memmove_in d 1 0 (nat n) = Some (take 1 d @ take (nat n) d @ drop (1 + nat n) d)"
    using memmove_in_Some [of 0 "nat n" d 1] len n by simp
  moreover have "take 1 d = [d ! 0]" using len by (cases d) simp_all
  ultimately have "uart_to_usb d n = Some (n + 1, 0xAA # take (nat n) d @ drop (nat n + 1) d)"
    using assms(3) len n by (simp add: uart_to_usb_def mem_simps add.commute)
  moreover have "usb_to_uart d n = Some (n, map c_upper (take (nat n) d) @ drop (nat n) d)"
    using upper_loop_eq [of 0 "nat n" d] len n by (simp add: usb_to_uart_def)
  ultimately show ?thesis using assms(3) by (simp add: MAX_DATA_def)
qed

theorem filter_handlers_witness:
  "map_option fst (uart_to_usb (replicate MAX_DATA 7) 5) = Some 6"
  using filter_handlers [of "replicate MAX_DATA 7" 5] by simp

text \<open>
  A full buffer is another matter: the guard of \<open>uart_to_usb\<close> allows 2047 bytes of data, the
  buffer holds 1024.
\<close>

lemma uart_to_usb_full: "length d = MAX_DATA \<Longrightarrow> uart_to_usb d (int MAX_DATA) = None"
  by (simp add: uart_to_usb_def memmove_in_def memcpy_def MAX_DATA_def)

end
