(* ===== verification/PortMap.thy ===== *)
theory PortMap
  imports CString EventQueue
begin

text \<open>
  The table of fixed ports: \<^verbatim>\<open>routerd/include/port_map.h\<close> and
  \<^verbatim>\<open>routerd/src/port_map.c\<close>. What \<open>open\<close> returns for a device path is an argument.
\<close>

definition PORT_USB1 :: int where "PORT_USB1 = 1"
definition PORT_UART1 :: int where "PORT_UART1 = 2"
definition PORT_UART2 :: int where "PORT_UART2 = 3"
definition PORT_NET0 :: int where "PORT_NET0 = 4"

definition EVT_USB_IN :: int where "EVT_USB_IN = 1"
definition EVT_UART_IN :: int where "EVT_UART_IN = 2"
definition EVT_CMD_FROM_SDK :: int where "EVT_CMD_FROM_SDK = 3"
definition EVT_GENERIC_IN :: int where "EVT_GENERIC_IN = 4"

lemmas port_ids = PORT_USB1_def PORT_UART1_def PORT_UART2_def PORT_NET0_def

record map_entry =
  port_id :: int
  dev_path :: string
  map_fd :: int

type_synonym port_map = "map_entry list"

definition port_map_static :: port_map where
  "port_map_static =
     [\<lparr>port_id = PORT_USB1, dev_path = ''/dev/ttyGS0'', map_fd = -1\<rparr>,
      \<lparr>port_id = PORT_UART1, dev_path = ''/dev/ttyS1'', map_fd = -1\<rparr>,
      \<lparr>port_id = PORT_UART2, dev_path = ''/dev/ttyS2'', map_fd = -1\<rparr>,
      \<lparr>port_id = PORT_NET0, dev_path = ''/dev/tap0'', map_fd = -1\<rparr>]"

definition port_map_init :: "port_map \<Rightarrow> port_map" where
  "port_map_init t = map (\<lambda>e. e\<lparr>map_fd := -1\<rparr>) t"

definition port_str_to_id :: "u8 list \<Rightarrow> int" where
  "port_str_to_id nm =
     (if strcasecmp_eq nm (bytes ''USB1'') then PORT_USB1
      else if strcasecmp_eq nm (bytes ''UART1'') then PORT_UART1
      else if strcasecmp_eq nm (bytes ''UART2'') then PORT_UART2
      else if strcasecmp_eq nm (bytes ''NET0'') then PORT_NET0
      else -1)"

fun port_open_fd :: "(string \<Rightarrow> int) \<Rightarrow> int \<Rightarrow> port_map \<Rightarrow> int \<times> port_map" where
  "port_open_fd os_open p [] = (-1, [])"
| "port_open_fd os_open p (e # t) =
     (if port_id e = p then
        if 0 \<le> map_fd e then (map_fd e, e # t)
        else let d = os_open (dev_path e)
             in if d < 0 then (-1, e # t) else (d, e\<lparr>map_fd := d\<rparr> # t)
      else case port_open_fd os_open p t of (rc, t') \<Rightarrow> (rc, e # t'))"

fun port_to_fd :: "int \<Rightarrow> port_map \<Rightarrow> int" where
  "port_to_fd p [] = -1"
| "port_to_fd p (e # t) = (if port_id e = p then map_fd e else port_to_fd p t)"

fun fd_to_port :: "int \<Rightarrow> port_map \<Rightarrow> int" where
  "fd_to_port d [] = -1"
| "fd_to_port d (e # t) = (if map_fd e = d then port_id e else fd_to_port d t)"

definition port_to_event_type :: "int \<Rightarrow> int" where
  "port_to_event_type p =
     (if p = PORT_USB1 then EVT_USB_IN
      else if p = PORT_UART1 \<or> p = PORT_UART2 then EVT_UART_IN
      else EVT_USB_IN)"

section \<open>The table while ports are opened\<close>

text \<open>The ports stay the four of the static table; the descriptors are -1 or open ones.\<close>

definition map_inv :: "port_map \<Rightarrow> bool" where
  "map_inv t \<longleftrightarrow> map port_id t = [1, 2, 3, 4] \<and> (\<forall>e \<in> set t. -1 \<le> map_fd e)"

lemma port_open_fd_ids: "map port_id (snd (port_open_fd os_open p t)) = map port_id t"
  by (induction t) (auto simp: Let_def split: prod.splits)

lemma port_open_fd_nonneg:
  "\<forall>e \<in> set t. -1 \<le> map_fd e \<Longrightarrow> \<forall>e \<in> set (snd (port_open_fd os_open p t)). -1 \<le> map_fd e"
  by (induction t) (auto simp: Let_def split: prod.splits)

lemma port_open_fd_inv: "map_inv t \<Longrightarrow> map_inv (snd (port_open_fd os_open p t))"
  using port_open_fd_nonneg [of t os_open p] by (simp add: map_inv_def port_open_fd_ids)

lemma port_open_fd_effect:
  "fst (port_open_fd os_open p t) = port_to_fd p (snd (port_open_fd os_open p t))
     \<or> fst (port_open_fd os_open p t) = -1"
  by (induction t) (auto simp: Let_def split: prod.splits)

lemma port_open_fd_other:
  "q \<noteq> p \<Longrightarrow> port_to_fd q (snd (port_open_fd os_open p t)) = port_to_fd q t"
  by (induction t) (auto simp: Let_def split: prod.splits)

lemma port_open_fd_cached:
  "0 \<le> port_to_fd p t \<Longrightarrow> port_open_fd os_open p t = (port_to_fd p t, t)"
  by (induction t) auto

lemma port_open_fd_opened:
  "0 \<le> fst (port_open_fd os_open p t) \<Longrightarrow>
     fst (port_open_fd os_open p t) = port_to_fd p (snd (port_open_fd os_open p t))"
  by (induction t) (auto simp: Let_def split: prod.splits if_splits)

lemma fd_to_port_back:
  assumes "distinct (map port_id t)" and "0 \<le> d" and "port_to_fd p t = d"
    and "\<And>e e'. e \<in> set t \<Longrightarrow> e' \<in> set t \<Longrightarrow> 0 \<le> map_fd e \<Longrightarrow> map_fd e = map_fd e' \<Longrightarrow> e = e'"
  shows "fd_to_port d t = p"
  using assms
proof (induction t)
  case Nil
  then show ?case by simp
next
  case (Cons e t)
  show ?case
  proof (cases "port_id e = p")
    case True
    with Cons.prems show ?thesis by simp
  next
    case False
    then have p: "port_to_fd p t = d" using Cons.prems(3) by simp
    have "\<exists>e' \<in> set t. map_fd e' = d"
      using p Cons.prems(2) by (induction t) (auto split: if_splits)
    then obtain e' where e': "e' \<in> set t" "map_fd e' = d" ..
    have "map_fd e \<noteq> d"
    proof
      assume "map_fd e = d"
      then have "e = e'" using Cons.prems(2) Cons.prems(4) [of e e'] e' by simp
      with e'(1) Cons.prems(1) show False by auto
    qed
    moreover have "fd_to_port d t = p"
      by (rule Cons.IH) (use Cons.prems p in \<open>auto\<close>)
    ultimately show ?thesis by simp
  qed
qed

text \<open>Open descriptors are distinct, as those of one process are.\<close>

definition fds_distinct :: "port_map \<Rightarrow> bool" where
  "fds_distinct t \<longleftrightarrow> (\<forall>e \<in> set t. \<forall>e' \<in> set t. 0 \<le> map_fd e \<and> map_fd e = map_fd e' \<longrightarrow> e = e')"

lemma port_open_fd_set:
  "e \<in> set (snd (port_open_fd os_open p t)) \<Longrightarrow> e \<in> set t \<or> 
     (\<exists>e0 \<in> set t. port_id e0 = p \<and> port_id e = p \<and> map_fd e = os_open (dev_path e0) \<and> 0 \<le> map_fd e)"
  by (induction t) (auto simp: Let_def split: prod.splits if_splits)

lemma fds_distinct_open:
  assumes "map_inv t" and "fds_distinct t"
    and fresh: "\<And>e path. e \<in> set t \<Longrightarrow> 0 \<le> os_open path \<Longrightarrow> map_fd e \<noteq> os_open path"
  shows "fds_distinct (snd (port_open_fd os_open p t))"
proof -
  let ?t = "snd (port_open_fd os_open p t)"
  have d: "distinct (map port_id ?t)"
    using assms(1) by (simp add: map_inv_def port_open_fd_ids)
  have same: "e = e'" if "e \<in> set ?t" "e' \<in> set ?t" "port_id e = port_id e'" for e e'
    using d that by (meson distinct_map inj_onD)
  show ?thesis
    unfolding fds_distinct_def
  proof (intro ballI impI)
    fix e e' assume e: "e \<in> set ?t" "e' \<in> set ?t" and fd: "0 \<le> map_fd e \<and> map_fd e = map_fd e'"
    let ?new = "\<lambda>x. port_id x = p \<and> (\<exists>path. map_fd x = os_open path \<and> 0 \<le> os_open path)"
    have old_new: "\<not> (x \<in> set t \<and> ?new y \<and> map_fd x = map_fd y)" for x y
      using fresh by metis
    have "e \<in> set t \<or> ?new e" "e' \<in> set t \<or> ?new e'"
      using port_open_fd_set [OF e(1)] port_open_fd_set [OF e(2)] by auto
    then consider "e \<in> set t \<and> e' \<in> set t" | "?new e \<and> ?new e'"
      using old_new [of e e'] old_new [of e' e] fd by auto
    then show "e = e'"
    proof cases
      case 1
      with fd assms(2) show ?thesis by (simp add: fds_distinct_def)
    next
      case 2
      with same [OF e] show ?thesis by simp
    qed
  qed
qed

text \<open>
  Opening a port: when it succeeds, the descriptor is looked up from the port and the
  port from the descriptor, no other port's descriptor changes, and opening it again gives
  the same descriptor whatever the operating system would say now. The hypothesis on the
  operating system is that \<open>open\<close> never returns a descriptor that is already open.
\<close>

theorem port_map_open:
  assumes "map_inv t" and "fds_distinct t"
    and "\<And>e path. e \<in> set t \<Longrightarrow> 0 \<le> os_open path \<Longrightarrow> map_fd e \<noteq> os_open path"
    and "port_open_fd os_open p t = (d, t')" and "0 \<le> d"
  shows "port_to_fd p t' = d \<and> fd_to_port d t' = p \<and> map_inv t' \<and> fds_distinct t'
    \<and> (\<forall>q. q \<noteq> p \<longrightarrow> port_to_fd q t' = port_to_fd q t) \<and> port_open_fd os_open' p t' = (d, t')"
proof -
  have inv': "map_inv t'" using port_open_fd_inv [OF assms(1), of os_open p] assms(4) by simp
  have dist': "fds_distinct t'" using fds_distinct_open [where os_open = os_open and p = p, OF assms(1-3)] assms(4) by simp
  have p: "port_to_fd p t' = d" using port_open_fd_opened [of os_open p t] assms(4,5) by simp
  have "fd_to_port d t' = p"
    by (rule fd_to_port_back [OF _ assms(5) p])
       (use inv' dist' in \<open>auto simp: map_inv_def fds_distinct_def\<close>)
  moreover have "port_to_fd q t' = port_to_fd q t" if "q \<noteq> p" for q
    using port_open_fd_other [OF that, of os_open t] assms(4) by simp
  moreover have "port_open_fd os_open' p t' = (d, t')"
    using port_open_fd_cached [of p t' os_open'] p assms(5) by simp
  ultimately show ?thesis using inv' dist' p by simp
qed

theorem port_map_open_witness:
  "fd_to_port 9 (snd (port_open_fd (\<lambda>path. if path = ''/dev/ttyS1'' then 9 else -1) 2 port_map_static)) = 2"
proof -
  let ?os = "\<lambda>path. if path = ''/dev/ttyS1'' then 9 else (-1 :: int)"
  have e: "port_open_fd ?os 2 port_map_static = (9, snd (port_open_fd ?os 2 port_map_static))"
    by (simp add: port_map_static_def port_ids)
  show ?thesis
    using port_map_open [OF _ _ _ e, of "\<lambda>path. 0"]
    by (auto simp: map_inv_def fds_distinct_def port_map_static_def port_ids)
qed

text \<open>
  The closed ports answer to -1: \<open>fd_to_port(-1)\<close> is not the "no such port" -1 but the first
  port that is not open, as long as there is one.
\<close>

lemma fd_to_port_closed:
  "fd_to_port (-1) t = (case find (\<lambda>e. map_fd e = -1) t of None \<Rightarrow> -1 | Some e \<Rightarrow> port_id e)"
proof -
  have "fd_to_port d ys = (case find (\<lambda>e. map_fd e = d) ys of None \<Rightarrow> -1 | Some e \<Rightarrow> port_id e)" for d ys
    by (induction ys) auto
  then show ?thesis by simp
qed

end
