(* ===== verification/Reactor.thy ===== *)
theory Reactor
  imports RouterCore FilterPlugin PortMap "HOL-Library.Sublist"
begin

text \<open>
  The reactor thread: \<^verbatim>\<open>routerd/include/reactor.h\<close> and \<^verbatim>\<open>routerd/src/reactor.c\<close>. The state is
  the memory it shares with the dispatcher thread (\<open>router\<close>), the descriptor \<open>epfd\<close> with what it
  watches, and the descriptors that are open. The answers of the operating system to \<open>accept\<close>,
  \<open>calloc\<close> and \<open>read\<close> are an input of each step. \<open>None\<close> is an access to freed memory or through
  NULL, an access outside a block, or a \<open>free\<close> of memory that was not allocated. The messages
  handed to \<open>queue_push\<close> are an output, in order.
\<close>

section \<open>State\<close>

definition MAX_REACT_FDS :: nat where "MAX_REACT_FDS = 64"
definition ROUTES_PER_SRC :: int where "ROUTES_PER_SRC = 16"

record reactor =
  rt :: router
  epfd :: int
  epoll :: "int \<rightharpoonup> port_ref"
  open_fds :: "int set"

text \<open>
  What \<open>accept\<close>, \<open>calloc\<close> (an address or NULL) and \<open>read\<close> answer; an empty \<open>io_read\<close> is end of file
  or an error.
\<close>

record io =
  io_accept :: int
  io_calloc :: "nat option"
  io_read :: "u8 list"

section \<open>Ports\<close>

text \<open>
  \<open>EPOLL_CTL_ADD\<close> fails when \<open>epoll_create\<close> had failed, and for a descriptor that is already
  watched; the code does not look at its result.
\<close>

definition epoll_add :: "int \<Rightarrow> int \<Rightarrow> port_ref \<Rightarrow> (int \<rightharpoonup> port_ref) \<Rightarrow> (int \<rightharpoonup> port_ref)" where
  "epoll_add ep_fd d ref ep = (if 0 \<le> ep_fd \<and> ep d = None then ep(d \<mapsto> ref) else ep)"

definition reactor_add_port :: "port_ref \<Rightarrow> reactor \<Rightarrow> reactor option" where
  "reactor_add_port ref s = do {
     p \<leftarrow> deref (rt s) ref;
     if p_fd p < 0 then Some s
     else
       let t = g_port_table (rt s);
           t = (case find_index (\<lambda>e. \<not> used e) t of
                  None \<Rightarrow> t
                | Some i \<Rightarrow> t[i := \<lparr>used = True, e_fd = p_fd p, e_port = Some ref\<rparr>])
       in Some (s\<lparr>rt := (rt s)\<lparr>g_port_table := t\<rparr>, epoll := epoll_add (epfd s) (p_fd p) ref (epoll s)\<rparr>) }"

text \<open>
  A connection accepted on a server port gets a port of its own with the server's name. The
  result of \<open>calloc\<close> is not tested: without memory the name is copied through NULL.
\<close>

definition accepted_port :: "port_type \<Rightarrow> cbuf \<Rightarrow> int \<Rightarrow> port_def" where
  "accepted_port ty server_name d = zero_port\<lparr>
     p_name := (strncpy (replicate 32 0) server_name 31)[31 := 0], p_fd := d, p_type := ty\<rparr>"

lemma accepted_name: "cstr (p_name (accepted_port ty nm d)) = take 31 (cstr nm)"
proof -
  have "strncpy (replicate 32 0) nm 31 ! 31 = 0"
    using strncpy_last [of "replicate 32 0" 31] by simp
  then have "(strncpy (replicate 32 0) nm 31)[31 := 0] = strncpy (replicate 32 0) nm 31"
    by (metis list_update_id)
  then show ?thesis using cstr_strncpy [of "replicate 32 0" 31] by (simp add: accepted_port_def)
qed

definition accept_client :: "port_type \<Rightarrow> port_def \<Rightarrow> io \<Rightarrow> reactor \<Rightarrow> reactor option" where
  "accept_client ty server w s =
     (if io_accept w < 0 then Some s
      else case io_calloc w of
        None \<Rightarrow> None
      | Some a \<Rightarrow>
          let s = s\<lparr>open_fds := insert (io_accept w) (open_fds s),
                    rt := (rt s)\<lparr>heap := (heap (rt s))(a \<mapsto> accepted_port ty (p_name server) (io_accept w))\<rparr>\<rparr>
          in reactor_add_port (Heap_port a) s)"

text \<open>\<open>free\<close>: the NULL pointer is allowed, a port of the configuration is not.\<close>

fun free_port :: "port_ref option \<Rightarrow> router \<Rightarrow> router option" where
  "free_port None r = Some r"
| "free_port (Some (Cfg_port i)) r = None"
| "free_port (Some (Heap_port a)) r =
     (if heap r a = None then None else Some (r\<lparr>heap := (heap r)(a := None)\<rparr>))"

definition close_port :: "port_def \<Rightarrow> reactor \<Rightarrow> reactor option" where
  "close_port p s =
     (let d = p_fd p;
          s = s\<lparr>epoll := (epoll s)(d := None), open_fds := open_fds s - {d}\<rparr>;
          t = g_port_table (rt s)
      in case find_index (\<lambda>e. used e \<and> e_fd e = d) t of
           None \<Rightarrow> Some s
         | Some k \<Rightarrow> do {
             r \<leftarrow> (if p_type p = PORT_TCP_CLIENT \<or> p_type p = PORT_IPC_CLIENT
                   then free_port (e_port (t ! k)) (rt s) else Some (rt s));
             Some (s\<lparr>rt := r\<lparr>g_port_table := t[k := \<lparr>used = False, e_fd = -1, e_port = None\<rparr>]\<rparr>\<rparr>) })"

section \<open>Routing\<close>

text \<open>
  The loop over the routes of the source port. \<open>junk\<close> is what the stack holds in \<open>msg\<close>; the
  handlers work on the one buffer \<open>buf\<close>, always with the length that was read.
\<close>

fun route_loop ::
    "plugin_handler plugin_table \<Rightarrow> config \<Rightarrow> event_msg \<Rightarrow> nat list \<Rightarrow> u8 list \<Rightarrow> int \<Rightarrow>
       (event_msg list \<times> u8 list) option" where
  "route_loop pt c junk [] buf n = Some ([], buf)"
| "route_loop pt c junk (j # ks) buf n =
     (let r = routes c ! j in do {
        (m, buf) \<leftarrow> (case plugin_get_handler (r_handler r) pt of
                       None \<Rightarrow> Some (n, buf)
                     | Some handler \<Rightarrow> do {
                         (m, buf) \<leftarrow> handler buf n;
                         Some (if int MAX_DATA < m then int MAX_DATA else m, buf) });
        if m < 0 then route_loop pt c junk ks buf n
        else do {
          d \<leftarrow> memcpy (msg_dst junk) 0 (r_dst r) 32;
          b \<leftarrow> memcpy (msg_data junk) 0 buf (nat m);
          (msgs, buf) \<leftarrow> route_loop pt c junk ks buf n;
          Some (\<lparr>msg_dst = d, msg_len = m, msg_data = b\<rparr> # msgs, buf) } })"

definition recv_route ::
    "plugin_handler plugin_table \<Rightarrow> event_msg \<Rightarrow> u8 list \<Rightarrow> port_def \<Rightarrow> u8 list \<Rightarrow> reactor \<Rightarrow>
       (event_msg list \<times> u8 list) option" where
  "recv_route pt junk stack p bs s =
     (let bs = take 1023 bs; n = length bs in do {
        buf \<leftarrow> memcpy stack 0 bs n;
        buf \<leftarrow> store buf n 0;
        route_loop pt (g_config (rt s)) junk
          (config_find_routes_by_src (Some (p_name p)) ROUTES_PER_SRC (g_config (rt s))) buf (int n) })"

text \<open>One event of \<open>epoll_wait\<close>, for the port its data points to.\<close>

definition handle_event ::
    "plugin_handler plugin_table \<Rightarrow> event_msg \<Rightarrow> u8 list \<Rightarrow> port_ref \<Rightarrow> io \<Rightarrow> reactor \<Rightarrow>
       (reactor \<times> event_msg list) option" where
  "handle_event pt junk stack ref w s = do {
     p \<leftarrow> deref (rt s) ref;
     if p_type p = PORT_TCP_SERVER then do { s \<leftarrow> accept_client PORT_TCP_CLIENT p w s; Some (s, []) }
     else if p_type p = PORT_IPC_SERVER then do { s \<leftarrow> accept_client PORT_IPC_CLIENT p w s; Some (s, []) }
     else if io_read w = [] then do { s \<leftarrow> close_port p s; Some (s, []) }
     else do { (msgs, buf) \<leftarrow> recv_route pt junk stack p (io_read w) s; Some (s, msgs) } }"

text \<open>\<open>reactor_init\<close>, from what \<open>epoll_create\<close> answers, negative when it fails.\<close>

definition reactor_init :: "int \<Rightarrow> reactor \<Rightarrow> reactor" where
  "reactor_init created s =
     s\<lparr>epfd := created, open_fds := (if 0 \<le> created then insert created (open_fds s) else open_fds s)\<rparr>"

text \<open>Opens the port in the table of fixed ports; the descriptor is not watched.\<close>

definition reactor_add_fd_by_port :: "(string \<Rightarrow> int) \<Rightarrow> int \<Rightarrow> port_map \<Rightarrow> port_map" where
  "reactor_add_fd_by_port dev_open port t = snd (port_open_fd dev_open port t)"

definition reactor_clear_all_ports :: "reactor \<Rightarrow> reactor" where
  "reactor_clear_all_ports s = s"

text \<open>
  The older table \<open>reactor_fds\<close> of bare descriptors, beside the descriptors that \<open>epoll\<close> watches
  with the descriptor itself as their data. Adding writes \<open>reactor_fds[fd]\<close> without a bound on
  the descriptor.
\<close>

definition reactor_add_fd :: "int \<Rightarrow> int \<Rightarrow> int list \<times> int set \<Rightarrow> (int list \<times> int set) option" where
  "reactor_add_fd ep_fd d = (\<lambda>(fds, bare).
     if d < 0 then Some (fds, bare)
     else do { fds \<leftarrow> store fds (nat d) d; Some (fds, if 0 \<le> ep_fd then insert d bare else bare) })"

definition reactor_clear_fds :: "int \<Rightarrow> int list \<times> int set \<Rightarrow> int list \<times> int set" where
  "reactor_clear_fds ep_fd = (\<lambda>(fds, bare).
     (map (\<lambda>d. if 0 < d then -1 else d) fds, if 0 \<le> ep_fd then bare - {d \<in> set fds. 0 < d} else bare))"

lemma reactor_add_fd_bound:
  "length fds = MAX_REACT_FDS \<Longrightarrow> reactor_add_fd ep_fd d (fds, bare) = None \<longleftrightarrow> int MAX_REACT_FDS \<le> d"
  by (auto simp: reactor_add_fd_def store_def MAX_REACT_FDS_def split: bind_splits)

section \<open>The memory of the ports\<close>

text \<open>
  No port of the configuration has a type that is freed, every watched descriptor belongs to
  the live port it points to, allocated ports are clients, and the used entries of the port
  table are watched ports, one per descriptor. Without \<open>epfd\<close> nothing is watched, and the used
  entries of the table are open ports of the configuration.
\<close>

definition client_type :: "port_type \<Rightarrow> bool" where
  "client_type ty \<longleftrightarrow> ty = PORT_TCP_CLIENT \<or> ty = PORT_IPC_CLIENT"

definition no_static_clients :: "config \<Rightarrow> bool" where
  "no_static_clients c \<longleftrightarrow> list_all (\<lambda>p. \<not> client_type (p_type p)) (ports c)"

definition watched_ok :: "router \<Rightarrow> (int \<rightharpoonup> port_ref) \<Rightarrow> bool" where
  "watched_ok r ep \<longleftrightarrow> (\<forall>d ref. ep d = Some ref \<longrightarrow> (\<exists>p. deref r ref = Some p \<and> p_fd p = d
     \<and> client_type (p_type p) = (\<exists>a. ref = Heap_port a)))"

definition entries_ok :: "port_entry list \<Rightarrow> (int \<rightharpoonup> port_ref) \<Rightarrow> bool" where
  "entries_ok t ep \<longleftrightarrow> (\<forall>e \<in> set t. used e \<longrightarrow> (\<exists>ref. e_port e = Some ref \<and> ep (e_fd e) = Some ref))
     \<and> (\<forall>i < length t. \<forall>j < length t. used (t ! i) \<and> used (t ! j) \<and> e_fd (t ! i) = e_fd (t ! j) \<longrightarrow> i = j)"

definition entries_static :: "config \<Rightarrow> int set \<Rightarrow> port_entry list \<Rightarrow> bool" where
  "entries_static c fds t \<longleftrightarrow> (\<forall>e \<in> set t. used e \<longrightarrow>
     (\<exists>i < length (ports c). e_port e = Some (Cfg_port i) \<and> p_fd (ports c ! i) \<in> fds))"

definition reactor_inv :: "reactor \<Rightarrow> bool" where
  "reactor_inv s \<longleftrightarrow> no_static_clients (g_config (rt s)) \<and> watched_ok (rt s) (epoll s)
     \<and> dom (epoll s) \<subseteq> open_fds s
     \<and> (if 0 \<le> epfd s then entries_ok (g_port_table (rt s)) (epoll s)
        else epoll s = Map.empty \<and> entries_static (g_config (rt s)) (open_fds s) (g_port_table (rt s)))"

lemma reactor_inv_watching:
  assumes "reactor_inv s" and "epoll s d = Some ref"
  shows "0 \<le> epfd s" "entries_ok (g_port_table (rt s)) (epoll s)"
  using assms by (auto simp: reactor_inv_def split: if_splits)

text \<open>What \<open>find_index\<close> gives for the first free entry keeps the table's property.\<close>

lemma entries_ok_add:
  assumes "entries_ok t ep" and "ep d = None"
  shows "entries_ok (case find_index (\<lambda>e. \<not> used e) t of None \<Rightarrow> t
      | Some i \<Rightarrow> t[i := \<lparr>used = True, e_fd = d, e_port = Some ref\<rparr>]) (ep(d \<mapsto> ref))"
proof -
  have other: "e_fd e \<noteq> d" if "e \<in> set t" "used e" for e
    using assms that by (fastforce simp: entries_ok_def)
  have base: "entries_ok t (ep(d \<mapsto> ref))"
    using assms other by (auto simp: entries_ok_def)
  show ?thesis
  proof (cases "find_index (\<lambda>e. \<not> used e) t")
    case None
    with base show ?thesis by simp
  next
    case (Some i)
    let ?e = "\<lparr>used = True, e_fd = d, e_port = Some ref\<rparr>"
    have "\<exists>r. e_port e = Some r \<and> (ep(d \<mapsto> ref)) (e_fd e) = Some r" if "e \<in> set (t[i := ?e])" "used e" for e
      using in_set_updateD [OF that(1)] that(2) base by (auto simp: entries_ok_def)
    moreover have "a = b" if "a < length t" "b < length t" "used (t[i := ?e] ! a)" "used (t[i := ?e] ! b)"
      "e_fd (t[i := ?e] ! a) = e_fd (t[i := ?e] ! b)" for a b
      using that base other [OF nth_mem [OF that(1)]] other [OF nth_mem [OF that(2)]]
      by (auto simp: nth_list_update_if entries_ok_def split: if_splits)
    ultimately show ?thesis using Some by (simp add: entries_ok_def)
  qed
qed

lemma entries_ok_remove:
  assumes "entries_ok t ep"
  shows "entries_ok (case find_index (\<lambda>e. used e \<and> e_fd e = d) t of None \<Rightarrow> t
      | Some k \<Rightarrow> t[k := \<lparr>used = False, e_fd = -1, e_port = None\<rparr>]) (ep(d := None))"
proof (cases "find_index (\<lambda>e. used e \<and> e_fd e = d) t")
  case None
  then have "\<forall>e \<in> set t. used e \<longrightarrow> e_fd e \<noteq> d" by (simp add: find_index_None)
  with assms have "entries_ok t (ep(d := None))" by (simp add: entries_ok_def)
  then show ?thesis by (simp only: None option.case)
next
  case (Some k)
  note k = find_index_SomeD [OF Some]
  let ?e = "\<lparr>used = False, e_fd = -1, e_port = None\<rparr>"
  have "e_fd (t ! a) \<noteq> d" if "a < length t" "a \<noteq> k" "used (t ! a)" for a
    using assms k(1,2) that by (auto simp: entries_ok_def)
  then have "\<exists>r. e_port e = Some r \<and> (ep(d := None)) (e_fd e) = Some r" if "e \<in> set (t[k := ?e])" "used e" for e
    using in_set_updateD [OF that(1)] that(2) assms by (auto simp: entries_ok_def)
  moreover have "a = b" if "a < length t" "b < length t" "used (t[k := ?e] ! a)" "used (t[k := ?e] ! b)"
    "e_fd (t[k := ?e] ! a) = e_fd (t[k := ?e] ! b)" for a b
    using that assms by (auto simp: nth_list_update_if entries_ok_def split: if_splits)
  ultimately have "entries_ok (t[k := ?e]) (ep(d := None))" by (simp add: entries_ok_def)
  then show ?thesis by (simp only: Some option.case)
qed

lemma deref_table [simp]:
  "deref (r\<lparr>g_port_table := t\<rparr>) ref = deref r ref"
  "heap (r\<lparr>g_port_table := t\<rparr>) = heap r"
  by (cases ref; simp)+

lemma deref_heap:
  "deref (r\<lparr>heap := h\<rparr>) ref = (case ref of Cfg_port i \<Rightarrow> deref r ref | Heap_port a \<Rightarrow> h a)"
  by (cases ref) simp_all

lemma add_port_ok:
  assumes "reactor_inv s" and "deref (rt s) ref = Some p" and "0 \<le> p_fd p \<longrightarrow> epoll s (p_fd p) = None"
    and "client_type (p_type p) = (\<exists>a. ref = Heap_port a)" and "0 \<le> p_fd p \<longrightarrow> p_fd p \<in> open_fds s"
    and "0 \<le> epfd s \<or> (\<exists>i. ref = Cfg_port i)"
  shows "\<exists>s'. reactor_add_port ref s = Some s' \<and> reactor_inv s' \<and> heap (rt s') = heap (rt s)
    \<and> g_config (rt s') = g_config (rt s) \<and> open_fds s' = open_fds s \<and> epfd s' = epfd s
    \<and> epoll s' = (if p_fd p < 0 \<or> epfd s < 0 then epoll s else (epoll s)(p_fd p \<mapsto> ref))"
proof (cases "p_fd p < 0")
  case True
  with assms show ?thesis by (simp add: reactor_add_port_def)
next
  case fd: False
  show ?thesis
  proof (cases "0 \<le> epfd s")
    case True
    have "watched_ok (rt s) ((epoll s)(p_fd p \<mapsto> ref))"
      using assms by (auto simp: reactor_inv_def watched_ok_def)
    with True fd assms entries_ok_add [of "g_port_table (rt s)" "epoll s" "p_fd p" ref] show ?thesis
      by (simp add: reactor_add_port_def reactor_inv_def epoll_add_def watched_ok_def Let_def)
  next
    case False
    let ?t = "g_port_table (rt s)" and ?e = "\<lparr>used = True, e_fd = p_fd p, e_port = Some ref\<rparr>"
    let ?t' = "case find_index (\<lambda>e. \<not> used e) ?t of None \<Rightarrow> ?t | Some i \<Rightarrow> ?t[i := ?e]"
    let ?static = "entries_static (g_config (rt s)) (open_fds s)"
    have inv: "no_static_clients (g_config (rt s))" "epoll s = Map.empty" "?static ?t"
      using False assms(1) by (simp_all add: reactor_inv_def)
    have sub: "e = ?e \<or> e \<in> set ?t" if "e \<in> set ?t'" for e
      using that by (auto split: option.splits dest: in_set_updateD)
    have "?static [?e]"
      using assms(2,5,6) fd False by (auto simp: entries_static_def split: if_splits)
    with inv(3) sub have static: "?static ?t'" unfolding entries_static_def by (metis list.set_intros(1))
    have "reactor_add_port ref s = Some (s\<lparr>rt := (rt s)\<lparr>g_port_table := ?t'\<rparr>\<rparr>)"
      using assms(2) fd False by (simp add: reactor_add_port_def epoll_add_def Let_def)
    moreover have "reactor_inv (s\<lparr>rt := (rt s)\<lparr>g_port_table := ?t'\<rparr>\<rparr>)"
      using inv static False by (simp add: reactor_inv_def watched_ok_def)
    ultimately show ?thesis using False by simp
  qed
qed

text \<open>
  For an accepted connection, the operating system hands out a descriptor that is not open and
  memory that is not allocated, and it has that memory.
\<close>

definition io_fresh :: "io \<Rightarrow> reactor \<Rightarrow> bool" where
  "io_fresh w s \<longleftrightarrow> (0 \<le> io_accept w \<longrightarrow> io_accept w \<notin> open_fds s
     \<and> (case io_calloc w of None \<Rightarrow> False | Some a \<Rightarrow> heap (rt s) a = None))"

text \<open>Without memory the daemon dies with the first connection it accepts.\<close>

lemma accept_without_memory:
  "0 \<le> io_accept w \<Longrightarrow> io_calloc w = None \<Longrightarrow> accept_client ty server w s = None"
  by (simp add: accept_client_def)

lemma accept_client_ok:
  assumes "reactor_inv s" and "io_fresh w s" and "client_type ty" and "0 \<le> epfd s"
  shows "\<exists>s'. accept_client ty server w s = Some s' \<and> reactor_inv s' \<and> g_config (rt s') = g_config (rt s)
    \<and> epoll s \<subseteq>\<^sub>m epoll s'"
proof (cases "io_accept w < 0")
  case True
  with assms show ?thesis by (simp add: accept_client_def)
next
  case False
  let ?d = "io_accept w"
  from assms(2) False obtain a where a: "io_calloc w = Some a" "heap (rt s) a = None"
    by (auto simp: io_fresh_def split: option.splits)
  let ?p = "accepted_port ty (p_name server) ?d"
  let ?s = "s\<lparr>open_fds := insert ?d (open_fds s), rt := (rt s)\<lparr>heap := (heap (rt s))(a \<mapsto> ?p)\<rparr>\<rparr>"
  have fresh: "epoll s ?d = None"
    using assms(1,2) False by (auto simp: io_fresh_def reactor_inv_def)
  have "watched_ok (rt ?s) (epoll s)"
    using assms(1) a(2)
    by (fastforce simp: reactor_inv_def watched_ok_def deref_heap split: port_ref.splits)
  with assms(1,4) have inv: "reactor_inv ?s" by (auto simp: reactor_inv_def)
  have d: "deref (rt ?s) (Heap_port a) = Some ?p" by simp
  have p: "p_fd ?p = ?d" "p_type ?p = ty" by (simp_all add: accepted_port_def)
  from add_port_ok [OF inv d] fresh assms(3,4) obtain s' where
    s': "reactor_add_port (Heap_port a) ?s = Some s'" "reactor_inv s'" "g_config (rt s') = g_config (rt ?s)"
      "epoll s' = (epoll s)(?d \<mapsto> Heap_port a)"
    using False by (auto simp: p)
  have "epoll s \<subseteq>\<^sub>m epoll s'" using fresh by (simp add: s'(4) map_le_def) (metis domI domIff)
  with False s' a(1) show ?thesis by (simp add: accept_client_def Let_def)
qed

lemma watched_okD:
  assumes "watched_ok r ep" and "ep d = Some ref"
  shows "\<exists>p. deref r ref = Some p \<and> p_fd p = d \<and> client_type (p_type p) = (\<exists>a. ref = Heap_port a)"
  using assms by (simp add: watched_ok_def)

lemma watched_okI:
  assumes "\<And>d ref. ep d = Some ref \<Longrightarrow>
    \<exists>p. deref r ref = Some p \<and> p_fd p = d \<and> client_type (p_type p) = (\<exists>a. ref = Heap_port a)"
  shows "watched_ok r ep"
  using assms by (simp add: watched_ok_def)

lemma watched_port:
  assumes "watched_ok r ep" and "ep d = Some ref" and "deref r ref = Some p"
  shows "p_fd p = d \<and> client_type (p_type p) = (\<exists>a. ref = Heap_port a)"
  using watched_okD [OF assms(1,2)] assms(3) by auto

lemma close_port_ok:
  assumes "reactor_inv s" and "epoll s d = Some ref" and "deref (rt s) ref = Some p"
  shows "\<exists>s'. close_port p s = Some s' \<and> reactor_inv s' \<and> g_config (rt s') = g_config (rt s)
    \<and> d \<notin> open_fds s' \<and> epoll s' = (epoll s)(d := None)"
proof -
  have w: "watched_ok (rt s) (epoll s)" using assms(1) by (simp add: reactor_inv_def)
  have p: "p_fd p = d" "client_type (p_type p) = (\<exists>a. ref = Heap_port a)"
    using watched_port [OF w assms(2,3)] by simp_all
  let ?t = "g_port_table (rt s)" and ?ep = "(epoll s)(d := None)"
  let ?f = "find_index (\<lambda>e. used e \<and> e_fd e = d) ?t"
  let ?t' = "case ?f of None \<Rightarrow> ?t | Some k \<Rightarrow> ?t[k := \<lparr>used = False, e_fd = -1, e_port = None\<rparr>]"
  note on = reactor_inv_watching(1) [OF assms(1,2)] and entries = reactor_inv_watching(2) [OF assms(1,2)]
  have t': "entries_ok ?t' ?ep" by (rule entries_ok_remove [OF entries])
  have w0: "watched_ok (rt s) ?ep" using w by (auto simp: watched_ok_def)
  have rest: "no_static_clients (g_config (rt s))" "dom ?ep \<subseteq> open_fds s - {d}"
    using assms(1) by (auto simp: reactor_inv_def)
  show ?thesis
  proof (cases ?f)
    case None
    with t' w0 rest p(1) on show ?thesis by (simp add: close_port_def Let_def reactor_inv_def)
  next
    case (Some k)
    then have k: "k < length ?t" "used (?t ! k)" "e_fd (?t ! k) = d" by (auto dest: find_index_SomeD)
    with entries assms(2) have ek: "e_port (?t ! k) = Some ref"
      by (auto simp: entries_ok_def)
    show ?thesis
    proof (cases ref)
      case (Cfg_port i)
      then have "\<not> (p_type p = PORT_TCP_CLIENT \<or> p_type p = PORT_IPC_CLIENT)"
        using p(2) by (simp add: client_type_def)
      with Some t' w0 rest p(1) on show ?thesis
        by (simp add: close_port_def Let_def reactor_inv_def watched_ok_def)
    next
      case (Heap_port a)
      then have ty: "p_type p = PORT_TCP_CLIENT \<or> p_type p = PORT_IPC_CLIENT"
        using p(2) by (simp add: client_type_def)
      have a: "heap (rt s) a \<noteq> None" using assms(3) Heap_port by simp
      let ?r = "(rt s)\<lparr>heap := (heap (rt s))(a := None)\<rparr>"
      have other: "ref' \<noteq> Heap_port a" if "?ep d' = Some ref'" for d' ref'
      proof
        assume "ref' = Heap_port a"
        with that Heap_port have "d' \<noteq> d" "epoll s d' = Some ref" by (auto split: if_splits)
        from watched_port [OF w this(2) assms(3)] p(1) this(1) show False by simp
      qed
      have same: "deref ?r ref' = deref (rt s) ref'" if "?ep d' = Some ref'" for d' ref'
        using other [OF that] by (cases ref') (simp_all add: deref_heap)
      have "watched_ok ?r ?ep"
        by (rule watched_okI) (simp only: same watched_okD [OF w0])
      with Some t' rest p(1) ty a ek Heap_port on show ?thesis
        by (auto simp: close_port_def Let_def reactor_inv_def watched_ok_def)
    qed
  qed
qed

section \<open>Handlers\<close>

text \<open>
  What the reactor relies on in a handler: called with up to 1023 bytes in its buffer of 1024,
  it stays inside the buffer. Its result may be any number.
\<close>

locale data_handler =
  fixes handler :: plugin_handler
  assumes stays_inside: "length d = 1024 \<Longrightarrow> 0 \<le> n \<Longrightarrow> n \<le> 1023 \<Longrightarrow>
    \<exists>m d'. handler d n = Some (m, d') \<and> length d' = 1024"
begin

lemma clamped:
  assumes "length d = 1024" and "0 \<le> n" and "n \<le> 1023"
  shows "\<exists>m d'. handler d n = Some (m, d') \<and> length d' = 1024
    \<and> do { (m, b) \<leftarrow> handler d n; Some (if int MAX_DATA < m then int MAX_DATA else m, b) } = Some (min m 1024, d')"
proof -
  from stays_inside [OF assms] obtain m d' where "handler d n = Some (m, d')" "length d' = 1024" by blast
  then show ?thesis by (intro exI [of _ m] exI [of _ d']) (simp add: MAX_DATA_def)
qed

end

definition handler_ok :: "plugin_handler \<Rightarrow> bool" where
  "handler_ok = data_handler"

text \<open>Both handlers of the sample plugin are such handlers.\<close>

interpretation upcase: data_handler usb_to_uart
proof
  fix d :: "u8 list" and n :: int
  assume "length d = 1024" "0 \<le> n" "n \<le> 1023"
  then show "\<exists>m d'. usb_to_uart d n = Some (m, d') \<and> length d' = 1024"
    using upper_loop_eq [of 0 "nat n" d] by (simp add: usb_to_uart_def)
qed

interpretation framing: data_handler uart_to_usb
proof
  fix d :: "u8 list" and n :: int
  assume "length d = 1024" "0 \<le> n" "n \<le> 1023"
  then show "\<exists>m d'. uart_to_usb d n = Some (m, d') \<and> length d' = 1024"
    by (simp add: uart_to_usb_def mem_simps)
qed

definition handlers_ok :: "plugin_handler plugin_table \<Rightarrow> bool" where
  "handlers_ok pt \<longleftrightarrow> (\<forall>e \<in> set (g_handlers pt). \<forall>h. func e = Some h \<longrightarrow> handler_ok h)"

lemma handlers_ok_get:
  assumes "handlers_ok pt" and "plugin_get_handler nm pt = Some h"
  shows "handler_ok h"
proof -
  let ?es = "take (g_handler_count pt) (g_handlers pt)"
  from assms(2) obtain e where e: "find (\<lambda>e. strcmp_eq (full_name e) nm) ?es = Some e" "func e = Some h"
    by (simp add: plugin_get_handler_def split: option.splits)
  from e(1) obtain i where "i < length ?es" "e = ?es ! i" by (auto simp only: find_Some_iff)
  then have "e \<in> set ?es" by (simp only: nth_mem)
  then have "e \<in> set (g_handlers pt)" by (rule in_set_takeD)
  with assms(1) e(2) show ?thesis by (simp add: handlers_ok_def)
qed

section \<open>The routing loop\<close>

text \<open>The stack memory a round starts from, and what a queued message must be.\<close>

definition stack_ok :: "event_msg \<Rightarrow> u8 list \<Rightarrow> bool" where
  "stack_ok junk stack \<longleftrightarrow> length (msg_dst junk) = 32 \<and> length (msg_data junk) = 1024 \<and> length stack = 1024"

text \<open>
  What the loop forwards, over the routes and the bytes alone: each handler works on the buffer
  the handlers before it left, always with the length that was read; its message has as many
  bytes as it returns, at most 1024, and is dropped when it returns a negative number.
\<close>

fun forwarded ::
    "plugin_handler plugin_table \<Rightarrow> route_def list \<Rightarrow> u8 list \<Rightarrow> int \<Rightarrow> (cbuf \<times> u8 list) list" where
  "forwarded pt [] buf n = []"
| "forwarded pt (r # rs) buf n =
     (case plugin_get_handler (r_handler r) pt of
        None \<Rightarrow> (r_dst r, take (nat n) buf) # forwarded pt rs buf n
      | Some handler \<Rightarrow>
          (case handler buf n of
             None \<Rightarrow> []
           | Some (m, buf) \<Rightarrow>
               (if m < 0 then [] else [(r_dst r, take (nat (min m 1024)) buf)]) @ forwarded pt rs buf n))"

lemma forwarded_plain:
  "\<forall>r \<in> set rs. plugin_get_handler (r_handler r) pt = None \<Longrightarrow>
    forwarded pt rs buf n = map (\<lambda>r. (r_dst r, take (nat n) buf)) rs"
  by (induction rs) simp_all

lemma route_loop_ok:
  assumes "handlers_ok pt" and "config_ok c" and "stack_ok junk stack" and "0 \<le> n" and "n \<le> 1023"
  shows "length buf = 1024 \<Longrightarrow> (\<forall>j \<in> set ks. j < length (routes c)) \<Longrightarrow>
    \<exists>ms b. route_loop pt c junk ks buf n = Some (ms, b) \<and> length ms \<le> length ks \<and> list_all msg_ok ms
      \<and> map (\<lambda>m. (msg_dst m, msg_bytes m)) ms = forwarded pt (map (\<lambda>j. routes c ! j) ks) buf n"
proof (induction ks arbitrary: buf)
  case Nil
  then show ?case by simp
next
  case (Cons j ks)
  let ?h = "case plugin_get_handler (r_handler (routes c ! j)) pt of
      None \<Rightarrow> Some (n, buf)
    | Some handler \<Rightarrow> do { (m, b) \<leftarrow> handler buf n; Some (if int MAX_DATA < m then int MAX_DATA else m, b) }"
  let ?r = "routes c ! j"
  have "\<exists>m b. ?h = Some (m, b) \<and> m \<le> int MAX_DATA \<and> length b = 1024
    \<and> (\<forall>rs. forwarded pt (?r # rs) buf n =
        (if m < 0 then [] else [(r_dst ?r, take (nat m) b)]) @ forwarded pt rs b n)"
  proof (cases "plugin_get_handler (r_handler ?r) pt")
    case None
    with Cons.prems(1) assms(4,5) show ?thesis by (simp add: MAX_DATA_def)
  next
    case (Some h)
    from handlers_ok_get [OF assms(1) Some] have "data_handler h" by (simp add: handler_ok_def)
    from data_handler.clamped [OF this Cons.prems(1) assms(4,5)] obtain m d where
      d: "h buf n = Some (m, d)" "length d = 1024"
        "do { (m, b) \<leftarrow> h buf n; Some (if int MAX_DATA < m then int MAX_DATA else m, b) } = Some (min m 1024, d)" by blast
    with Some show ?thesis by (intro exI [of _ "min m 1024"] exI [of _ d]) (simp add: MAX_DATA_def)
  qed
  then obtain m b where h: "?h = Some (m, b)" "m \<le> int MAX_DATA" "length b = 1024"
    "\<And>rs. forwarded pt (?r # rs) buf n =
        (if m < 0 then [] else [(r_dst ?r, take (nat m) b)]) @ forwarded pt rs b n" by blast
  have "\<forall>k \<in> set ks. k < length (routes c)" using Cons.prems(2) by simp
  from Cons.IH [OF h(3) this] obtain ms b' where ms: "route_loop pt c junk ks b n = Some (ms, b')"
    "length ms \<le> length ks" "list_all msg_ok ms"
    "map (\<lambda>m. (msg_dst m, msg_bytes m)) ms = forwarded pt (map (\<lambda>j. routes c ! j) ks) b n"
    by blast
  show ?case
  proof (cases "m < 0")
    case True
    with h(1) ms have "route_loop pt c junk (j # ks) buf n = Some (ms, b')" by (simp add: Let_def)
    with True ms h(4) show ?thesis by (intro exI [of _ ms] exI [of _ b']) simp
  next
    case False
    let ?m = "\<lparr>msg_dst = r_dst ?r, msg_len = m, msg_data = take (nat m) b @ drop (nat m) (msg_data junk)\<rparr>"
    have dst: "length (r_dst ?r) = 32"
      using Cons.prems(2) assms(2) by (auto simp: config_ok_def route_ok_def dest: canon_length)
    from False h(2) have m: "0 \<le> m" "nat m \<le> 1024" "m \<le> 1024" by (simp_all add: MAX_DATA_def)
    have ok: "msg_ok ?m"
      using dst m h(3) assms(3) by (simp add: stack_ok_def msg_ok_def MAX_DATA_def)
    have "msg_bytes ?m = take (nat m) b" using m h(3) by (simp add: msg_bytes_def)
    moreover have "route_loop pt c junk (j # ks) buf n = Some (?m # ms, b')"
      using False h(1,3) ms(1) assms(3) dst m by (simp add: Let_def mem_simps stack_ok_def)
    ultimately show ?thesis using False ms(2-4) ok h(4) by (intro exI [of _ "?m # ms"] exI [of _ b']) simp
  qed
qed

section \<open>One event\<close>

lemma find_routes_bound:
  assumes "config_ok c"
  shows "length (config_find_routes_by_src (Some s) ROUTES_PER_SRC c) \<le> 16"
    and "\<forall>j \<in> set (config_find_routes_by_src (Some s) ROUTES_PER_SRC c). j < length (routes c)"
proof -
  show "length (config_find_routes_by_src (Some s) ROUTES_PER_SRC c) \<le> 16"
    by (simp add: config_find_routes_by_src_def find_routes_loop_eq ROUTES_PER_SRC_def)
  show "\<forall>j \<in> set (config_find_routes_by_src (Some s) ROUTES_PER_SRC c). j < length (routes c)"
    by (auto simp: config_find_routes_by_src_def find_routes_loop_eq ROUTES_PER_SRC_def routes_from_def
        dest!: in_set_takeD)
qed

lemma map_nth_filter: "map (\<lambda>j. xs ! j) (filter (\<lambda>j. P (xs ! j)) [0..<length xs]) = filter P xs"
proof -
  have "filter P xs = filter P (map ((!) xs) [0..<length xs])" by (simp only: map_nth)
  also have "\<dots> = map ((!) xs) (filter (P \<circ> (!) xs) [0..<length xs])" by (rule filter_map)
  finally show ?thesis by (simp add: comp_def)
qed

definition routes_of :: "cbuf \<Rightarrow> config \<Rightarrow> route_def list" where
  "routes_of nm c = take 16 (filter (\<lambda>r. cstr (r_src r) = cstr nm) (take (route_count c) (routes c)))"

lemma found_routes:
  assumes "config_ok c"
  shows "map (\<lambda>j. routes c ! j) (config_find_routes_by_src (Some nm) ROUTES_PER_SRC c) = routes_of nm c"
proof -
  let ?rs = "take (route_count c) (routes c)"
  let ?js = "filter (\<lambda>k. cstr (r_src (?rs ! k)) = cstr nm) [0..<length ?rs]"
  have "map (\<lambda>j. routes c ! j) ?js = map (\<lambda>j. ?rs ! j) ?js" by (rule map_cong) auto
  also have "\<dots> = filter (\<lambda>r. cstr (r_src r) = cstr nm) ?rs"
    by (rule map_nth_filter [where P = "\<lambda>r. cstr (r_src r) = cstr nm"])
  finally have "map (\<lambda>j. routes c ! j) ?js = filter (\<lambda>r. cstr (r_src r) = cstr nm) ?rs" .
  moreover have "config_find_routes_by_src (Some nm) ROUTES_PER_SRC c = take 16 ?js"
    by (simp add: config_find_routes_by_src_def find_routes_loop_eq ROUTES_PER_SRC_def routes_from_def)
  ultimately show ?thesis by (simp only: routes_of_def flip: take_map)
qed

text \<open>The buffer after \<open>read\<close>, on what the stack held.\<close>

definition received :: "u8 list \<Rightarrow> u8 list \<Rightarrow> u8 list" where
  "received bs stack = take 1023 bs @ 0 # drop (Suc (min (length bs) 1023)) stack"

lemma recv_route_ok:
  assumes "handlers_ok pt" and "config_ok (g_config (rt s))" and "stack_ok junk stack"
  shows "\<exists>ms b. recv_route pt junk stack p bs s = Some (ms, b) \<and> length ms \<le> 16 \<and> list_all msg_ok ms
    \<and> map (\<lambda>m. (msg_dst m, msg_bytes m)) ms =
        forwarded pt (routes_of (p_name p) (g_config (rt s))) (received bs stack) (int (min (length bs) 1023))"
proof -
  let ?c = "g_config (rt s)" and ?n = "min (length bs) 1023"
  let ?ks = "config_find_routes_by_src (Some (p_name p)) ROUTES_PER_SRC ?c"
  have len: "length stack = 1024" using assms(3) by (simp add: stack_ok_def)
  then have buf: "length (received bs stack) = 1024" by (simp add: received_def)
  have "?n < length stack" using len by simp
  then have "drop ?n stack = stack ! ?n # drop (Suc ?n) stack" by (simp add: Cons_nth_drop_Suc)
  then have r: "(take ?n bs @ drop ?n stack)[?n := 0] = received bs stack"
    by (simp add: received_def list_update_append min_def)
  have n: "0 \<le> int ?n" "int ?n \<le> 1023" by simp_all
  from route_loop_ok [OF assms n buf find_routes_bound(2) [OF assms(2)]] obtain ms b where
    ms: "route_loop pt ?c junk ?ks (received bs stack) (int ?n) = Some (ms, b)" "length ms \<le> length ?ks"
      "list_all msg_ok ms"
      "map (\<lambda>m. (msg_dst m, msg_bytes m)) ms =
        forwarded pt (routes_of (p_name p) ?c) (received bs stack) (int ?n)"
    unfolding found_routes [OF assms(2)] by blast
  have "recv_route pt junk stack p bs s = route_loop pt ?c junk ?ks (received bs stack) (int ?n)"
    using len by (simp add: recv_route_def Let_def mem_simps min.commute flip: r)
  with ms find_routes_bound(1) [OF assms(2), of "p_name p"] show ?thesis by simp
qed

text \<open>Data changes nothing but the queue.\<close>

lemma forward_event:
  assumes "handlers_ok pt" and "config_ok (g_config (rt s))" and "stack_ok junk stack"
    and "deref (rt s) ref = Some p" and "p_type p \<noteq> PORT_TCP_SERVER" and "p_type p \<noteq> PORT_IPC_SERVER"
    and "io_read w \<noteq> []"
  shows "\<exists>ms. handle_event pt junk stack ref w s = Some (s, ms) \<and> length ms \<le> 16 \<and> list_all msg_ok ms
    \<and> map (\<lambda>m. (msg_dst m, msg_bytes m)) ms =
        forwarded pt (routes_of (p_name p) (g_config (rt s))) (received (io_read w) stack)
          (int (min (length (io_read w)) 1023))"
  using recv_route_ok [OF assms(1-3), of p "io_read w"] assms(4-7) by (auto simp: handle_event_def)

lemma forwarded_received:
  "\<forall>r \<in> set rs. plugin_get_handler (r_handler r) pt = None \<Longrightarrow>
    forwarded pt rs (received bs stack) (int (min (length bs) 1023)) = map (\<lambda>r. (r_dst r, take 1023 bs)) rs"
  by (simp add: forwarded_plain received_def min_def)

lemma handle_event_ok:
  assumes "handlers_ok pt" and "config_ok (g_config (rt s))" and "stack_ok junk stack"
    and "reactor_inv s" and "epoll s d = Some ref" and "io_fresh w s"
  shows "\<exists>s' ms. handle_event pt junk stack ref w s = Some (s', ms) \<and> reactor_inv s'
    \<and> g_config (rt s') = g_config (rt s) \<and> length ms \<le> 16 \<and> list_all msg_ok ms
    \<and> (epoll s)(d := None) \<subseteq>\<^sub>m epoll s'"
proof -
  have w: "watched_ok (rt s) (epoll s)" using assms(4) by (simp add: reactor_inv_def)
  from watched_okD [OF w assms(5)] obtain p where p: "deref (rt s) ref = Some p" by blast
  note on = reactor_inv_watching(1) [OF assms(4,5)]
  have sub: "(epoll s)(d := None) \<subseteq>\<^sub>m epoll s" by (simp add: map_le_def)
  consider (tcp) "p_type p = PORT_TCP_SERVER" | (ipc) "p_type p = PORT_IPC_SERVER"
    | (eof) "p_type p \<noteq> PORT_TCP_SERVER" "p_type p \<noteq> PORT_IPC_SERVER" "io_read w = []"
    | (data) "p_type p \<noteq> PORT_TCP_SERVER" "p_type p \<noteq> PORT_IPC_SERVER" "io_read w \<noteq> []" by blast
  then show ?thesis
  proof cases
    case tcp
    from accept_client_ok [OF assms(4,6) _ on, of PORT_TCP_CLIENT p] show ?thesis
      by (auto simp: handle_event_def p tcp client_type_def intro: map_le_trans [OF sub])
  next
    case ipc
    from accept_client_ok [OF assms(4,6) _ on, of PORT_IPC_CLIENT p] show ?thesis
      by (auto simp: handle_event_def p ipc client_type_def intro: map_le_trans [OF sub])
  next
    case eof
    from close_port_ok [OF assms(4,5) p] show ?thesis
      by (auto simp: handle_event_def p eof)
  next
    case data
    from recv_route_ok [OF assms(1-3), of p "io_read w"] show ?thesis
      using sub assms(4) by (auto simp: handle_event_def p data)
  qed
qed


section \<open>The thread\<close>

text \<open>
  What the thread does from \<open>s0\<close>: \<open>epoll_wait\<close> reports up to 16 watched descriptors, each once,
  and the loop handles them in order. The last argument is what was handed to \<open>queue_push\<close>.
\<close>

definition MAX_EVENTS :: nat where "MAX_EVENTS = 16"

inductive reactor_reaches ::
    "plugin_handler plugin_table \<Rightarrow> reactor \<Rightarrow> reactor \<Rightarrow> (int \<times> port_ref) list \<Rightarrow> event_msg list \<Rightarrow> bool"
  for pt s0 where
  started: "reactor_reaches pt s0 s0 [] []"
| waited: "reactor_reaches pt s0 s [] out \<Longrightarrow> length evs \<le> MAX_EVENTS \<Longrightarrow> distinct (map fst evs) \<Longrightarrow>
    list_all (\<lambda>(d, ref). epoll s d = Some ref) evs \<Longrightarrow> reactor_reaches pt s0 s evs out"
| handled: "reactor_reaches pt s0 s ((d, ref) # evs) out \<Longrightarrow> io_fresh w s \<Longrightarrow> stack_ok junk stack \<Longrightarrow>
    handle_event pt junk stack ref w s = Some (s', ms) \<Longrightarrow> reactor_reaches pt s0 s' evs (out @ ms)"

inductive_cases handledE: "reactor_reaches pt s0 s ((d, ref) # evs) out"

lemma map_le_pending:
  assumes "(ep(d := None)) \<subseteq>\<^sub>m ep'" and "d \<notin> fst ` set evs" and "list_all (\<lambda>(d, ref). ep d = Some ref) evs"
  shows "list_all (\<lambda>(d, ref). ep' d = Some ref) evs"
  unfolding list_all_iff
proof clarify
  fix e ref assume e: "(e, ref) \<in> set evs"
  with assms(3) have "ep e = Some ref" by (auto simp: list_all_iff)
  moreover from e assms(2) have "e \<noteq> d" by force
  ultimately have "(ep(d := None)) e = Some ref" by simp
  with assms(1) show "ep' e = Some ref" by (metis domI map_le_def)
qed

lemma reactor_reaches_inv:
  assumes "handlers_ok pt" and "config_ok (g_config (rt s0))" and "reactor_inv s0"
    and "reactor_reaches pt s0 s evs out"
  shows "reactor_inv s \<and> g_config (rt s) = g_config (rt s0) \<and> list_all msg_ok out
    \<and> distinct (map fst evs) \<and> list_all (\<lambda>(d, ref). epoll s d = Some ref) evs"
  using assms(4)
proof (induction rule: reactor_reaches.induct)
  case started
  then show ?case using assms(3) by simp
next
  case (waited s out evs)
  then show ?case by simp
next
  case (handled s d ref evs out w junk stack s' ms)
  then have pre: "config_ok (g_config (rt s))" "reactor_inv s" "epoll s d = Some ref"
    using assms(2) by simp_all
  from handle_event_ok [OF assms(1) pre(1) handled.hyps(3) pre(2,3) handled.hyps(2)] handled.hyps(4)
  have s': "reactor_inv s'" "g_config (rt s') = g_config (rt s)" "list_all msg_ok ms"
    "(epoll s)(d := None) \<subseteq>\<^sub>m epoll s'" by auto
  moreover have "list_all (\<lambda>(d, ref). epoll s' d = Some ref) evs"
    using map_le_pending [OF s'(4)] handled.IH by simp
  ultimately show ?case using handled.IH by simp
qed

lemma reactor_inv_table: "reactor_inv s \<Longrightarrow> table_valid (rt s)"
proof -
  assume inv: "reactor_inv s"
  then have w: "watched_ok (rt s) (epoll s)" by (simp add: reactor_inv_def)
  have "\<exists>r p. e_port e = Some r \<and> deref (rt s) r = Some p" if e: "e \<in> set (g_port_table (rt s))" "used e" for e
  proof (cases "0 \<le> epfd s")
    case True
    with inv have "entries_ok (g_port_table (rt s)) (epoll s)" by (simp add: reactor_inv_def)
    with e obtain r where "e_port e = Some r" "epoll s (e_fd e) = Some r"
      unfolding entries_ok_def by blast
    with watched_okD [OF w this(2)] show ?thesis by blast
  next
    case False
    with inv have "entries_static (g_config (rt s)) (open_fds s) (g_port_table (rt s))"
      by (simp add: reactor_inv_def)
    with e show ?thesis unfolding entries_static_def by fastforce
  qed
  then show "table_valid (rt s)" by (fastforce simp: table_valid_def)
qed

section \<open>Properties\<close>

definition demo_name :: cbuf where
  "demo_name = strncpy (replicate 32 0) (bytes ''A'') 31"

definition demo_reactor :: reactor where
  "demo_reactor = \<lparr>
     rt = \<lparr>g_config = demo_config,
       heap = [7 \<mapsto> zero_port\<lparr>p_name := demo_name, p_type := PORT_TCP_CLIENT, p_fd := 5\<rparr>],
       g_port_table = [\<lparr>used = True, e_fd = 5, e_port = Some (Heap_port 7)\<rparr>, zero_port_entry]\<rparr>,
     epfd = 3, epoll = [5 \<mapsto> Heap_port 7], open_fds = {3, 5}\<rparr>"

lemma demo_config_ok: "config_ok demo_config"
  unfolding demo_config_def by (rule config_ok_load_config)

lemma demo_config_no_clients: "no_static_clients demo_config"
  by code_simp

lemma demo_reactor_inv: "reactor_inv demo_reactor"
  by (simp add: reactor_inv_def demo_reactor_def demo_config_no_clients watched_ok_def entries_ok_def
      zero_port_entry_def client_type_def nth_Cons')

lemma plugin_static_none [simp]: "plugin_get_handler nm plugin_static = None"
  by (simp add: plugin_get_handler_def plugin_static_def)

lemma plugin_static_ok: "handlers_ok plugin_static"
  by (auto simp: handlers_ok_def plugin_static_def)

text \<open>
  C4. The reactor thread never uses a freed port. From a state in which the watched
  descriptors, the port table and the allocated ports agree, whatever the system answers and
  whatever events \<open>epoll_wait\<close> reports, they agree again after every event; the next event of
  the batch is handled without an access to freed memory or outside a buffer, every message
  it queues is well formed, and no event queues more than 16. The port table the dispatcher
  thread searches holds no dangling pointer between two events. This rests on the
  configuration having no client ports, on plugin handlers that stay inside the buffer, and on
  the system handing out fresh descriptors and memory.
\<close>

theorem reactor_memory_safe:
  assumes "handlers_ok pt" and "config_ok (g_config (rt s0))" and "reactor_inv s0"
    and "reactor_reaches pt s0 s evs out"
  shows "reactor_inv s \<and> table_valid (rt s) \<and> list_all msg_ok out
    \<and> (case evs of [] \<Rightarrow> True
       | (d, ref) # rest \<Rightarrow> \<forall>w junk stack. io_fresh w s \<and> stack_ok junk stack \<longrightarrow>
           (\<exists>s' ms. handle_event pt junk stack ref w s = Some (s', ms) \<and> length ms \<le> 16 \<and> list_all msg_ok ms))"
proof -
  from reactor_reaches_inv [OF assms]
  have inv: "reactor_inv s" "config_ok (g_config (rt s))" "list_all msg_ok out"
    and evs: "list_all (\<lambda>(d, ref). epoll s d = Some ref) evs"
    using assms(2) by simp_all
  from handle_event_ok [OF assms(1) inv(2) _ inv(1)] evs reactor_inv_table [OF inv(1)] inv(1,3)
  show ?thesis by (auto split: list.split) blast
qed

theorem reactor_memory_safe_witness:
  "\<exists>s' ms. handle_event plugin_static zero_msg (replicate 1024 0) (Heap_port 7)
     \<lparr>io_accept = -1, io_calloc = Some 0, io_read = [1, 2]\<rparr> demo_reactor = Some (s', ms) \<and> length ms \<le> 16
     \<and> list_all msg_ok ms"
proof -
  have "reactor_reaches plugin_static demo_reactor demo_reactor [(5, Heap_port 7)] []"
    by (rule reactor_reaches.waited [OF reactor_reaches.started]) (simp_all add: demo_reactor_def MAX_EVENTS_def)
  from reactor_memory_safe [OF plugin_static_ok _ demo_reactor_inv this] demo_config_ok
  show ?thesis
    by (simp add: demo_reactor_def io_fresh_def stack_ok_def zero_msg_def MAX_DATA_def)
qed


text \<open>
  The ports and routes of the shipped \<^verbatim>\<open>out/config.json\<close> between which data flows.
\<close>

definition shipped_route :: "string \<Rightarrow> string \<Rightarrow> string \<Rightarrow> cjson" where
  "shipped_route src dst handler = CJObject
     [(bytes ''src'', CJString (bytes src)), (bytes ''dst'', CJString (bytes dst)),
      (bytes ''plugin'', CJString (bytes ''filter'')), (bytes ''handler'', CJString (bytes handler))]"

definition shipped_tree :: cjson where
  "shipped_tree = CJObject
     [(bytes ''ports'', CJArray
        [CJObject [(bytes ''name'', CJString (bytes ''UART1'')), (bytes ''type'', CJString (bytes ''tty'')),
           (bytes ''use_frame'', CJTrue),
           (bytes ''tty'', CJObject [(bytes ''path'', CJString (bytes ''/tmp/ttyV0'')),
             (bytes ''baudrate'', CJNumber 115200), (bytes ''databits'', CJNumber 8),
             (bytes ''stopbits'', CJNumber 1), (bytes ''parity'', CJNumber 0), (bytes ''flow'', CJNumber 0)])],
         CJObject [(bytes ''name'', CJString (bytes ''HOST_IPC'')), (bytes ''type'', CJString (bytes ''ipc'')),
           (bytes ''use_frame'', CJFalse),
           (bytes ''ipc'', CJObject [(bytes ''path'', CJString (bytes ''/tmp/test.sock''))])]]),
      (bytes ''routes'', CJArray
        [shipped_route ''UART1'' ''HOST_IPC'' ''filter.uart_to_usb'',
         shipped_route ''HOST_IPC'' ''UART1'' ''filter.usb_to_uart''])]"

definition shipped_config :: config where
  "shipped_config = snd (load_config (\<lambda>txt. Some shipped_tree) (Some []))"

definition filter_table :: "plugin_handler plugin_table" where
  "filter_table = fold (\<lambda>(p, h, f). plugin_register_handler p h f) filter_init plugin_static"

text \<open>What the examples need of it.\<close>

definition config_summary :: "config \<Rightarrow> (u8 list \<times> u8 list \<times> u8 list) list \<times> (u8 list \<times> port_type \<times> int) list \<times> bool" where
  "config_summary c =
     (map (\<lambda>r. (cstr (r_src r), cstr (r_dst r), cstr (r_handler r))) (take (route_count c) (routes c)),
      map (\<lambda>p. (cstr (p_name p), p_type p, p_fd p)) (take (port_count c) (ports c)), no_static_clients c)"

lemma shipped_summary:
  "config_summary shipped_config =
     ([(bytes ''UART1'', bytes ''HOST_IPC'', bytes ''filter.uart_to_usb''),
       (bytes ''HOST_IPC'', bytes ''UART1'', bytes ''filter.usb_to_uart'')],
      [(bytes ''UART1'', PORT_TTY, -1), (bytes ''HOST_IPC'', PORT_IPC_SERVER, -1)], True)"
  by code_simp

lemma config_ok_set_fd:
  assumes "config_ok c" and "i < length (ports c)"
  shows "config_ok (c\<lparr>ports := (ports c)[i := (ports c ! i)\<lparr>p_fd := d\<rparr>]\<rparr>)"
proof -
  have "port_ok (ports c ! i)" using assms by (simp add: config_ok_def)
  then have "port_ok ((ports c ! i)\<lparr>p_fd := d\<rparr>)" by (simp add: port_ok_def)
  with assms(1) show ?thesis by (auto simp: config_ok_def dest: in_set_updateD)
qed

text \<open>
  With the sample plugin loaded, UART1 on descriptor 5, and a client of the server HOST_IPC on
  descriptor 6.
\<close>

definition shipped_open :: config where
  "shipped_open = shipped_config\<lparr>ports := (ports shipped_config)[0 := (ports shipped_config ! 0)\<lparr>p_fd := 5\<rparr>]\<rparr>"

definition shipped_client :: port_def where
  "shipped_client = accepted_port PORT_IPC_CLIENT (p_name (ports shipped_config ! 1)) 6"

definition shipped_reactor :: reactor where
  "shipped_reactor = \<lparr>
     rt = \<lparr>g_config = shipped_open, heap = [7 \<mapsto> shipped_client],
       g_port_table = [\<lparr>used = True, e_fd = 5, e_port = Some (Cfg_port 0)\<rparr>,
                       \<lparr>used = True, e_fd = 6, e_port = Some (Heap_port 7)\<rparr>]\<rparr>,
     epfd = 3, epoll = [5 \<mapsto> Cfg_port 0, 6 \<mapsto> Heap_port 7], open_fds = {3, 5, 6}\<rparr>"

lemma shipped_config_ok: "config_ok shipped_config" "length (ports shipped_config) = 32"
proof -
  show ok: "config_ok shipped_config" unfolding shipped_config_def by (rule config_ok_load_config)
  then show "length (ports shipped_config) = 32" by (simp add: config_ok_def MAX_PORTS_def)
qed

lemma shipped_open_ok: "config_ok shipped_open"
  unfolding shipped_open_def by (rule config_ok_set_fd) (simp_all add: shipped_config_ok)

lemma shipped_ports:
  "cstr (p_name (ports shipped_config ! 0)) = bytes ''UART1''" "p_type (ports shipped_config ! 0) = PORT_TTY"
  "cstr (p_name (ports shipped_config ! 1)) = bytes ''HOST_IPC''" "p_type (ports shipped_config ! 1) = PORT_IPC_SERVER"
  "port_count shipped_config = 2"
proof -
  have ps: "map (\<lambda>p. (cstr (p_name p), p_type p, p_fd p)) (take (port_count shipped_config) (ports shipped_config)) =
      [(bytes ''UART1'', PORT_TTY, -1), (bytes ''HOST_IPC'', PORT_IPC_SERVER, -1)]"
    using shipped_summary by (simp add: config_summary_def)
  have "length (take (port_count shipped_config) (ports shipped_config)) = 2"
    using arg_cong [OF ps, of length] by (simp only: length_map list.size)
  with shipped_config_ok show n: "port_count shipped_config = 2" by (simp add: config_ok_def)
  from arg_cong [OF ps, of "\<lambda>l. l ! 0"] arg_cong [OF ps, of "\<lambda>l. l ! 1"]
  show "cstr (p_name (ports shipped_config ! 0)) = bytes ''UART1''" "p_type (ports shipped_config ! 0) = PORT_TTY"
    "cstr (p_name (ports shipped_config ! 1)) = bytes ''HOST_IPC''" "p_type (ports shipped_config ! 1) = PORT_IPC_SERVER"
    by (simp_all add: n shipped_config_ok)
qed

lemma shipped_routes:
  obtains up down where
    "\<And>nm. cstr nm = bytes ''UART1'' \<Longrightarrow> routes_of nm shipped_open = [up]"
    "cstr (r_dst up) = bytes ''HOST_IPC''" "cstr (r_handler up) = bytes ''filter.uart_to_usb''"
    "\<And>nm. cstr nm = bytes ''HOST_IPC'' \<Longrightarrow> routes_of nm shipped_open = [down]"
    "cstr (r_dst down) = bytes ''UART1''" "cstr (r_handler down) = bytes ''filter.usb_to_uart''"
proof -
  have "map (\<lambda>r. (cstr (r_src r), cstr (r_dst r), cstr (r_handler r)))
      (take (route_count shipped_config) (routes shipped_config)) =
     [(bytes ''UART1'', bytes ''HOST_IPC'', bytes ''filter.uart_to_usb''),
      (bytes ''HOST_IPC'', bytes ''UART1'', bytes ''filter.usb_to_uart'')]"
    using shipped_summary by (simp add: config_summary_def)
  then obtain up down where
    rs: "take (route_count shipped_config) (routes shipped_config) = [up, down]"
    and up: "cstr (r_src up) = bytes ''UART1''" "cstr (r_dst up) = bytes ''HOST_IPC''"
      "cstr (r_handler up) = bytes ''filter.uart_to_usb''"
    and down: "cstr (r_src down) = bytes ''HOST_IPC''" "cstr (r_dst down) = bytes ''UART1''"
      "cstr (r_handler down) = bytes ''filter.usb_to_uart''"
    by (auto simp: map_eq_Cons_conv)
  have ne: "bytes ''UART1'' \<noteq> bytes ''HOST_IPC''" by code_simp
  show thesis
    by (rule that [of up down]) (use up down ne in \<open>auto simp: routes_of_def shipped_open_def rs\<close>)
qed

lemma filter_lookup:
  "cstr nm = bytes ''filter.uart_to_usb'' \<Longrightarrow> plugin_get_handler nm filter_table = Some uart_to_usb"
  "cstr nm = bytes ''filter.usb_to_uart'' \<Longrightarrow> plugin_get_handler nm filter_table = Some usb_to_uart"
proof -
  have "map (\<lambda>(p, h, f). take 127 (handler_name p h)) filter_init =
      [bytes ''filter.usb_to_uart'', bytes ''filter.uart_to_usb'']"
    "bytes ''filter.usb_to_uart'' \<noteq> bytes ''filter.uart_to_usb''" by code_simp+
  then show "cstr nm = bytes ''filter.uart_to_usb'' \<Longrightarrow> plugin_get_handler nm filter_table = Some uart_to_usb"
    "cstr nm = bytes ''filter.usb_to_uart'' \<Longrightarrow> plugin_get_handler nm filter_table = Some usb_to_uart"
    using plugin_lookup [of nm filter_init] by (simp_all add: filter_table_def filter_init_def)
qed

lemma filter_ok: "handler_ok usb_to_uart" "handler_ok uart_to_usb"
  by (simp_all add: handler_ok_def upcase.data_handler_axioms framing.data_handler_axioms)

lemma handlers_ok_register:
  "handlers_ok pt \<Longrightarrow> handler_ok h \<Longrightarrow> handlers_ok (plugin_register_handler p n h pt)"
  by (auto simp: handlers_ok_def plugin_register_handler_def Let_def dest!: in_set_updateD)

lemma filter_table_ok: "handlers_ok filter_table"
  by (simp add: filter_table_def filter_init_def handlers_ok_register filter_ok plugin_static_ok)

lemma zero_stack_ok: "stack_ok zero_msg (replicate 1024 0)"
  by (simp add: stack_ok_def zero_msg_def MAX_DATA_def)

text \<open>What the two routes make of the bytes 1, 2 and of the letters \<open>ab\<close>.\<close>

lemma filter_forwards:
  "cstr (r_handler r) = bytes ''filter.uart_to_usb'' \<Longrightarrow>
     forwarded filter_table [r] (received [1, 2] (replicate 1024 0)) 2 = [(r_dst r, [0xAA, 1, 2])]"
  "cstr (r_handler r) = bytes ''filter.usb_to_uart'' \<Longrightarrow>
     forwarded filter_table [r] (received [97, 98] (replicate 1024 0)) 2 = [(r_dst r, [65, 66])]"
proof -
  have b: "received [x, y] (replicate 1024 0) = x # y # 0 # replicate 1021 0" for x y
    by (simp add: received_def)
  have l: "length (x # y # 0 # replicate 1021 (0::u8)) = MAX_DATA" for x y by (simp add: MAX_DATA_def)
  from filter_handlers [OF l, of 2] filter_lookup
  show "cstr (r_handler r) = bytes ''filter.uart_to_usb'' \<Longrightarrow>
     forwarded filter_table [r] (received [1, 2] (replicate 1024 0)) 2 = [(r_dst r, [0xAA, 1, 2])]"
  "cstr (r_handler r) = bytes ''filter.usb_to_uart'' \<Longrightarrow>
     forwarded filter_table [r] (received [97, 98] (replicate 1024 0)) 2 = [(r_dst r, [65, 66])]"
    by (simp_all add: b c_upper_def)
qed



text \<open>
  C34. The handlers of a source's routes share one buffer. When the handler of the first of two
  routes changes the data, the second route, which names no handler, forwards the changed
  bytes and not the bytes that were read; this holds even when the first handler drops its own
  message by returning a negative number.
\<close>

theorem handlers_share_buffer:
  assumes "stack_ok junk stack" and "config_ok c" and "j < length (routes c)" and "k < length (routes c)"
    and "plugin_get_handler (r_handler (routes c ! j)) pt = Some h"
    and "plugin_get_handler (r_handler (routes c ! k)) pt = None"
    and "h buf n = Some (m, changed)" and "m \<le> 1024" and "length changed = 1024" and "0 < n" and "n \<le> 1023"
  shows "\<exists>ms d. route_loop pt c junk [j, k] buf n = Some (ms @ [d], changed)
    \<and> length ms = (if m < 0 then 0 else 1) \<and> msg_dst d = r_dst (routes c ! k)
    \<and> msg_bytes d = take (nat n) changed"
proof -
  have dst: "length (r_dst (routes c ! i)) = 32" if "i < length (routes c)" for i
    using that assms(2) by (auto simp: config_ok_def route_ok_def dest: canon_length)
  have lens: "length (msg_dst junk) = 32" "length (msg_data junk) = 1024"
    using assms(1) by (simp_all add: stack_ok_def)
  have "nat n \<le> 1024" and "nat m \<le> 1024" using assms(8,11) by simp_all
  let ?d = "\<lparr>msg_dst = r_dst (routes c ! k), msg_len = n,
    msg_data = take (nat n) changed @ drop (nat n) (msg_data junk)\<rparr>"
  have one: "route_loop pt c junk [k] changed n = Some ([?d], changed)"
    using assms(4,6,9-11) dst lens by (simp add: mem_simps Let_def)
  have bytes: "msg_bytes ?d = take (nat n) changed"
    using assms(9,11) by (simp add: msg_bytes_def)
  show ?thesis
  proof (cases "m < 0")
    case True
    then have "route_loop pt c junk [j, k] buf n = Some ([] @ [?d], changed)"
      using assms(5,7,8) one unfolding route_loop.simps(2) [of pt c junk j "[k]" buf n]
      by (simp add: Let_def MAX_DATA_def del: route_loop.simps)
    with True bytes show ?thesis by (intro exI [of _ "[]"] exI [of _ ?d]) simp
  next
    case False
    let ?e = "\<lparr>msg_dst = r_dst (routes c ! j), msg_len = m,
      msg_data = take (nat m) changed @ drop (nat m) (msg_data junk)\<rparr>"
    from False have "route_loop pt c junk [j, k] buf n = Some ([?e] @ [?d], changed)"
      using assms(3,5,7-9) one dst lens unfolding route_loop.simps(2) [of pt c junk j "[k]" buf n]
      by (simp add: Let_def MAX_DATA_def mem_simps del: route_loop.simps)
    with False bytes show ?thesis by (intro exI [of _ "[?e]"] exI [of _ ?d]) simp
  qed
qed

definition demo_tree2 :: cjson where
  "demo_tree2 = CJObject
     [(bytes ''routes'', CJArray [
        CJObject [(bytes ''src'', CJString (bytes ''A'')), (bytes ''dst'', CJString (bytes ''B'')),
          (bytes ''handler'', CJString (bytes ''h''))],
        CJObject [(bytes ''src'', CJString (bytes ''A'')), (bytes ''dst'', CJString (bytes ''C''))]])]"

theorem handlers_share_buffer_witness:
  "\<exists>c pt ms d. route_loop pt c zero_msg [0, 1] (bytes ''ab'' @ replicate 1022 0) 2
       = Some (ms @ [d], bytes ''AB'' @ replicate 1022 0) \<and> msg_bytes d = bytes ''AB''"
proof -
  let ?c = "snd (load_config (\<lambda>txt. Some demo_tree2) (Some []))"
  let ?pt = "\<lparr>g_handlers = [\<lparr>full_name = bytes ''h'', func = Some usb_to_uart\<rparr>], g_handler_count = 1\<rparr>"
  have ok: "config_ok ?c" by (rule config_ok_load_config)
  then have len: "0 < length (routes ?c)" "1 < length (routes ?c)"
    by (simp_all add: config_ok_def MAX_ROUTES_def)
  have "strcmp_eq (bytes ''h'') (r_handler (routes ?c ! 0))" by code_simp
  then have h0: "plugin_get_handler (r_handler (routes ?c ! 0)) ?pt = Some usb_to_uart"
    by (simp add: plugin_get_handler_def)
  have "\<not> strcmp_eq (bytes ''h'') (r_handler (routes ?c ! 1))" by code_simp
  then have h1: "plugin_get_handler (r_handler (routes ?c ! 1)) ?pt = None"
    by (simp add: plugin_get_handler_def)
  have up: "usb_to_uart (bytes ''ab'' @ replicate 1022 0) 2 = Some (2, bytes ''AB'' @ replicate 1022 0)"
  proof -
    have "length (bytes ''ab'') = 2" and "map c_upper (bytes ''ab'') = bytes ''AB''" by code_simp+
    with upper_loop_eq [of 0 2 "bytes ''ab'' @ replicate 1022 0"] show ?thesis
      by (simp add: usb_to_uart_def)
  qed
  have stack: "stack_ok zero_msg (replicate 1024 0)" by (simp add: stack_ok_def zero_msg_def MAX_DATA_def)
  have two: "length (bytes ''AB'') = 2" by code_simp
  have "length (bytes ''AB'' @ replicate 1022 0) = 1024" by (simp add: two)
  from handlers_share_buffer [OF stack ok len h0 h1 up _ this] obtain ms d where
    "route_loop ?pt ?c zero_msg [0, 1] (bytes ''ab'' @ replicate 1022 0) 2
       = Some (ms @ [d], bytes ''AB'' @ replicate 1022 0)"
    "msg_bytes d = take (nat 2) (bytes ''AB'' @ replicate 1022 0)" by auto
  moreover from this(2) have "msg_bytes d = bytes ''AB''" by (simp add: two)
  ultimately show ?thesis by blast
qed

text \<open>
  C35. A TCP connection the configuration itself opens must not be closed by its peer: the port
  of such a connection has the type of an accepted client, so at end of file the reactor passes
  the address of the configuration's static array to \<open>free\<close>.
\<close>

theorem configured_client_close_frees_config:
  assumes "reactor_add_port (Cfg_port i) s = Some s'" and "deref (rt s) (Cfg_port i) = Some p"
    and "p_type p = PORT_TCP_CLIENT" and "0 \<le> p_fd p"
    and "\<exists>e \<in> set (g_port_table (rt s)). \<not> used e"
    and "\<forall>e \<in> set (g_port_table (rt s)). used e \<longrightarrow> e_fd e \<noteq> p_fd p"
    and "io_read w = []"
  shows "handle_event pt junk stack (Cfg_port i) w s' = None"
proof -
  let ?t = "g_port_table (rt s)" and ?e = "\<lparr>used = True, e_fd = p_fd p, e_port = Some (Cfg_port i)\<rparr>"
  obtain k where k: "find_index (\<lambda>e. \<not> used e) ?t = Some k"
    using assms(5) by (cases "find_index (\<lambda>e. \<not> used e) ?t") (auto simp: find_index_None)
  then have "k < length ?t" by (auto dest: find_index_SomeD)
  have s': "s' = s\<lparr>rt := (rt s)\<lparr>g_port_table := ?t[k := ?e]\<rparr>,
      epoll := epoll_add (epfd s) (p_fd p) (Cfg_port i) (epoll s)\<rparr>"
    using assms(1,2,4) k by (simp add: reactor_add_port_def Let_def)
  have "deref (rt s') (Cfg_port i) = Some p"
    using assms(2) by (simp add: s' split: if_splits)
  moreover obtain a where a: "find_index (\<lambda>e. used e \<and> e_fd e = p_fd p) (?t[k := ?e]) = Some a"
    using \<open>k < length ?t\<close>
    by (cases "find_index (\<lambda>e. used e \<and> e_fd e = p_fd p) (?t[k := ?e])")
      (auto simp: find_index_None set_update_memI dest!: bspec [OF _ set_update_memI [of k ?t ?e]])
  have "?t[k := ?e] ! a = ?e"
    using find_index_SomeD [OF a] assms(6) by (auto simp: nth_list_update_if split: if_splits)
  ultimately show ?thesis
    using a assms(3,7) by (simp add: handle_event_def close_port_def Let_def s')
qed

theorem configured_client_close_frees_config_witness:
  "\<exists>s s'. reactor_add_port (Cfg_port 0) s = Some s'
     \<and> handle_event plugin_static zero_msg [] (Cfg_port 0) \<lparr>io_accept = -1, io_calloc = Some 0, io_read = []\<rparr> s' = None"
proof -
  let ?p = "zero_port\<lparr>p_type := PORT_TCP_CLIENT, p_fd := 9\<rparr>"
  let ?s = "demo_reactor\<lparr>rt := (rt demo_reactor)\<lparr>g_config := demo_config\<lparr>ports := [?p]\<rparr>\<rparr>\<rparr>"
  obtain s' where s': "reactor_add_port (Cfg_port 0) ?s = Some s'"
    by (simp add: reactor_add_port_def demo_reactor_def Let_def)
  have "handle_event plugin_static zero_msg [] (Cfg_port 0) \<lparr>io_accept = -1, io_calloc = Some 0, io_read = []\<rparr> s' = None"
    by (rule configured_client_close_frees_config [OF s', of ?p])
      (simp_all add: demo_reactor_def zero_port_entry_def)
  with s' show ?thesis by blast
qed

end
