(* ===== verification/EzRouter.thy ===== *)
theory EzRouter
  imports RunState Log IpcServer Supervisor Reactor
begin

text \<open>
  The daemon: \<^verbatim>\<open>routerd/src/ez_router.c\<close>. Start-up composes the components in the order of
  \<open>main\<close>; the dispatcher thread and the supervision loop are functions of what they observe
  one after the other. Log lines are left out.
\<close>

section \<open>Start-up\<close>

text \<open>The arguments after the program's name.\<close>

fun parse_args :: "u8 list list \<Rightarrow> int \<times> log_level \<Rightarrow> int \<times> log_level" where
  "parse_args [] (enable_log, level) = (enable_log, level)"
| "parse_args (a # as) (enable_log, level) =
     (if strcmp_eq a (bytes ''-log'') then parse_args as (1, LOG_LEVEL_INFO)
      else if strcmp_eq a (bytes ''-debug'') then parse_args as (1, LOG_LEVEL_DEBUG)
      else if strcmp_eq a (bytes ''-quiet'') then parse_args as (0, level)
      else parse_args as (enable_log, level))"

record daemon =
  dm_run :: run_state
  dm_log :: log_state
  dm_registry :: registry
  dm_supervisor :: supervisor
  dm_plugins :: "plugin_handler plugin_table"
  dm_ipc_fd :: int
  dm_reactor :: reactor
  dm_queue :: event_queue

text \<open>The process before \<open>main\<close>, with the descriptors it inherited.\<close>

definition daemon_static :: "int set \<Rightarrow> daemon" where
  "daemon_static fds = \<lparr>dm_run = run_state_static, dm_log = log_static, dm_registry = registry_static,
     dm_supervisor = supervisor_static, dm_plugins = plugin_static, dm_ipc_fd = -1,
     dm_reactor = \<lparr>rt = \<lparr>g_config = clear_config, heap = Map.empty,
       g_port_table = replicate MAX_PORTS zero_port_entry\<rparr>, epfd = -1, epoll = Map.empty, open_fds = fds\<rparr>,
     dm_queue = queue_static\<rparr>"

text \<open>What the world answers during start-up.\<close>

record world =
  w_epoll :: int
  w_ipc_socket :: int
  w_ipc_bind :: "u8 list \<Rightarrow> int"
  w_parser :: json_parser
  w_file :: "u8 list option"
  w_dlopen :: "cbuf \<Rightarrow> plugin_handler registration list option"
  w_os :: "nat \<Rightarrow> os"

text \<open>The loops over the plugins and the ports of the configuration.\<close>

definition load_plugins ::
    "(cbuf \<Rightarrow> plugin_handler registration list option) \<Rightarrow> config \<Rightarrow> plugin_handler plugin_table \<Rightarrow>
       plugin_handler plugin_table" where
  "load_plugins dlopen c pt =
     fold (\<lambda>p pt. snd (plugin_load dlopen (pl_path p) pt)) (take (plugin_count c) (plugins c)) pt"

fun add_ports :: "nat list \<Rightarrow> reactor \<Rightarrow> reactor option" where
  "add_ports [] s = Some s"
| "add_ports (i # is) s = do { s \<leftarrow> reactor_add_port (Cfg_port i) s; add_ports is s }"

definition init_modules :: "u8 list list \<Rightarrow> world \<Rightarrow> daemon \<Rightarrow> daemon" where
  "init_modules argv w d =
     (let (enable_log, level) = parse_args (tl argv) (0, LOG_LEVEL_INFO);
          s = reactor_init (w_epoll w) (dm_reactor d);
          (rc, ipc_fd, fds) = ipc_server_init (w_ipc_socket w) (w_ipc_bind w)
            (bytes ''/run/ez_router/ez_router.sock'') (dm_ipc_fd d) (open_fds s)
      in d\<lparr>dm_run := run_state_init (dm_run d), dm_log := log_init enable_log level (dm_log d),
           dm_registry := registry_init (dm_registry d), dm_supervisor := supervisor_init (dm_supervisor d),
           dm_ipc_fd := ipc_fd, dm_reactor := s\<lparr>open_fds := fds\<rparr>\<rparr>)"

definition restore :: "world \<Rightarrow> daemon \<Rightarrow> daemon option" where
  "restore w d =
     (let (rc, c) = load_config (w_parser w) (w_file w); s = dm_reactor d
      in if rc = 0
         then let pt = load_plugins (w_dlopen w) c (dm_plugins d);
                  (c, fds) = ports_open_all (w_os w) c (open_fds s)
              in do {
                s \<leftarrow> add_ports [0..<port_count c] (s\<lparr>rt := (rt s)\<lparr>g_config := c\<rparr>, open_fds := fds\<rparr>);
                Some (d\<lparr>dm_plugins := pt, dm_reactor := s\<rparr>) }
         else Some (d\<lparr>dm_reactor := s\<lparr>rt := (rt s)\<lparr>g_config := c\<rparr>\<rparr>\<rparr>))"

definition startup :: "u8 list list \<Rightarrow> world \<Rightarrow> daemon \<Rightarrow> daemon option" where
  "startup argv w d = restore w (init_modules argv w d)"

section \<open>The threads\<close>

text \<open>
  The dispatcher thread, from one reading of the run flag to the next. It gives whether the
  thread has returned, the queue and the writes; \<open>False\<close> with readings left means that it
  waits inside \<open>queue_pop\<close>.
\<close>

fun dispatcher_thread ::
    "os_write \<Rightarrow> router \<Rightarrow> run_state list \<Rightarrow> event_queue \<Rightarrow> (bool \<times> event_queue \<times> writes) option" where
  "dispatcher_thread w s [] q = Some (False, q, [])"
| "dispatcher_thread w s (f # fs) q =
     (if \<not> run_state_is_running f then Some (True, q, [])
      else case queue_pop q of
             None \<Rightarrow> Some (False, q, [])
           | Some (msg, q) \<Rightarrow> do {
               out \<leftarrow> router_core_handle w s (Some msg);
               (done, q, out') \<leftarrow> dispatcher_thread w s fs q;
               Some (done, q, out @ out') })"

definition HB_TIMEOUT_MS :: u64 where "HB_TIMEOUT_MS = 5000"

text \<open>The loop of the main thread: the stale programs it reports at each check.\<close>

fun supervision_loop :: "(run_state \<times> timespec \<times> registry) list \<Rightarrow> nat list" where
  "supervision_loop [] = []"
| "supervision_loop ((f, ts, r) # obs) =
     (if run_state_is_running f then supervisor_check_heartbeats ts HB_TIMEOUT_MS r # supervision_loop obs
      else [])"


section \<open>Start-up gives a sound port table\<close>

lemma add_ports_ok:
  assumes "no_static_clients c"
  shows "reactor_inv s \<Longrightarrow> g_config (rt s) = c \<Longrightarrow> (\<forall>i \<in> set is. i < length (ports c)) \<Longrightarrow>
    distinct (map (\<lambda>i. p_fd (ports c ! i)) (filter (\<lambda>i. 0 \<le> p_fd (ports c ! i)) is)) \<Longrightarrow>
    (\<forall>i \<in> set is. 0 \<le> p_fd (ports c ! i) \<longrightarrow> p_fd (ports c ! i) \<in> open_fds s \<and> epoll s (p_fd (ports c ! i)) = None) \<Longrightarrow>
    \<exists>s'. add_ports is s = Some s' \<and> reactor_inv s' \<and> g_config (rt s') = c \<and> open_fds s' = open_fds s
      \<and> epfd s' = epfd s \<and> epoll s \<subseteq>\<^sub>m epoll s'
      \<and> (0 \<le> epfd s \<longrightarrow>
          (\<forall>i \<in> set is. 0 \<le> p_fd (ports c ! i) \<longrightarrow> epoll s' (p_fd (ports c ! i)) = Some (Cfg_port i)))"
proof (induction "is" arbitrary: s)
  case Nil
  then show ?case by simp
next
  case (Cons i js)
  let ?p = "ports c ! i"
  have d: "deref (rt s) (Cfg_port i) = Some ?p" using Cons.prems by simp
  have "?p \<in> set (ports c)" using Cons.prems(3) by simp
  then have t: "\<not> client_type (p_type ?p)" using assms by (simp add: no_static_clients_def list_all_iff)
  have free: "0 \<le> p_fd ?p \<longrightarrow> p_fd ?p \<in> open_fds s" "0 \<le> p_fd ?p \<longrightarrow> epoll s (p_fd ?p) = None"
    using Cons.prems(5) by simp_all
  from add_port_ok [OF Cons.prems(1) d free(2) _ free(1)] t obtain s1 where
    s1: "reactor_add_port (Cfg_port i) s = Some s1" "reactor_inv s1" "g_config (rt s1) = c"
      "open_fds s1 = open_fds s"
      "epoll s1 = (if p_fd ?p < 0 \<or> epfd s < 0 then epoll s else (epoll s)(p_fd ?p \<mapsto> Cfg_port i))"
      "epfd s1 = epfd s"
    using Cons.prems(2) by auto
  have le: "epoll s \<subseteq>\<^sub>m epoll s1" using free(2) by (auto simp: s1(5) map_le_def split: if_splits)
  have rest: "\<forall>k \<in> set js. 0 \<le> p_fd (ports c ! k) \<longrightarrow>
      p_fd (ports c ! k) \<in> open_fds s1 \<and> epoll s1 (p_fd (ports c ! k)) = None"
  proof clarify
    fix k assume k: "k \<in> set js" "0 \<le> p_fd (ports c ! k)"
    have "p_fd (ports c ! k) \<noteq> p_fd ?p" if "0 \<le> p_fd ?p"
      using Cons.prems(4) k that by (auto simp: image_def)
    with Cons.prems(5) k show "p_fd (ports c ! k) \<in> open_fds s1 \<and> epoll s1 (p_fd (ports c ! k)) = None"
      by (simp add: s1(4,5))
  qed
  have "distinct (map (\<lambda>i. p_fd (ports c ! i)) (filter (\<lambda>i. 0 \<le> p_fd (ports c ! i)) js))"
    using Cons.prems(4) by (simp split: if_splits)
  from Cons.IH [OF s1(2,3) _ this rest] Cons.prems(3) obtain s' where
    s': "add_ports js s1 = Some s'" "reactor_inv s'" "g_config (rt s') = c" "open_fds s' = open_fds s1"
      "epoll s1 \<subseteq>\<^sub>m epoll s'" "epfd s' = epfd s1"
      "0 \<le> epfd s1 \<longrightarrow>
        (\<forall>k \<in> set js. 0 \<le> p_fd (ports c ! k) \<longrightarrow> epoll s' (p_fd (ports c ! k)) = Some (Cfg_port k))"
    by auto
  have "epoll s' (p_fd ?p) = Some (Cfg_port i)" if "0 \<le> p_fd ?p" "0 \<le> epfd s"
    using s'(5) that by (auto simp: s1(5) map_le_def)
  with s1(1,4,6) s' le show ?case by (auto intro: map_le_trans)
qed

text \<open>Without the hypotheses: it goes through all ports, and watches nothing without \<open>epfd\<close>.\<close>

lemma add_ports_total:
  "\<forall>i \<in> set is. i < length (ports (g_config (rt s))) \<Longrightarrow>
    \<exists>s'. add_ports is s = Some s' \<and> g_config (rt s') = g_config (rt s) \<and> epfd s' = epfd s
      \<and> (epfd s < 0 \<longrightarrow> epoll s' = epoll s)"
proof (induction "is" arbitrary: s)
  case Nil
  then show ?case by simp
next
  case (Cons i js)
  then have "deref (rt s) (Cfg_port i) = Some (ports (g_config (rt s)) ! i)" by simp
  then have "\<exists>s1. reactor_add_port (Cfg_port i) s = Some s1 \<and> g_config (rt s1) = g_config (rt s)
    \<and> epfd s1 = epfd s \<and> (epfd s < 0 \<longrightarrow> epoll s1 = epoll s)"
    by (cases "p_fd (ports (g_config (rt s)) ! i) < 0")
      (simp_all add: reactor_add_port_def epoll_add_def Let_def)
  then obtain s1 where s1: "reactor_add_port (Cfg_port i) s = Some s1" "g_config (rt s1) = g_config (rt s)"
    "epfd s1 = epfd s" "epfd s < 0 \<longrightarrow> epoll s1 = epoll s" by blast
  with Cons.IH [of s1] Cons.prems show ?case by auto
qed

text \<open>Opening the ports changes descriptors only.\<close>

lemma no_fd_eqD:
  assumes "p\<lparr>p_fd := -1\<rparr> = q\<lparr>p_fd := -1\<rparr>"
  shows "p_name p = p_name q" "p_type p = p_type q" "p_cfg p = p_cfg q"
proof -
  show "p_name p = p_name q" using arg_cong [OF assms, of p_name] by simp
  show "p_type p = p_type q" using arg_cong [OF assms, of p_type] by simp
  show "p_cfg p = p_cfg q" using arg_cong [OF assms, of p_cfg] by simp
qed

lemma same_but_fd:
  assumes "map (\<lambda>p. p\<lparr>p_fd := -1\<rparr>) ps = map (\<lambda>p. p\<lparr>p_fd := -1\<rparr>) qs"
    and "\<And>p q. p_name p = p_name q \<Longrightarrow> p_type p = p_type q \<Longrightarrow> p_cfg p = p_cfg q \<Longrightarrow> P q \<Longrightarrow> P p"
    and "\<forall>q \<in> set qs. P (q :: port_def)"
  shows "\<forall>p \<in> set ps. P p"
proof
  fix p assume "p \<in> set ps"
  then have "p\<lparr>p_fd := -1\<rparr> \<in> set (map (\<lambda>p. p\<lparr>p_fd := -1\<rparr>) qs)" by (simp flip: assms(1))
  then obtain q where "q \<in> set qs" "p\<lparr>p_fd := -1\<rparr> = q\<lparr>p_fd := -1\<rparr>" by auto
  with assms(2) [OF no_fd_eqD [OF this(2)]] assms(3) show "P p" by blast
qed


lemma opened_any:
  assumes "ports_open_all w c fds = (c', fds')" and "config_ok c"
  shows "config_ok c' \<and> port_count c' = port_count c"
proof -
  let ?n = "port_count c"
  obtain ps where o: "open_ports w 0 (take ?n (ports c)) fds = (ps, fds')"
    and c': "c' = c\<lparr>ports := ps @ drop ?n (ports c)\<rparr>"
    using assms(1) by (auto simp: ports_open_all_def split: prod.splits)
  note same = open_ports_same [OF o]
  have n: "?n \<le> length (ports c)" using assms(2) by (simp add: config_ok_def)
  then have len: "length ps = ?n" using arg_cong [OF same, of length] by simp
  have "\<forall>p \<in> set (take ?n (ports c)). port_ok p"
    using assms(2) by (auto simp: config_ok_def dest: in_set_takeD)
  then have "\<forall>p \<in> set ps. port_ok p"
    by (rule same_but_fd [OF same, where P = port_ok, rotated]) (simp add: port_ok_def)
  then show ?thesis
    using assms(2) n len by (auto simp: config_ok_def c' dest: in_set_dropD)
qed

lemma opened_ports:
  assumes "\<And>i. os_fresh (w i)" and "config_ok c"
    and "list_all (\<lambda>p. p_fd p = -1 \<and> \<not> client_type (p_type p)) (take (port_count c) (ports c))"
    and "\<forall>p \<in> set (drop (port_count c) (ports c)). p = zero_port"
    and "ports_open_all w c fds = (c', fds')"
  shows "config_ok c' \<and> no_static_clients c' \<and> port_count c' = port_count c
    \<and> distinct (map (\<lambda>i. p_fd (ports c' ! i)) (filter (\<lambda>i. 0 \<le> p_fd (ports c' ! i)) [0..<port_count c]))
    \<and> (\<forall>i < port_count c. 0 \<le> p_fd (ports c' ! i) \<longrightarrow> p_fd (ports c' ! i) \<in> fds')
    \<and> plugins c' = plugins c \<and> plugin_count c' = plugin_count c
    \<and> routes c' = routes c \<and> route_count c' = route_count c"
proof -
  let ?n = "port_count c"
  obtain ps where o: "open_ports w 0 (take ?n (ports c)) fds = (ps, fds')"
    and c': "c' = c\<lparr>ports := ps @ drop ?n (ports c)\<rparr>"
    using assms(5) by (auto simp: ports_open_all_def split: prod.splits)
  have "\<forall>p \<in> set (take ?n (ports c)). p_fd p < 0" using assms(3) by (auto simp: list_all_iff)
  note e = open_ports_effect [OF assms(1) this o]
  have n: "?n \<le> length (ports c)" using assms(2) by (simp add: config_ok_def)
  then have len: "length ps = ?n" using e by simp
  have e_map: "map (\<lambda>p. p\<lparr>p_fd := -1\<rparr>) ps = map (\<lambda>p. p\<lparr>p_fd := -1\<rparr>) (take ?n (ports c))" using e by blast
  have "\<forall>p \<in> set (take ?n (ports c)). \<not> client_type (p_type p)"
    using assms(3) by (auto simp: list_all_iff)
  then have ty: "\<forall>p \<in> set ps. \<not> client_type (p_type p)"
    by (rule same_but_fd [OF e_map, where P = "\<lambda>p. \<not> client_type (p_type p)", rotated]) simp
  have "config_ok c'" using opened_any [OF assms(5,2)] by blast
  moreover have "no_static_clients c'"
    using ty assms(4) by (auto simp: no_static_clients_def c' list_all_iff client_type_def zero_port_def)
  moreover have nth: "ports c' ! i = ps ! i" if "i < ?n" for i
    using that len by (simp add: c' nth_append)
  moreover have "distinct (map (\<lambda>i. p_fd (ports c' ! i)) (filter (\<lambda>i. 0 \<le> p_fd (ports c' ! i)) [0..<?n]))"
  proof -
    have "map (\<lambda>i. p_fd (ports c' ! i)) (filter (\<lambda>i. 0 \<le> p_fd (ports c' ! i)) [0..<?n])
        = map (\<lambda>i. p_fd (ps ! i)) (filter (\<lambda>i. 0 \<le> p_fd (ps ! i)) [0..<length ps])"
      by (rule map_cong) (auto simp: len nth intro: filter_cong)
    also have "\<dots> = map p_fd (map (\<lambda>i. ps ! i) (filter (\<lambda>i. 0 \<le> p_fd (ps ! i)) [0..<length ps]))" by simp
    also have "\<dots> = map p_fd (filter (\<lambda>p. 0 \<le> p_fd p) ps)"
      by (simp only: map_nth_filter [where P = "\<lambda>p. 0 \<le> p_fd p"])
    finally show ?thesis using e by simp
  qed
  moreover have "p_fd (ps ! i) \<in> fds'" if "i < ?n" "0 \<le> p_fd (ps ! i)" for i
    using e that len by (auto simp: port_fds_def)
  ultimately show ?thesis by (simp add: c')
qed

section \<open>Plugins\<close>



lemma handlers_ok_registrations:
  "handlers_ok pt \<Longrightarrow> \<forall>(p, n, h) \<in> set regs. handler_ok h \<Longrightarrow>
     handlers_ok (fold (\<lambda>(p, h, f). plugin_register_handler p h f) regs pt)"
  by (induction regs arbitrary: pt) (auto simp: handlers_ok_register)

lemma handlers_ok_load:
  assumes "\<And>path regs. dlopen path = Some regs \<Longrightarrow> \<forall>(p, n, h) \<in> set regs. handler_ok h"
  shows "handlers_ok pt \<Longrightarrow> handlers_ok (snd (plugin_load dlopen path pt))"
  using handlers_ok_registrations assms by (simp add: plugin_load_def split: option.splits)

lemma handlers_ok_plugins:
  assumes "\<And>path regs. dlopen path = Some regs \<Longrightarrow> \<forall>(p, n, h) \<in> set regs. handler_ok h"
    and "handlers_ok pt"
  shows "handlers_ok (load_plugins dlopen c pt)"
proof -
  have step: "handlers_ok t \<Longrightarrow> handlers_ok (snd (plugin_load dlopen path t))" for path t
    by (rule handlers_ok_load) (use assms(1) in blast)
  have "handlers_ok (fold (\<lambda>p pt. snd (plugin_load dlopen (pl_path p) pt)) ps pt)" for ps
    using assms(2) by (induction ps arbitrary: pt) (simp_all add: step)
  then show ?thesis by (simp add: load_plugins_def)
qed


section \<open>Start-up as a whole\<close>

text \<open>
  What start-up relies on: fresh descriptors, plugins whose handlers stay inside their buffer,
  and a configuration file without client ports and without \<open>tty\<close> ports that lack their
  settings (whose descriptor would start at 0).
\<close>

definition world_ok :: "world \<Rightarrow> bool" where
  "world_ok w \<longleftrightarrow> (\<forall>i. os_fresh (w_os w i))
     \<and> (\<forall>path regs. w_dlopen w path = Some regs \<longrightarrow> (\<forall>(p, n, h) \<in> set regs. handler_ok h))
     \<and> (let c = snd (load_config (w_parser w) (w_file w)) in
          list_all (\<lambda>p. p_fd p = -1 \<and> \<not> client_type (p_type p)) (take (port_count c) (ports c)))"

definition daemon_ok :: "daemon \<Rightarrow> bool" where
  "daemon_ok d \<longleftrightarrow> run_state_is_running (dm_run d) \<and> handlers_ok (dm_plugins d)
     \<and> config_ok (g_config (rt (dm_reactor d))) \<and> reactor_inv (dm_reactor d)
     \<and> (0 \<le> epfd (dm_reactor d) \<longrightarrow> (\<forall>i < port_count (g_config (rt (dm_reactor d))).
          let p = ports (g_config (rt (dm_reactor d))) ! i
          in 0 \<le> p_fd p \<longrightarrow> epoll (dm_reactor d) (p_fd p) = Some (Cfg_port i)))
     \<and> ring_inv (dm_queue d) \<and> contents (dm_queue d) = [] \<and> g_drop_count (dm_queue d) = 0"

lemma failed_load: "load_config P f = (rc, c) \<Longrightarrow> rc \<noteq> 0 \<Longrightarrow> c = clear_config"
  by (auto simp: load_config_def split: option.splits)

lemma empty_table_inv:
  assumes "no_static_clients c" and "config_ok c"
  shows "reactor_inv \<lparr>rt = \<lparr>g_config = c, heap = h, g_port_table = replicate n zero_port_entry\<rparr>,
    epfd = ep, epoll = Map.empty, open_fds = fds\<rparr>"
  using assms by (auto simp: reactor_inv_def watched_ok_def entries_ok_def entries_static_def zero_port_entry_def)

lemma no_static_clients_clear: "no_static_clients clear_config"
  by (simp add: no_static_clients_def clear_config_def zero_port_def client_type_def list_all_iff)

lemma running_static: "run_state_is_running (run_state_init run_state_static)"
  using running_iff [of "[]"] by simp

lemma queue_static_empty: "ring_inv queue_static" "contents queue_static = []" "g_drop_count queue_static = 0"
proof -
  show "g_drop_count queue_static = 0" by (simp add: queue_static_def)
  show "ring_inv queue_static" by (rule ring_inv_static)
  show "contents queue_static = []" by (simp add: contents_def ring_count_def queue_static_def)
qed

lemma clear_count: "port_count clear_config = 0"
  by (simp add: clear_config_def)

lemma init_modules_static:
  "\<exists>fds'. dm_reactor (init_modules argv w (daemon_static fds)) =
     (dm_reactor (daemon_static fds))\<lparr>epfd := w_epoll w, open_fds := fds'\<rparr>"
  "dm_run (init_modules argv w d) = run_state_init (dm_run d)"
  "dm_plugins (init_modules argv w d) = dm_plugins d"
  "dm_queue (init_modules argv w d) = dm_queue d"
  by (auto simp: init_modules_def reactor_init_def Let_def split: prod.splits)

lemma init_modules_reactor:
  "\<exists>fds'. dm_reactor (init_modules argv w (daemon_static fds)) =
    \<lparr>rt = \<lparr>g_config = clear_config, heap = Map.empty, g_port_table = replicate MAX_PORTS zero_port_entry\<rparr>,
     epfd = w_epoll w, epoll = Map.empty, open_fds = fds'\<rparr>"
  using init_modules_static(1) [of argv w fds] by (auto simp: daemon_static_def)

text \<open>What start-up gives in any world.\<close>

lemma startup_any:
  "\<exists>d. startup argv w (daemon_static fds) = Some d \<and> run_state_is_running (dm_run d)
    \<and> config_ok (g_config (rt (dm_reactor d))) \<and> ring_inv (dm_queue d) \<and> contents (dm_queue d) = []
    \<and> g_drop_count (dm_queue d) = 0 \<and> epfd (dm_reactor d) = w_epoll w
    \<and> (w_epoll w < 0 \<longrightarrow> epoll (dm_reactor d) = Map.empty)"
proof -
  let ?d = "init_modules argv w (daemon_static fds)"
  obtain fds1 where r: "dm_reactor ?d = \<lparr>rt = \<lparr>g_config = clear_config, heap = Map.empty,
      g_port_table = replicate MAX_PORTS zero_port_entry\<rparr>, epfd = w_epoll w, epoll = Map.empty, open_fds = fds1\<rparr>"
    using init_modules_reactor by blast
  have d: "dm_run ?d = run_state_init run_state_static" "dm_queue ?d = queue_static"
    by (simp_all add: init_modules_static(2,4)) (simp_all add: daemon_static_def)
  obtain rc c where l: "load_config (w_parser w) (w_file w) = (rc, c)"
    by (cases "load_config (w_parser w) (w_file w)")
  have ok: "config_ok c" using config_ok_load_config [of "w_parser w" "w_file w"] by (simp add: l)
  obtain c' fds2 where o: "ports_open_all (w_os w) c fds1 = (c', fds2)"
    by (cases "ports_open_all (w_os w) c fds1")
  note c' = opened_any [OF o ok]
  let ?s = "\<lparr>rt = \<lparr>g_config = c', heap = Map.empty, g_port_table = replicate MAX_PORTS zero_port_entry\<rparr>,
    epfd = w_epoll w, epoll = Map.empty, open_fds = fds2\<rparr>"
  have "\<forall>i \<in> set [0..<port_count c]. i < length (ports (g_config (rt ?s)))"
    using c' by (simp add: config_ok_def)
  from add_ports_total [OF this] obtain s' where "add_ports [0..<port_count c] ?s = Some s'"
    "g_config (rt s') = c'" "epfd s' = w_epoll w" "w_epoll w < 0 \<longrightarrow> epoll s' = Map.empty" by auto
  with ok c' show ?thesis
    by (simp add: startup_def restore_def r d l o running_static queue_static_empty Let_def)
qed

lemma startup_daemon_ok:
  assumes "world_ok w"
  shows "\<exists>d. startup argv w (daemon_static fds) = Some d \<and> daemon_ok d"
proof -
  let ?d = "init_modules argv w (daemon_static fds)"
  obtain fds1 where r: "dm_reactor ?d = \<lparr>rt = \<lparr>g_config = clear_config, heap = Map.empty,
      g_port_table = replicate MAX_PORTS zero_port_entry\<rparr>, epfd = w_epoll w, epoll = Map.empty, open_fds = fds1\<rparr>"
    using init_modules_reactor by blast
  have d: "dm_run ?d = run_state_init run_state_static" "dm_plugins ?d = plugin_static" "dm_queue ?d = queue_static"
    by (simp_all add: init_modules_static(2-4)) (simp_all add: daemon_static_def)
  obtain rc c where l: "load_config (w_parser w) (w_file w) = (rc, c)"
    by (cases "load_config (w_parser w) (w_file w)")
  have ok: "config_ok c" using config_ok_load_config [of "w_parser w" "w_file w"] by (simp add: l)

  show ?thesis
  proof (cases "rc = 0")
    case False
    then have "c = clear_config" by (rule failed_load [OF l])
    with False show ?thesis
      using empty_table_inv [OF no_static_clients_clear config_ok_clear, of _ _ "w_epoll w"]
        config_ok_clear plugin_static_ok
      by (simp add: startup_def restore_def r d l daemon_ok_def running_static queue_static_empty clear_count)
  next
    case True
    obtain c' fds2 where o: "ports_open_all (w_os w) c fds1 = (c', fds2)"
      by (cases "ports_open_all (w_os w) c fds1")
    have fresh: "\<And>i. os_fresh (w_os w i)" and ports: "list_all (\<lambda>p. p_fd p = -1 \<and> \<not> client_type (p_type p))
        (take (port_count c) (ports c))"
      using assms by (simp_all add: world_ok_def l Let_def)
    have "\<forall>p \<in> set (drop (port_count c) (ports c)). p = zero_port"
      using loaded_unused [of "w_parser w" "w_file w" c] by (simp add: l)
    from opened_ports [OF fresh ok ports this o] have c':
      "config_ok c'" "no_static_clients c'" "port_count c' = port_count c"
      "distinct (map (\<lambda>i. p_fd (ports c' ! i)) (filter (\<lambda>i. 0 \<le> p_fd (ports c' ! i)) [0..<port_count c]))"
      "\<forall>i < port_count c. 0 \<le> p_fd (ports c' ! i) \<longrightarrow> p_fd (ports c' ! i) \<in> fds2" by blast+
    let ?s = "\<lparr>rt = \<lparr>g_config = c', heap = Map.empty, g_port_table = replicate MAX_PORTS zero_port_entry\<rparr>,
      epfd = w_epoll w, epoll = Map.empty, open_fds = fds2\<rparr>"
    have "\<forall>i \<in> set [0..<port_count c]. i < length (ports c')"
      using c'(1,3) by (simp add: config_ok_def)
    from add_ports_ok [OF c'(2) empty_table_inv [OF c'(2,1), of Map.empty MAX_PORTS "w_epoll w" fds2] _ this c'(4)] c'(5)
    obtain s' where s': "add_ports [0..<port_count c] ?s = Some s'" "reactor_inv s'" "g_config (rt s') = c'"
      "epfd s' = w_epoll w"
      "0 \<le> w_epoll w \<longrightarrow> (\<forall>i \<in> set [0..<port_count c].
        0 \<le> p_fd (ports c' ! i) \<longrightarrow> epoll s' (p_fd (ports c' ! i)) = Some (Cfg_port i))"
      by auto
    have "handlers_ok (load_plugins (w_dlopen w) c plugin_static)"
      by (rule handlers_ok_plugins [OF _ plugin_static_ok]) (use assms in \<open>auto simp: world_ok_def\<close>)
    with True s' c' show ?thesis
      by (simp add: startup_def restore_def r d l o daemon_ok_def running_static queue_static_empty Let_def)
  qed
qed


section \<open>The dispatcher thread\<close>

abbreviation delivered :: "router \<Rightarrow> event_msg list \<Rightarrow> writes" where
  "delivered s ms \<equiv> concat (map (\<lambda>m. delivery s (msg_dst m) (msg_bytes m)) ms)"

lemma dispatcher_runs:
  assumes "table_valid s"
  shows "ring_inv q \<Longrightarrow> list_all msg_ok (contents q) \<Longrightarrow> list_all run_state_is_running fs \<Longrightarrow>
    \<not> run_state_is_running f \<Longrightarrow>
    \<exists>q'. dispatcher_thread w s (fs @ f # gs) q =
        Some (length fs \<le> length (contents q), q', delivered s (take (length fs) (contents q)))
      \<and> ring_inv q' \<and> contents q' = drop (length fs) (contents q)"
proof (induction fs arbitrary: q)
  case Nil
  then show ?case by simp
next
  case (Cons g fs)
  show ?case
  proof (cases "contents q")
    case Nil
    with Cons.prems event_fifo.deq_empty [of q] show ?thesis by simp
  next
    case (Cons m ms)
    from event_fifo.deq_nonempty [OF Cons.prems(1) this] obtain q1 where
      q1: "queue_pop q = Some (m, q1)" "ring_inv q1" "contents q1 = ms" by blast
    have ok: "msg_ok m" "list_all msg_ok (contents q1)" using Cons.prems(2) Cons q1(3) by simp_all
    from Cons.IH [OF q1(2) ok(2)] Cons.prems(3,4) obtain q' where
      "dispatcher_thread w s (fs @ f # gs) q1 =
        Some (length fs \<le> length ms, q', delivered s (take (length fs) ms))"
      "ring_inv q'" "contents q' = drop (length fs) ms" by (auto simp: q1(3))
    with Cons.prems(3) q1(1) Cons show ?thesis
      by (simp add: router_core_handle_eq [OF assms ok(1)])
  qed
qed

lemma dispatcher_empties:
  assumes "table_valid s"
  shows "ring_inv q \<Longrightarrow> list_all msg_ok (contents q) \<Longrightarrow> list_all run_state_is_running fs \<Longrightarrow>
    length (contents q) \<le> length fs \<Longrightarrow>
    \<exists>q'. dispatcher_thread w s fs q = Some (False, q', delivered s (contents q)) \<and> contents q' = []"
proof (induction fs arbitrary: q)
  case Nil
  then show ?case by (simp del: length_contents)
next
  case (Cons g fs)
  show ?case
  proof (cases "contents q")
    case Nil
    with Cons.prems event_fifo.deq_empty [of q] show ?thesis by simp
  next
    case (Cons m ms)
    from event_fifo.deq_nonempty [OF Cons.prems(1) this] obtain q1 where
      q1: "queue_pop q = Some (m, q1)" "ring_inv q1" "contents q1 = ms" by blast
    have ok: "msg_ok m" "list_all msg_ok (contents q1)" using Cons.prems(2) Cons q1(3) by simp_all
    from Cons.IH [OF q1(2) ok(2)] Cons.prems(3,4) Cons q1(3) obtain q' where
      "dispatcher_thread w s fs q1 = Some (False, q', delivered s ms)" "contents q' = []" by auto
    with Cons.prems(3) q1(1) Cons show ?thesis
      by (simp add: router_core_handle_eq [OF assms ok(1)])
  qed
qed

section \<open>Properties\<close>


definition demo_world :: world where
  "demo_world = \<lparr>w_epoll = 3, w_ipc_socket = 4, w_ipc_bind = (\<lambda>p. 0), w_parser = (\<lambda>txt. Some demo_tree),
     w_file = Some [], w_dlopen = (\<lambda>path. Some filter_init),
     w_os = (\<lambda>i. \<lparr>os_open = (\<lambda>fds path. -1), os_socket = (\<lambda>fds. if 5 \<in> fds then -1 else 5),
       os_tcgetattr = (\<lambda>d. None), os_tcsetattr = (\<lambda>d t. False), os_bind = (\<lambda>d a n. 0),
       os_listen = (\<lambda>d n. 0), os_connect = (\<lambda>d a n. -1)\<rparr>)\<rparr>"

lemma demo_world_ok: "world_ok demo_world"
proof -
  have "list_all (\<lambda>p. p_fd p = -1 \<and> \<not> client_type (p_type p)) (take (port_count demo_config) (ports demo_config))"
    by code_simp
  then show ?thesis
    by (auto simp: world_ok_def demo_world_def os_fresh_def filter_init_def filter_ok Let_def demo_config_def)
qed


text \<open>
  From start-up on, the reactor and the dispatcher never touch freed memory: in every state
  the reactor thread of a started daemon reaches, the next reported event is handled, and every
  message queued so far can be handled by the dispatcher against the port table of that state.
\<close>

theorem daemon_memory_safe:
  assumes "world_ok w" and "startup argv w (daemon_static fds) = Some d"
    and "reactor_reaches (dm_plugins d) (dm_reactor d) s evs out"
  shows "(\<forall>m \<in> set out. router_core_handle wr (rt s) (Some m) \<noteq> None)
    \<and> (case evs of [] \<Rightarrow> True
       | (e, ref) # rest \<Rightarrow> \<forall>io junk stack. io_fresh io s \<and> stack_ok junk stack \<longrightarrow>
           handle_event (dm_plugins d) junk stack ref io s \<noteq> None)"
proof -
  have d: "handlers_ok (dm_plugins d)" "config_ok (g_config (rt (dm_reactor d)))" "reactor_inv (dm_reactor d)"
    using startup_daemon_ok [OF assms(1), of argv fds] assms(2) by (simp_all add: daemon_ok_def)
  from reactor_reaches_inv [OF d assms(3)] d(2)
  have s: "reactor_inv s" "config_ok (g_config (rt s))" "list_all msg_ok out"
    "list_all (\<lambda>(d, ref). epoll s d = Some ref) evs" by simp_all
  have "router_core_handle wr (rt s) (Some m) \<noteq> None" if "m \<in> set out" for m
    using router_core_handle_eq [OF reactor_inv_table [OF s(1)], of m] s(3) that by (auto simp: list_all_iff)
  moreover have "handle_event (dm_plugins d) junk stack ref io s \<noteq> None"
    if "evs = (e, ref) # rest" "io_fresh io s" "stack_ok junk stack" for e ref rest io junk stack
    using handle_event_ok [OF d(1) s(2) that(3) s(1) _ that(2), of e ref] s(4) that(1) by auto
  ultimately show ?thesis by (auto split: list.split)
qed

lemma demo_daemon:
  assumes "startup [] demo_world (daemon_static {0, 1, 2}) = Some d"
  shows "epoll (dm_reactor d) 5 = Some (Cfg_port 0)" "heap (rt (dm_reactor d)) 0 = None"
proof -
  have "map_option (\<lambda>d. (epoll (dm_reactor d) 5, heap (rt (dm_reactor d)) 0))
      (startup [] demo_world (daemon_static {0, 1, 2})) = Some (Some (Cfg_port 0), None)"
    by code_simp
  with assms show "epoll (dm_reactor d) 5 = Some (Cfg_port 0)" "heap (rt (dm_reactor d)) 0 = None" by simp_all
qed

theorem daemon_memory_safe_witness:
  "\<exists>d. startup [] demo_world (daemon_static {0, 1, 2}) = Some d
     \<and> handle_event (dm_plugins d) zero_msg (replicate 1024 0) (Cfg_port 0)
         \<lparr>io_accept = -1, io_calloc = Some 0, io_read = [1]\<rparr> (dm_reactor d) \<noteq> None"
proof -
  obtain d where d: "startup [] demo_world (daemon_static {0, 1, 2}) = Some d" "daemon_ok d"
    using startup_daemon_ok [OF demo_world_ok, of "[]" "{0, 1, 2}"] by blast
  note e = demo_daemon(1) [OF d(1)] and h = demo_daemon(2) [OF d(1)]
  have "reactor_reaches (dm_plugins d) (dm_reactor d) (dm_reactor d) [(5, Cfg_port 0)] []"
    by (rule reactor_reaches.waited [OF reactor_reaches.started]) (simp_all add: e MAX_EVENTS_def)
  from daemon_memory_safe [OF demo_world_ok d(1) this] d(1) h show ?thesis
    by (simp add: io_fresh_def stack_ok_def zero_msg_def MAX_DATA_def)
qed

text \<open>At most one write for each destination.\<close>

lemma delivery_once: "length (delivery s dst b) \<le> 1"
  by (simp add: delivery_def split: option.split)


text \<open>Two connected clients, A on descriptor 5 and B on descriptor 6.\<close>

definition demo_pair :: reactor where
  "demo_pair = \<lparr>
     rt = \<lparr>g_config = demo_config,
       heap = [7 \<mapsto> zero_port\<lparr>p_name := demo_name, p_type := PORT_TCP_CLIENT, p_fd := 5\<rparr>,
               8 \<mapsto> zero_port\<lparr>p_name := strncpy (replicate 32 0) (bytes ''B'') 31, p_type := PORT_TCP_CLIENT, p_fd := 6\<rparr>],
       g_port_table = [\<lparr>used = True, e_fd = 5, e_port = Some (Heap_port 7)\<rparr>,
                       \<lparr>used = True, e_fd = 6, e_port = Some (Heap_port 8)\<rparr>]\<rparr>,
     epfd = 3, epoll = [5 \<mapsto> Heap_port 7, 6 \<mapsto> Heap_port 8], open_fds = {3, 5, 6}\<rparr>"

lemma demo_pair_inv: "reactor_inv demo_pair"
  by (simp add: reactor_inv_def demo_pair_def demo_config_no_clients watched_ok_def entries_ok_def
      client_type_def nth_Cons')

lemma shipped_inv: "reactor_inv shipped_reactor"
proof -
  have c: "no_static_clients shipped_config" using shipped_summary by (simp add: config_summary_def)
  then have "no_static_clients shipped_open"
    using shipped_ports(2)
    by (auto simp: no_static_clients_def shipped_open_def client_type_def list_all_iff dest!: in_set_updateD)
  moreover have "deref (rt shipped_reactor) (Cfg_port 0) = Some ((ports shipped_config ! 0)\<lparr>p_fd := 5\<rparr>)"
    by (simp add: shipped_reactor_def shipped_open_def shipped_config_ok)
  then have "watched_ok (rt shipped_reactor) (epoll shipped_reactor)"
    using shipped_ports(2)
    by (auto simp: watched_ok_def shipped_reactor_def shipped_client_def accepted_port_def client_type_def
        split: if_splits)
  moreover have "entries_ok (g_port_table (rt shipped_reactor)) (epoll shipped_reactor)"
    by (simp add: entries_ok_def shipped_reactor_def nth_Cons')
  ultimately show ?thesis by (simp add: reactor_inv_def) (simp add: shipped_reactor_def)
qed

lemma shipped_delivery:
  assumes "cstr dst = bytes ''UART1''"
  shows "delivery (rt shipped_reactor) dst b = [(5, b)]"
  using shipped_ports(1,2) assms
  by (simp add: delivery_def shipped_reactor_def receiver_def strcmp_eq_def shipped_open_def shipped_config_ok)


text \<open>
  When the dispatcher thread ends. After \<open>k\<close> rounds in which it saw the run flag set, it
  returns at the cleared flag exactly if at least \<open>k\<close> messages were there to be handled; it
  has then handled the first \<open>k\<close>. Otherwise it has handled all there were and waits in
  \<open>queue_pop\<close>, whatever the flag is: a SIGTERM that arrives while the queue is empty does not
  end it.
\<close>

theorem dispatcher_stops:
  assumes "table_valid s" and "ring_inv q" and "list_all msg_ok (contents q)"
    and "list_all run_state_is_running fs" and "\<not> run_state_is_running f"
  shows "\<exists>q'. dispatcher_thread w s (fs @ f # gs) q =
      Some (length fs \<le> length (contents q), q', delivered s (take (length fs) (contents q)))
    \<and> contents q' = drop (length fs) (contents q)"
  using dispatcher_runs [OF assms] by blast

theorem dispatcher_stops_witness:
  "\<exists>q'. dispatcher_thread (\<lambda>d b. 0) demo_router [run_state_static, run_state_stop run_state_static] queue_static
      = Some (False, q', []) \<and> contents q' = []"
proof -
  have f: "list_all run_state_is_running [run_state_static]" "\<not> run_state_is_running (run_state_stop run_state_static)"
    by (simp_all add: run_state_is_running_def run_state_static_def run_state_stop_def)
  have "list_all msg_ok (contents queue_static)"
    by (simp add: queue_static_empty(2))
  from dispatcher_stops [OF demo_router_valid queue_static_empty(1) this f, of "\<lambda>d b. 0" "[]"]
  show ?thesis by (simp add: queue_static_empty(2) del: length_contents)
qed


section \<open>The dispatcher and the reactor on one port\<close>

text \<open>What a client's end of file does to its memory.\<close>

lemma client_closed:
  assumes "reactor_inv s" and "e \<in> set (g_port_table (rt s))" and "used e"
    and "e_port e = Some (Heap_port a)" and "io_read io = []"
  shows "\<exists>s'. handle_event pt junk stack (Heap_port a) io s = Some (s', []) \<and> heap (rt s') a = None"
proof -
  let ?t = "g_port_table (rt s)" and ?d = "e_fd e"
  have "\<not> entries_static (g_config (rt s)) (open_fds s) ?t"
    using assms(2-4) by (auto simp: entries_static_def)
  with assms(1) have w: "watched_ok (rt s) (epoll s)" and t: "entries_ok ?t (epoll s)"
    by (simp_all add: reactor_inv_def split: if_splits)
  from t assms(2-4) have "epoll s ?d = Some (Heap_port a)" by (force simp: entries_ok_def)
  from watched_okD [OF w this] obtain p where p: "deref (rt s) (Heap_port a) = Some p" "p_fd p = ?d"
    "client_type (p_type p)" by auto
  obtain i where i: "i < length ?t" "?t ! i = e" using assms(2) by (auto simp: in_set_conv_nth)
  have uniq: "j = i" if "j < length ?t" "used (?t ! j) \<and> e_fd (?t ! j) = ?d" for j
    using t i that assms(3) by (auto simp: entries_ok_def)
  have f: "find_index (\<lambda>e. used e \<and> e_fd e = ?d) ?t = Some i"
    by (rule find_index_unique [OF i(1)]) (use i(2) assms(3) uniq in auto)
  have c: "p_type p = PORT_TCP_CLIENT \<or> p_type p = PORT_IPC_CLIENT"
    using p(3) by (simp add: client_type_def)
  then have "p_type p \<noteq> PORT_TCP_SERVER" "p_type p \<noteq> PORT_IPC_SERVER" by auto
  with p(1,2) c f i(2) assms(4,5) show ?thesis by (auto simp: handle_event_def close_port_def Let_def)
qed

text \<open>
  The port table is not enough to make the two threads safe. In any sound state, let the
  dispatcher be between its two calls: \<open>port_find\<close> has returned the port of a connected client.
  If the client closes now and the reactor handles this event, \<open>port_send\<close> uses the memory the
  reactor has freed. No lock is held from one call to the other.
\<close>

theorem dispatcher_reactor_race:
  assumes "reactor_inv s" and "port_find (Some nm) (rt s) = Some (Some (Heap_port a))" and "io_read io = []"
  shows "\<exists>s'. handle_event pt junk stack (Heap_port a) io s = Some (s', [])
    \<and> port_send wr (rt s') (Some (Heap_port a)) blk n = None"
proof -
  obtain e where e: "find (receiver (rt s) nm) (g_port_table (rt s)) = Some e" "e_port e = Some (Heap_port a)"
    using assms(2) port_find_eq [OF reactor_inv_table [OF assms(1)], of nm] by (auto split: option.splits)
  then have "e \<in> set (g_port_table (rt s))" "used e"
    by (auto simp: find_Some_iff receiver_def)
  from client_closed [OF assms(1) this e(2) assms(3)] show ?thesis
    by (fastforce simp: port_send_def)
qed

theorem dispatcher_reactor_race_witness:
  "\<exists>s'. handle_event plugin_static zero_msg [] (Heap_port 7)
       \<lparr>io_accept = -1, io_calloc = Some 0, io_read = []\<rparr> demo_pair = Some (s', [])
     \<and> port_send (\<lambda>d b. 0) (rt s') (Some (Heap_port 7)) [1, 2] 2 = None"
proof -
  have "port_find (Some demo_name) (rt demo_pair) = Some (Some (Heap_port 7))" by code_simp
  from dispatcher_reactor_race [OF demo_pair_inv this] show ?thesis by simp
qed

end
