(* ===== verification/Threads.thy ===== *)
theory Threads
  imports EzRouter
begin

text \<open>
  The threads of the daemon side by side: \<open>reactor_thread\<close> of \<^verbatim>\<open>routerd/src/reactor.c\<close>,
  \<open>dispatcher_thread\<close> of \<^verbatim>\<open>routerd/src/ez_router.c\<close> with \<open>router_core_handle\<close> and the loop of
  \<open>port_find\<close>, and \<open>main\<close> from the creation of the threads on, over the run flag, the event
  queue and the port table they share. A step is what a thread does between two looks at shared
  memory that another thread can change in a way that matters:

  \<^item> the reactor handles one event of \<open>epoll_wait\<close> in one step (its own writes to a table entry
    come in an order in which the dispatcher sees the entry either as before or as after), and
    each of the messages is pushed in a step of its own;
  \<^item> the dispatcher looks at one entry of the port table in one step, at the port the entry
    pointed to in the next, and sends in one more. No lock is held from one to the other;
  \<^item> the main thread makes one heartbeat check, or one attempt to join a thread.

  The IPC thread shares only the registry, behind its mutex (\<open>IpcServer\<close>); here it is a thread
  that can return once the run flag is clear.
\<close>

section \<open>The threads\<close>

text \<open>Where each thread is; messages and events still to do are the thread's local variables.\<close>

datatype reactor_pc =
    R_test
  | R_wait
  | R_events "(int \<times> port_ref) list"
  | R_push "event_msg list" "(int \<times> port_ref) list"
  | R_block event_msg "event_msg list" "(int \<times> port_ref) list"
  | R_done

datatype dispatcher_pc =
    D_test
  | D_pop
  | D_scan event_msg nat
  | D_check event_msg nat port_ref
  | D_send event_msg port_ref
  | D_done

datatype main_pc = M_loop | M_join_reactor | M_join_ipc | M_join_dispatcher | M_exit

text \<open>
  \<open>th_log\<close> records each call of \<open>port_send\<close>: the message, the port, and the writes; \<open>th_stale\<close>
  the stale programs each heartbeat check counted.
\<close>

record threads =
  th_run :: run_state
  th_reactor :: reactor
  th_rpc :: reactor_pc
  th_queue :: queue_sys
  th_dpc :: dispatcher_pc
  th_log :: "(event_msg \<times> port_def \<times> writes) list"
  th_mpc :: main_pc
  th_ipc_done :: bool
  th_stale :: "nat list"

text \<open>
  What the system answers the reactor: the events of \<open>epoll_wait\<close> (none when it is interrupted
  or fails), the answers while an event is handled with the stack memory found there, and
  whether a wait for room in the queue ended by its time-out.
\<close>

record answers =
  an_events :: "(int \<times> port_ref) list"
  an_io :: io
  an_junk :: event_msg
  an_stack :: "u8 list"
  an_timedout :: bool

definition reactor_step :: "plugin_handler plugin_table \<Rightarrow> answers \<Rightarrow> threads \<Rightarrow> threads option" where
  "reactor_step pt a s =
     (case th_rpc s of
        R_test \<Rightarrow> Some (s\<lparr>th_rpc := (if run_state_is_running (th_run s) then R_wait else R_done)\<rparr>)
      | R_wait \<Rightarrow> Some (s\<lparr>th_rpc := (if an_events a = [] then R_test else R_events (an_events a))\<rparr>)
      | R_events [] \<Rightarrow> Some (s\<lparr>th_rpc := R_test\<rparr>)
      | R_events ((d, ref) # evs) \<Rightarrow> do {
          (r, ms) \<leftarrow> handle_event pt (an_junk a) (an_stack a) ref (an_io a) (th_reactor s);
          Some (s\<lparr>th_reactor := r, th_rpc := R_push ms evs\<rparr>) }
      | R_push [] evs \<Rightarrow> Some (s\<lparr>th_rpc := R_events evs\<rparr>)
      | R_push (m # ms) evs \<Rightarrow>
          let q = th_queue s; res = queue_push m (ring q)
          in Some (s\<lparr>th_queue := push_outcome m res (q\<lparr>submitted := submitted q @ [m]\<rparr>),
               th_rpc := (if fst res = Waits then R_block m ms evs else R_push ms evs)\<rparr>)
      | R_block m ms evs \<Rightarrow>
          let q = th_queue s; res = queue_push_wake (an_timedout a) m (ring q)
          in Some (s\<lparr>th_queue := push_outcome m res (q\<lparr>waiting := []\<rparr>),
               th_rpc := (if fst res = Waits then R_block m ms evs else R_push ms evs)\<rparr>)
      | R_done \<Rightarrow> Some s)"

definition dispatcher_step :: "os_write \<Rightarrow> threads \<Rightarrow> threads option" where
  "dispatcher_step wr s =
     (let r = rt (th_reactor s); q = th_queue s
      in case th_dpc s of
           D_test \<Rightarrow> Some (s\<lparr>th_dpc := (if run_state_is_running (th_run s) then D_pop else D_done)\<rparr>)
         | D_pop \<Rightarrow>
             (case queue_pop (ring q) of
                None \<Rightarrow> Some s
              | Some (m, q') \<Rightarrow>
                  Some (s\<lparr>th_queue := q\<lparr>ring := q', popped := popped q @ [m]\<rparr>, th_dpc := D_scan m 0\<rparr>))
         | D_scan m i \<Rightarrow>
             if length (g_port_table r) \<le> i then Some (s\<lparr>th_dpc := D_test\<rparr>)
             else let e = g_port_table r ! i
                  in if \<not> used e then Some (s\<lparr>th_dpc := D_scan m (i + 1)\<rparr>)
                     else (case e_port e of
                             None \<Rightarrow> Some (s\<lparr>th_dpc := D_scan m (i + 1)\<rparr>)
                           | Some ref \<Rightarrow> Some (s\<lparr>th_dpc := D_check m i ref\<rparr>))
         | D_check m i ref \<Rightarrow> do {
             p \<leftarrow> deref r ref;
             Some (s\<lparr>th_dpc :=
               (if strcmp_eq (p_name p) (msg_dst m) \<and> p_type p \<noteq> PORT_TCP_SERVER \<and> p_type p \<noteq> PORT_IPC_SERVER
                then D_send m ref else D_scan m (i + 1))\<rparr>) }
         | D_send m ref \<Rightarrow> do {
             p \<leftarrow> deref r ref;
             (rc, out) \<leftarrow> port_send wr r (Some ref) (msg_data m) (msg_len m);
             Some (s\<lparr>th_dpc := D_test, th_log := th_log s @ [(m, p, out)]\<rparr>) }
         | D_done \<Rightarrow> Some s)"

text \<open>The main thread, from the clock and the registry it finds.\<close>

definition main_step :: "timespec \<times> registry \<Rightarrow> threads \<Rightarrow> threads" where
  "main_step obs s =
     (case th_mpc s of
        M_loop \<Rightarrow>
          if run_state_is_running (th_run s)
          then s\<lparr>th_stale := th_stale s @ [supervisor_check_heartbeats (fst obs) HB_TIMEOUT_MS (snd obs)]\<rparr>
          else s\<lparr>th_mpc := M_join_reactor\<rparr>
      | M_join_reactor \<Rightarrow> if th_rpc s = R_done then s\<lparr>th_mpc := M_join_ipc\<rparr> else s
      | M_join_ipc \<Rightarrow> if th_ipc_done s then s\<lparr>th_mpc := M_join_dispatcher\<rparr> else s
      | M_join_dispatcher \<Rightarrow> if th_dpc s = D_done then s\<lparr>th_mpc := M_exit\<rparr> else s
      | M_exit \<Rightarrow> s)"

text \<open>The threads as \<open>main\<close> creates them.\<close>

definition threads_start :: "daemon \<Rightarrow> threads" where
  "threads_start d = \<lparr>th_run = dm_run d, th_reactor = dm_reactor d, th_rpc = R_test,
     th_queue = \<lparr>ring = dm_queue d, waiting = [], submitted = [], stored = [], dropped = [], popped = []\<rparr>,
     th_dpc = D_test, th_log = [], th_mpc = M_loop, th_ipc_done = False, th_stale = []\<rparr>"

text \<open>
  Any order of steps, with signals in between. \<open>ok\<close> says which answers of the system are
  considered in a state.
\<close>

inductive threads_reach ::
    "plugin_handler plugin_table \<Rightarrow> os_write \<Rightarrow> (answers \<Rightarrow> threads \<Rightarrow> bool) \<Rightarrow> threads \<Rightarrow> threads \<Rightarrow> bool"
  for pt wr ok s0 where
  start: "threads_reach pt wr ok s0 s0"
| flag: "threads_reach pt wr ok s0 s \<Longrightarrow> threads_reach pt wr ok s0 (s\<lparr>th_run := run_event_step e (th_run s)\<rparr>)"
| reactor: "threads_reach pt wr ok s0 s \<Longrightarrow> ok a s \<Longrightarrow> reactor_step pt a s = Some s' \<Longrightarrow>
    threads_reach pt wr ok s0 s'"
| dispatcher: "threads_reach pt wr ok s0 s \<Longrightarrow> dispatcher_step wr s = Some s' \<Longrightarrow> threads_reach pt wr ok s0 s'"
| main: "threads_reach pt wr ok s0 s \<Longrightarrow> threads_reach pt wr ok s0 (main_step obs s)"
| ipc_returns: "threads_reach pt wr ok s0 s \<Longrightarrow> \<not> run_state_is_running (th_run s) \<Longrightarrow>
    threads_reach pt wr ok s0 (s\<lparr>th_ipc_done := True\<rparr>)"

text \<open>A given order of steps, each with the answers it gets.\<close>

datatype move = Reactor_move answers | Dispatcher_move

fun sched_run ::
    "plugin_handler plugin_table \<Rightarrow> os_write \<Rightarrow> (answers \<Rightarrow> threads \<Rightarrow> bool) \<Rightarrow> move list \<Rightarrow> threads \<Rightarrow>
       threads option" where
  "sched_run pt wr ok [] s = Some s"
| "sched_run pt wr ok (Reactor_move a # moves) s =
     (if ok a s then do { s \<leftarrow> reactor_step pt a s; sched_run pt wr ok moves s } else None)"
| "sched_run pt wr ok (Dispatcher_move # moves) s =
     do { s \<leftarrow> dispatcher_step wr s; sched_run pt wr ok moves s }"

lemma sched_run_reach:
  "threads_reach pt wr ok s0 s \<Longrightarrow> sched_run pt wr ok moves s = Some s' \<Longrightarrow> threads_reach pt wr ok s0 s'"
proof (induction pt wr ok moves s rule: sched_run.induct)
  case (2 pt wr ok a moves s)
  then obtain t where "ok a s" "reactor_step pt a s = Some t" "sched_run pt wr ok moves t = Some s'"
    by (auto split: if_splits bind_splits)
  with 2 show ?case by (blast intro: threads_reach.reactor)
next
  case (3 pt wr ok moves s)
  then obtain t where "dispatcher_step wr s = Some t" "sched_run pt wr ok moves t = Some s'"
    by (auto split: bind_splits)
  with 3 show ?case by (blast intro: threads_reach.dispatcher)
qed simp

lemma sched_run_append:
  "sched_run pt wr ok (xs @ ys) s = Option.bind (sched_run pt wr ok xs s) (sched_run pt wr ok ys)"
proof (induction xs arbitrary: s)
  case (Cons x xs)
  then have "sched_run pt wr ok (xs @ ys) = (\<lambda>s. Option.bind (sched_run pt wr ok xs s) (sched_run pt wr ok ys))"
    by (intro ext)
  then show ?case by (cases x) simp_all
qed simp

lemma threads_reach_mono:
  assumes "threads_reach pt wr ok s0 s" and "\<And>a s. ok a s \<Longrightarrow> ok' a s"
  shows "threads_reach pt wr ok' s0 s"
  using assms(1) by (induction rule: threads_reach.induct) (auto intro: threads_reach.intros assms(2))

text \<open>Up to 16 watched descriptors, each once; fresh descriptors and memory.\<close>

definition answers_ok :: "answers \<Rightarrow> threads \<Rightarrow> bool" where
  "answers_ok a s \<longleftrightarrow> length (an_events a) \<le> MAX_EVENTS \<and> distinct (map fst (an_events a))
     \<and> list_all (\<lambda>(d, ref). epoll (th_reactor s) d = Some ref) (an_events a)
     \<and> io_fresh (an_io a) (th_reactor s) \<and> stack_ok (an_junk a) (an_stack a)"

text \<open>The pointer the dispatcher has read from the table and not yet done with.\<close>

fun held :: "dispatcher_pc \<Rightarrow> port_ref option" where
  "held (D_check m i ref) = Some ref"
| "held (D_send m ref) = Some ref"
| "held _ = None"

text \<open>No client closes while the dispatcher holds its port.\<close>

definition careful :: "answers \<Rightarrow> threads \<Rightarrow> bool" where
  "careful a s \<longleftrightarrow> answers_ok a s \<and>
     (case th_rpc s of
        R_events ((d, ref) # evs) \<Rightarrow> io_read (an_io a) \<noteq> [] \<or> held (th_dpc s) \<noteq> Some ref
      | _ \<Rightarrow> True)"


section \<open>What holds in every state\<close>

fun pending_events :: "reactor_pc \<Rightarrow> (int \<times> port_ref) list" where
  "pending_events (R_events evs) = evs"
| "pending_events (R_push ms evs) = evs"
| "pending_events (R_block m ms evs) = evs"
| "pending_events _ = []"

fun pending_msgs :: "reactor_pc \<Rightarrow> event_msg list" where
  "pending_msgs (R_push ms evs) = ms"
| "pending_msgs (R_block m ms evs) = m # ms"
| "pending_msgs _ = []"

fun blocked :: "reactor_pc \<Rightarrow> event_msg list" where
  "blocked (R_block m ms evs) = [m]"
| "blocked _ = []"

fun current :: "dispatcher_pc \<Rightarrow> event_msg list" where
  "current (D_scan m i) = [m]"
| "current (D_check m i ref) = [m]"
| "current (D_send m ref) = [m]"
| "current _ = []"

text \<open>The reactor's part, the queue's, and the dispatcher's.\<close>

definition reactor_side :: "config \<Rightarrow> threads \<Rightarrow> bool" where
  "reactor_side c s \<longleftrightarrow> reactor_inv (th_reactor s) \<and> g_config (rt (th_reactor s)) = c
     \<and> distinct (map fst (pending_events (th_rpc s)))
     \<and> list_all (\<lambda>(d, ref). epoll (th_reactor s) d = Some ref) (pending_events (th_rpc s))"

definition queue_side :: "threads \<Rightarrow> bool" where
  "queue_side s \<longleftrightarrow> sys_inv (th_queue s) \<and> waiting (th_queue s) = blocked (th_rpc s)
     \<and> list_all msg_ok (pending_msgs (th_rpc s)) \<and> list_all msg_ok (stored (th_queue s))"

definition dispatcher_side :: "threads \<Rightarrow> bool" where
  "dispatcher_side s \<longleftrightarrow> (\<forall>i. held (th_dpc s) = Some (Cfg_port i) \<longrightarrow> i < length (ports (g_config (rt (th_reactor s)))))
     \<and> subseq (map fst (th_log s) @ current (th_dpc s)) (popped (th_queue s))"

lemmas side_defs = reactor_side_def queue_side_def dispatcher_side_def

text \<open>The run flag and the main thread's own state are in none of them.\<close>

lemma main_step_same:
  "th_run (main_step obs s) = th_run s" "th_reactor (main_step obs s) = th_reactor s"
  "th_rpc (main_step obs s) = th_rpc s" "th_queue (main_step obs s) = th_queue s"
  "th_dpc (main_step obs s) = th_dpc s" "th_log (main_step obs s) = th_log s"
  "th_ipc_done (main_step obs s) = th_ipc_done s"
  by (simp_all add: main_step_def split: main_pc.split)

lemma side_other:
  assumes "th_reactor s' = th_reactor s" and "th_rpc s' = th_rpc s" and "th_queue s' = th_queue s"
    and "th_dpc s' = th_dpc s" and "th_log s' = th_log s"
  shows "reactor_side c s' = reactor_side c s" "queue_side s' = queue_side s" "dispatcher_side s' = dispatcher_side s"
  by (simp_all add: side_defs assms)

lemma queue_side_msgs:
  assumes "queue_side s"
  shows "list_all msg_ok (popped (th_queue s))" "list_all msg_ok (contents (ring (th_queue s)))"
  using assms by (auto simp: queue_side_def sys_inv_def)

lemma queue_side_pop:
  assumes "queue_side s" and "queue_pop (ring (th_queue s)) = Some (m, q')"
  shows "queue_side (s\<lparr>th_queue := (th_queue s)\<lparr>ring := q', popped := popped (th_queue s) @ [m]\<rparr>, th_dpc := pc\<rparr>)"
  using sys_inv_step [OF _ queue_step.pop [of "th_queue s", OF assms(2)]] assms(1)
  by (simp add: queue_side_def)

lemma push_outcome_lists:
  "waiting (push_outcome m res q) = (if fst res = Waits then waiting q @ [m] else waiting q)"
  "stored (push_outcome m res q) = (if fst res = Returned 0 then stored q @ [m] else stored q)"
  "popped (push_outcome m res q) = popped q"
  by (cases "(m, res, q)" rule: push_outcome.cases; simp)+

lemma queue_side_push:
  assumes "queue_side s" and "th_rpc s = R_push (m # ms) evs" and "reactor_step pt a s = Some s'"
  shows "queue_side s'"
proof -
  have "sys_inv (push_outcome m (queue_push m (ring (th_queue s)))
      ((th_queue s)\<lparr>submitted := submitted (th_queue s) @ [m]\<rparr>))"
    using sys_inv_step [OF _ queue_step.push [of "th_queue s" m]] assms(1) by (simp add: queue_side_def)
  with assms show ?thesis
    by (auto simp: reactor_step_def queue_side_def push_outcome_lists Let_def)
qed

lemma queue_side_wake:
  assumes "queue_side s" and "th_rpc s = R_block m ms evs" and "reactor_step pt a s = Some s'"
  shows "queue_side s'"
proof -
  have "waiting (th_queue s) = [] @ m # []" using assms(1,2) by (simp add: queue_side_def)
  from sys_inv_step [OF _ queue_step.wake [OF this, of "an_timedout a"]] assms(1)
  have "sys_inv (push_outcome m (queue_push_wake (an_timedout a) m (ring (th_queue s)))
      ((th_queue s)\<lparr>waiting := []\<rparr>))"
    by (simp add: queue_side_def)
  with assms show ?thesis
    by (auto simp: reactor_step_def queue_side_def push_outcome_lists Let_def)
qed

text \<open>One step of the reactor.\<close>

lemma reactor_step_event:
  assumes "handlers_ok pt" and "config_ok c" and "reactor_side c s" and "answers_ok a s"
    and "th_rpc s = R_events ((d, ref) # evs)"
  shows "\<exists>r ms. handle_event pt (an_junk a) (an_stack a) ref (an_io a) (th_reactor s) = Some (r, ms)
    \<and> reactor_step pt a s = Some (s\<lparr>th_reactor := r, th_rpc := R_push ms evs\<rparr>)
    \<and> reactor_side c (s\<lparr>th_reactor := r, th_rpc := R_push ms evs\<rparr>) \<and> list_all msg_ok ms"
proof -
  have pre: "config_ok (g_config (rt (th_reactor s)))" "stack_ok (an_junk a) (an_stack a)"
    "reactor_inv (th_reactor s)" "epoll (th_reactor s) d = Some ref" "io_fresh (an_io a) (th_reactor s)"
    using assms by (simp_all add: reactor_side_def answers_ok_def)
  from handle_event_ok [OF assms(1) pre] obtain r ms where
    r: "handle_event pt (an_junk a) (an_stack a) ref (an_io a) (th_reactor s) = Some (r, ms)" "reactor_inv r"
      "g_config (rt r) = g_config (rt (th_reactor s))" "list_all msg_ok ms"
      "(epoll (th_reactor s))(d := None) \<subseteq>\<^sub>m epoll r" by blast
  have "list_all (\<lambda>(d, ref). epoll r d = Some ref) evs"
    using map_le_pending [OF r(5)] assms(3,5) by (simp add: reactor_side_def)
  with r assms(3,5) show ?thesis by (auto simp: reactor_side_def reactor_step_def)
qed

lemma reactor_step_ok:
  assumes "handlers_ok pt" and "config_ok c" and "reactor_side c s" and "queue_side s" and "answers_ok a s"
  shows "\<exists>s'. reactor_step pt a s = Some s' \<and> reactor_side c s' \<and> queue_side s'
    \<and> th_dpc s' = th_dpc s \<and> th_log s' = th_log s \<and> popped (th_queue s') = popped (th_queue s)
    \<and> th_run s' = th_run s"
proof (cases "th_rpc s")
  case R_test
  with assms show ?thesis by (auto simp: reactor_step_def side_defs)
next
  case R_wait
  with assms show ?thesis by (auto simp: reactor_step_def side_defs answers_ok_def)
next
  case (R_events evs)
  show ?thesis
  proof (cases evs)
    case Nil
    with R_events assms show ?thesis by (auto simp: reactor_step_def side_defs)
  next
    case (Cons e rest)
    with R_events obtain d ref where "th_rpc s = R_events ((d, ref) # rest)" by (cases e) simp
    from reactor_step_event [OF assms(1-3,5) this] assms(4) this show ?thesis
      by (auto simp: queue_side_def)
  qed
next
  case (R_push ms evs)
  show ?thesis
  proof (cases ms)
    case Nil
    with R_push assms show ?thesis by (auto simp: reactor_step_def side_defs)
  next
    case (Cons m rest)
    with R_push have pc: "th_rpc s = R_push (m # rest) evs" by simp
    then obtain s' where s': "reactor_step pt a s = Some s'" by (simp add: reactor_step_def Let_def)
    from queue_side_push [OF assms(4) pc s'] s' pc assms(3) show ?thesis
      by (auto simp: reactor_step_def reactor_side_def Let_def push_outcome_lists)
  qed
next
  case (R_block m ms evs)
  then obtain s' where s': "reactor_step pt a s = Some s'" by (simp add: reactor_step_def Let_def)
  from queue_side_wake [OF assms(4) R_block s'] s' R_block assms(3) show ?thesis
    by (auto simp: reactor_step_def reactor_side_def Let_def push_outcome_lists)
next
  case R_done
  with assms show ?thesis by (auto simp: reactor_step_def)
qed


text \<open>One step of the dispatcher.\<close>

lemma port_send_live:
  assumes "table_valid r" and "deref r ref = Some p" and "write_arg blk n = Some b"
  shows "\<exists>rc out. port_send wr r (Some ref) blk n = Some (rc, out)
    \<and> (p_type p \<noteq> PORT_TCP_SERVER \<and> p_type p \<noteq> PORT_IPC_SERVER \<longrightarrow>
        out = (if p_fd p < 0 \<or> p_type p = PORT_UDP then [] else [(p_fd p, b)]))"
  using broadcast_loop_eq [OF assms(1) [unfolded table_valid_def] assms(3), of wr "p_name p" 0 0 "[]"] assms(2,3)
  by (auto simp: port_send_def port_send_tcp_server_broadcast_def Let_def split: port_type.splits)

lemma table_entry_live:
  assumes "table_valid r" and "i < length (g_port_table r)" and "used (g_port_table r ! i)"
    and "e_port (g_port_table r ! i) = Some ref"
  shows "\<exists>p. deref r ref = Some p"
  using assms nth_mem [OF assms(2)] by (fastforce simp: table_valid_def)

lemma current_msg_ok:
  assumes "queue_side s" and "dispatcher_side s" and "m \<in> set (current (th_dpc s))"
  shows "msg_ok m"
proof -
  have "subseq (map fst (th_log s) @ current (th_dpc s)) (popped (th_queue s))"
    using assms(2) by (simp add: dispatcher_side_def)
  from list_emb_set [OF this, of m] assms(3) have "m \<in> set (popped (th_queue s))" by auto
  with queue_side_msgs(1) [OF assms(1)] show ?thesis by (simp add: list_all_iff)
qed

lemma dispatcher_step_faults:
  assumes "reactor_side c s" and "queue_side s" and "dispatcher_side s"
  shows "dispatcher_step wr s = None \<longleftrightarrow>
    (\<exists>a. held (th_dpc s) = Some (Heap_port a) \<and> heap (rt (th_reactor s)) a = None)"
proof -
  have t: "table_valid (rt (th_reactor s))"
    using assms(1) by (simp add: reactor_side_def reactor_inv_table)
  have dangling: "deref (rt (th_reactor s)) ref = None \<longleftrightarrow> (\<exists>a. ref = Heap_port a \<and> heap (rt (th_reactor s)) a = None)"
    if "held (th_dpc s) = Some ref" for ref
    using that assms(3) by (cases ref) (auto simp: dispatcher_side_def)
  show ?thesis
  proof (cases "th_dpc s")
    case (D_check m i ref)
    with dangling [of ref] show ?thesis
      by (cases "deref (rt (th_reactor s)) ref") (auto simp: dispatcher_step_def Let_def)
  next
    case (D_send m ref)
    then have "msg_ok m" using current_msg_ok [OF assms(2,3)] by simp
    note b = msg_ok_write [OF this]
    from D_send dangling [of ref] port_send_live [OF t _ b, of ref _ wr] show ?thesis
      by (cases "deref (rt (th_reactor s)) ref") (fastforce simp: dispatcher_step_def Let_def)+
  qed (auto simp: dispatcher_step_def Let_def split: option.splits)
qed

text \<open>The address comes from the port table, which holds no dangling one.\<close>

lemma read_allocated:
  assumes "table_valid (rt (th_reactor s))" and "held (th_dpc s) = None" and "dispatcher_step wr s = Some s'"
    and "held (th_dpc s') = Some (Heap_port a)"
  shows "heap (rt (th_reactor s')) a \<noteq> None"
proof -
  let ?t = "g_port_table (rt (th_reactor s))"
  show ?thesis
  proof (cases "th_dpc s")
    case (D_scan m i)
    with assms(3,4) have i: "i < length ?t" "used (?t ! i)"
      by (auto simp: dispatcher_step_def Let_def split: if_splits)
    with D_scan assms(3,4) have "e_port (?t ! i) = Some (Heap_port a)" "th_reactor s' = th_reactor s"
      by (auto simp: dispatcher_step_def Let_def split: option.splits)
    with table_entry_live [OF assms(1) i] show ?thesis by auto
  qed (use assms(2-4) in \<open>auto simp: dispatcher_step_def Let_def split: if_splits option.splits\<close>)
qed

lemma dispatcher_side_pc:
  assumes "dispatcher_side s" and "current pc = current (th_dpc s) \<or> current pc = []"
    and "\<And>i. held pc = Some (Cfg_port i) \<Longrightarrow> i < length (ports (g_config (rt (th_reactor s))))"
  shows "dispatcher_side (s\<lparr>th_dpc := pc\<rparr>)"
proof -
  have "subseq (map fst (th_log s)) (popped (th_queue s))"
    by (rule subseq_order.trans [OF subseq_rev_drop_many [OF subseq_order.refl, of _ "current (th_dpc s)"]])
      (use assms(1) in \<open>simp add: dispatcher_side_def\<close>)
  with assms show ?thesis by (auto simp: dispatcher_side_def)
qed


lemma dispatcher_step_ok:
  assumes "reactor_side c s" and "queue_side s" and "dispatcher_side s" and "dispatcher_step wr s = Some s'"
  shows "queue_side s' \<and> dispatcher_side s' \<and> th_reactor s' = th_reactor s \<and> th_rpc s' = th_rpc s
    \<and> th_run s' = th_run s"
proof -
  have t: "table_valid (rt (th_reactor s))"
    using assms(1) by (simp add: reactor_side_def reactor_inv_table)
  have q: "queue_side (s\<lparr>th_dpc := pc\<rparr>)" for pc using assms(2) by (simp add: queue_side_def)
  note pcs = dispatcher_side_pc [OF assms(3)]
  show ?thesis
  proof (cases "th_dpc s")
    case D_pop
    then show ?thesis
    proof (cases "queue_pop (ring (th_queue s))")
      case (Some mq)
      obtain m q' where mq: "mq = (m, q')" by (cases mq)
      from assms(4) have s': "s' = s\<lparr>th_queue := (th_queue s)\<lparr>ring := q', popped := popped (th_queue s) @ [m]\<rparr>,
          th_dpc := D_scan m 0\<rparr>"
        by (simp add: dispatcher_step_def Let_def D_pop Some mq)
      have "queue_side s'" using queue_side_pop [OF assms(2)] Some mq by (simp add: s')
      moreover have "dispatcher_side s'"
        using assms(3) D_pop by (auto simp: dispatcher_side_def s')
      ultimately show ?thesis by (simp add: s')
    qed (use assms in \<open>simp add: dispatcher_step_def Let_def\<close>)
  next
    case (D_scan m i)
    with assms(4) q table_entry_live [OF t, of i] show ?thesis
      by (auto simp: dispatcher_step_def Let_def not_le intro!: pcs split: if_splits option.splits)
  next
    case (D_check m i ref)
    with assms(3,4) q show ?thesis
      by (auto simp: dispatcher_step_def Let_def dispatcher_side_def intro!: pcs split: bind_splits if_splits)
  next
    case (D_send m ref)
    with assms(2-4) show ?thesis
      by (auto simp: dispatcher_step_def Let_def side_defs split: bind_splits)
  qed (use assms(2-4) q in \<open>auto simp: dispatcher_step_def Let_def intro!: pcs split: if_splits\<close>)
qed

text \<open>The steps of the other threads leave the main thread alone.\<close>

lemma reactor_step_main:
  "reactor_step pt a s = Some s' \<Longrightarrow> th_mpc s' = th_mpc s \<and> th_run s' = th_run s
    \<and> th_ipc_done s' = th_ipc_done s \<and> th_dpc s' = th_dpc s"
  by (auto simp: reactor_step_def Let_def split: reactor_pc.splits list.splits bind_splits)

lemma reactor_step_done: "reactor_step pt a s = Some s' \<Longrightarrow> th_rpc s = R_done \<Longrightarrow> th_rpc s' = R_done"
  by (simp add: reactor_step_def)

lemma dispatcher_step_main:
  "dispatcher_step wr s = Some s' \<Longrightarrow> th_mpc s' = th_mpc s \<and> th_run s' = th_run s
    \<and> th_ipc_done s' = th_ipc_done s \<and> th_rpc s' = th_rpc s \<and> (th_dpc s = D_done \<longrightarrow> th_dpc s' = D_done)"
  by (auto simp: dispatcher_step_def Let_def split: dispatcher_pc.splits option.splits if_splits bind_splits)

text \<open>Every reachable state.\<close>

definition threads_inv :: "config \<Rightarrow> threads \<Rightarrow> bool" where
  "threads_inv c s \<longleftrightarrow> reactor_side c s \<and> queue_side s \<and> dispatcher_side s"

lemma threads_inv_same:
  assumes "th_reactor s' = th_reactor s" and "th_rpc s' = th_rpc s" and "th_queue s' = th_queue s"
    and "th_dpc s' = th_dpc s" and "th_log s' = th_log s"
  shows "threads_inv c s' = threads_inv c s"
  using side_other [OF assms] by (simp add: threads_inv_def)

lemma threads_inv_other:
  "threads_inv c (s\<lparr>th_run := f\<rparr>) = threads_inv c s" "threads_inv c (main_step obs s) = threads_inv c s"
  "threads_inv c (s\<lparr>th_ipc_done := b\<rparr>) = threads_inv c s"
  by (rule threads_inv_same; simp add: main_step_same)+

lemma threads_inv_reactor:
  assumes "handlers_ok pt" and "config_ok c" and "threads_inv c s" and "answers_ok a s"
  shows "\<exists>s'. reactor_step pt a s = Some s' \<and> threads_inv c s' \<and> th_dpc s' = th_dpc s \<and> th_log s' = th_log s"
proof -
  from reactor_step_ok [OF assms(1,2) _ _ assms(4)] assms(3) obtain s' where
    s': "reactor_step pt a s = Some s'" "reactor_side c s'" "queue_side s'" "th_dpc s' = th_dpc s"
      "th_log s' = th_log s" "popped (th_queue s') = popped (th_queue s)" unfolding threads_inv_def by blast
  have "dispatcher_side s'"
    using s' assms(3) by (auto simp: threads_inv_def dispatcher_side_def reactor_side_def)
  with s' show ?thesis by (simp add: threads_inv_def)
qed

lemma threads_inv_dispatcher:
  assumes "threads_inv c s" and "dispatcher_step wr s = Some s'"
  shows "threads_inv c s'"
proof -
  from assms(1) have sides: "reactor_side c s" "queue_side s" "dispatcher_side s" by (simp_all add: threads_inv_def)
  from dispatcher_step_ok [OF sides assms(2)] sides(1) show ?thesis
    by (simp add: threads_inv_def reactor_side_def)
qed

lemma threads_reach_inv:
  assumes "handlers_ok pt" and "config_ok c" and "\<And>a s. ok a s \<Longrightarrow> answers_ok a s"
  shows "threads_reach pt wr ok s0 s \<Longrightarrow> threads_inv c s0 \<Longrightarrow> threads_inv c s"
proof (induction rule: threads_reach.induct)
  case (flag s e)
  then show ?case by (simp add: threads_inv_other)
next
  case (main s obs)
  then show ?case by (simp add: threads_inv_other)
next
  case (ipc_returns s)
  then show ?case by (simp add: threads_inv_other)
next
  case (reactor s a s')
  from threads_inv_reactor [OF assms(1,2) reactor.IH [OF reactor.prems] assms(3) [OF reactor.hyps(2)]] reactor.hyps(3)
  show ?case by auto
next
  case (dispatcher s s')
  then show ?case by (auto intro: threads_inv_dispatcher)
qed

lemma threads_start_inv:
  assumes "daemon_ok d"
  shows "threads_inv (g_config (rt (dm_reactor d))) (threads_start d)"
proof -
  from assms have "reactor_inv (dm_reactor d)" "ring_inv (dm_queue d)" "contents (dm_queue d) = []"
    "g_drop_count (dm_queue d) = 0"
    by (simp_all add: daemon_ok_def)
  then show ?thesis
    by (simp add: threads_inv_def threads_start_def side_defs sys_inv_def)
qed


lemma started:
  assumes "world_ok w" and "startup argv w (daemon_static fds) = Some d"
  shows "handlers_ok (dm_plugins d)" "config_ok (g_config (rt (dm_reactor d)))"
    "threads_inv (g_config (rt (dm_reactor d))) (threads_start d)"
proof -
  have "daemon_ok d" using startup_daemon_ok [OF assms(1), of argv fds] assms(2) by simp
  then show "handlers_ok (dm_plugins d)" "config_ok (g_config (rt (dm_reactor d)))"
    "threads_inv (g_config (rt (dm_reactor d))) (threads_start d)"
    by (simp_all add: daemon_ok_def threads_start_inv)
qed

section \<open>When no client closes under the dispatcher\<close>

text \<open>What an event leaves alone: every watched port but the one it closes.\<close>

lemma add_port_keeps:
  "reactor_add_port ref s = Some s' \<Longrightarrow> heap (rt s') = heap (rt s) \<and> g_config (rt s') = g_config (rt s)
    \<and> epoll s \<subseteq>\<^sub>m epoll s' \<and> open_fds s' = open_fds s"
  by (auto simp: reactor_add_port_def epoll_add_def Let_def map_le_def split: bind_splits if_splits)

lemma deref_keep:
  assumes "deref r ref = Some p" and "g_config r' = g_config r"
    and "\<And>a. ref = Heap_port a \<Longrightarrow> heap r' a = heap r a"
  shows "deref r' ref = Some p"
  using assms by (cases ref) (auto split: if_splits)

lemma accept_client_keeps:
  assumes "accept_client ty server w s = Some s'" and "io_fresh w s" and "deref (rt s) ref = Some p"
  shows "deref (rt s') ref = Some p \<and> epoll s \<subseteq>\<^sub>m epoll s'"
proof (cases "io_accept w < 0")
  case True
  with assms show ?thesis by (simp add: accept_client_def)
next
  case False
  with assms(2) obtain a where a: "io_calloc w = Some a" "heap (rt s) a = None"
    by (auto simp: io_fresh_def split: option.splits)
  from add_port_keeps [OF assms(1) [unfolded accept_client_def Let_def if_not_P [OF False] a(1) option.case]]
  have s': "heap (rt s') = (heap (rt s))(a \<mapsto> accepted_port ty (p_name server) (io_accept w))"
    "g_config (rt s') = g_config (rt s)" "epoll s \<subseteq>\<^sub>m epoll s'" by simp_all
  have "deref (rt s') ref = Some p"
    by (rule deref_keep [OF assms(3) s'(2)]) (use a(2) assms(3) in \<open>auto simp: s'(1)\<close>)
  with s'(3) show ?thesis by simp
qed

lemma close_port_keeps:
  assumes "close_port p s = Some s'" and "reactor_inv s" and "epoll s (p_fd p) = Some ref"
    and "deref (rt s) other = Some q" and "other \<noteq> ref"
  shows "deref (rt s') other = Some q \<and> epoll s' = (epoll s)(p_fd p := None)"
proof -
  let ?f = "find_index (\<lambda>e. used e \<and> e_fd e = p_fd p) (g_port_table (rt s))"
  have entry: "e_port (g_port_table (rt s) ! k) = Some ref" if "?f = Some k" for k
  proof -
    from find_index_SomeD [OF that] have k: "k < length (g_port_table (rt s))" "used (g_port_table (rt s) ! k)"
      "e_fd (g_port_table (rt s) ! k) = p_fd p" by simp_all
    have "entries_ok (g_port_table (rt s)) (epoll s)" by (rule reactor_inv_watching(2) [OF assms(2,3)])
    then have "\<exists>r. e_port (g_port_table (rt s) ! k) = Some r \<and> epoll s (e_fd (g_port_table (rt s) ! k)) = Some r"
      using nth_mem [OF k(1)] k(2) unfolding entries_ok_def by blast
    with assms(3) k(3) show ?thesis by simp
  qed
  have free: "deref r other = Some q" if "free_port (Some ref) (rt s) = Some r" for r
  proof (rule deref_keep [OF assms(4)])
    show "g_config r = g_config (rt s)" using that by (cases ref) (auto split: if_splits)
    fix a assume "other = Heap_port a"
    with that assms(5) show "heap r a = heap (rt s) a" by (cases ref) (auto split: if_splits)
  qed
  show ?thesis
  proof (cases ?f)
    case None
    with assms(1,4) show ?thesis by (auto simp: close_port_def Let_def)
  next
    case (Some k)
    with assms(1,4) entry [OF Some] free show ?thesis
      by (auto simp: close_port_def Let_def split: if_splits bind_splits)
  qed
qed

lemma handle_event_keeps:
  assumes "handle_event pt junk stack ref w s = Some (s', ms)" and "reactor_inv s" and "io_fresh w s"
    and "epoll s d = Some ref" and "io_read w \<noteq> [] \<or> other \<noteq> ref"
    and "epoll s e = Some other" and "deref (rt s) other = Some q"
  shows "deref (rt s') other = Some q \<and> epoll s' e = Some other"
proof -
  have w: "watched_ok (rt s) (epoll s)" using assms(2) by (simp add: reactor_inv_def)
  from watched_okD [OF w assms(4)] obtain p where p: "deref (rt s) ref = Some p" "p_fd p = d" by blast
  have mono: "epoll s' e = Some other" if "epoll s \<subseteq>\<^sub>m epoll s'"
    using that assms(6) by (metis domI map_le_def)
  have accept: "deref (rt s') other = Some q \<and> epoll s' e = Some other"
    if "accept_client ty p w s = Some s'" for ty
    using accept_client_keeps [OF that assms(3,7)] mono by simp
  have close: "deref (rt s') other = Some q \<and> epoll s' e = Some other"
    if "close_port p s = Some s'" "other \<noteq> ref"
    using close_port_keeps [OF that(1) assms(2) _ assms(7) that(2)] p(2) assms(4,6) that(2) by auto
  from assms(1,5-7) accept close p(1) show ?thesis
    by (auto simp: handle_event_def split: bind_splits if_splits)
qed

text \<open>A port in use: watched, or, without \<open>epfd\<close>, open.\<close>

definition port_live :: "reactor \<Rightarrow> port_ref \<Rightarrow> port_def \<Rightarrow> bool" where
  "port_live r ref p \<longleftrightarrow> deref (rt r) ref = Some p
     \<and> (if 0 \<le> epfd r then epoll r (p_fd p) = Some ref else p_fd p \<in> open_fds r)"

lemma live_open:
  assumes "reactor_inv r" and "port_live r ref p"
  shows "p_fd p \<in> open_fds r"
proof (cases "0 \<le> epfd r")
  case True
  with assms have "p_fd p \<in> dom (epoll r)" by (auto simp: port_live_def)
  with assms(1) show ?thesis by (auto simp: reactor_inv_def)
qed (use assms(2) in \<open>simp add: port_live_def\<close>)

definition held_live :: "threads \<Rightarrow> bool" where
  "held_live s \<longleftrightarrow> (\<forall>ref. held (th_dpc s) = Some ref \<longrightarrow>
     (\<exists>p. port_live (th_reactor s) ref p
        \<and> (case th_dpc s of
             D_send m _ \<Rightarrow> strcmp_eq (p_name p) (msg_dst m) \<and> p_type p \<noteq> PORT_TCP_SERVER \<and> p_type p \<noteq> PORT_IPC_SERVER
           | _ \<Rightarrow> True)))"

lemma reactor_step_reactor:
  assumes "reactor_step pt a s = Some s'"
  shows "th_reactor s' = th_reactor s \<or> (\<exists>d ref evs ms. th_rpc s = R_events ((d, ref) # evs)
    \<and> handle_event pt (an_junk a) (an_stack a) ref (an_io a) (th_reactor s) = Some (th_reactor s', ms))"
  using assms by (auto simp: reactor_step_def Let_def split: reactor_pc.splits list.splits bind_splits)


text \<open>What a call of \<open>port_send\<close> should be: the port has the destination's name, is no server, and
  gets one write of the message's bytes.\<close>

fun right_send :: "event_msg \<times> port_def \<times> writes \<Rightarrow> bool" where
  "right_send (m, p, out) \<longleftrightarrow> strcmp_eq (p_name p) (msg_dst m)
     \<and> p_type p \<noteq> PORT_TCP_SERVER \<and> p_type p \<noteq> PORT_IPC_SERVER
     \<and> out = (if p_fd p < 0 \<or> p_type p = PORT_UDP then [] else [(p_fd p, msg_bytes m)])"

lemma held_live_reactor:
  assumes "handlers_ok pt" and "config_ok c" and "threads_inv c s" and "careful a s"
    and "held_live s" and "reactor_step pt a s = Some s'"
  shows "held_live s'"
proof -
  have "answers_ok a s" using assms(4) by (simp add: careful_def)
  from threads_inv_reactor [OF assms(1-3) this] assms(6) have pc: "th_dpc s' = th_dpc s" by auto
  from reactor_step_reactor [OF assms(6)] show ?thesis
  proof (elim disjE exE conjE)
    assume "th_reactor s' = th_reactor s"
    with pc assms(5) show ?thesis by (simp add: held_live_def)
  next
    fix d ref evs ms
    assume ev: "th_rpc s = R_events ((d, ref) # evs)"
      "handle_event pt (an_junk a) (an_stack a) ref (an_io a) (th_reactor s) = Some (th_reactor s', ms)"
    have pre: "reactor_inv (th_reactor s)" "io_fresh (an_io a) (th_reactor s)" "epoll (th_reactor s) d = Some ref"
      using assms(3,4) ev(1) by (simp_all add: threads_inv_def reactor_side_def careful_def answers_ok_def)
    note on = reactor_inv_watching(1) [OF pre(1,3)]
    have inv': "reactor_inv (th_reactor s')"
      using threads_inv_reactor [OF assms(1-3) \<open>answers_ok a s\<close>] assms(6)
      by (auto simp: threads_inv_def reactor_side_def)
    have keeps: "port_live (th_reactor s') r p"
      if h: "held (th_dpc s) = Some r" "port_live (th_reactor s) r p" for r p
    proof -
      have "deref (rt (th_reactor s')) r = Some p \<and> epoll (th_reactor s') (p_fd p) = Some r"
        by (rule handle_event_keeps [OF ev(2) pre])
          (use assms(4) ev(1) h on in \<open>auto simp: careful_def port_live_def\<close>)
      with reactor_inv_watching(1) [OF inv'] show ?thesis by (auto simp: port_live_def)
    qed
    show ?thesis
      unfolding held_live_def pc using assms(5) keeps unfolding held_live_def by blast
  qed
qed

lemma table_entry_watched:
  assumes "reactor_inv s" and "i < length (g_port_table (rt s))" and "used (g_port_table (rt s) ! i)"
    and "e_port (g_port_table (rt s) ! i) = Some ref"
  shows "\<exists>p. port_live s ref p"
proof (cases "0 \<le> epfd s")
  case True
  let ?e = "g_port_table (rt s) ! i"
  have "entries_ok (g_port_table (rt s)) (epoll s)" and w: "watched_ok (rt s) (epoll s)"
    using assms(1) True by (simp_all add: reactor_inv_def)
  from this(1) have "epoll s (e_fd ?e) = Some ref"
    using nth_mem [OF assms(2)] assms(3,4) unfolding entries_ok_def by force
  from watched_okD [OF w this] this True show ?thesis by (auto simp: port_live_def)
next
  case False
  with assms(1) have "entries_static (g_config (rt s)) (open_fds s) (g_port_table (rt s))"
    by (simp add: reactor_inv_def)
  with nth_mem [OF assms(2)] assms(3,4) False show ?thesis
    by (force simp: entries_static_def port_live_def)
qed

lemma held_live_dispatcher:
  assumes "threads_inv c s" and "held_live s" and "dispatcher_step wr s = Some s'"
  shows "held_live s'"
proof -
  have inv: "reactor_inv (th_reactor s)" using assms(1) by (simp add: threads_inv_def reactor_side_def)
  show ?thesis
  proof (cases "th_dpc s")
    case (D_scan m i)
    with assms(3) table_entry_watched [OF inv, of i] show ?thesis
      by (auto simp: dispatcher_step_def Let_def held_live_def not_le split: if_splits option.splits)
  next
    case (D_check m i ref)
    with assms(2) obtain p where p: "port_live (th_reactor s) ref p" by (auto simp: held_live_def)
    then have "deref (rt (th_reactor s)) ref = Some p" by (simp add: port_live_def)
    with D_check assms(3) p show ?thesis
      by (auto simp: dispatcher_step_def Let_def held_live_def split: if_splits)
  qed (use assms(3) in \<open>auto simp: dispatcher_step_def Let_def held_live_def split: bind_splits if_splits option.splits\<close>)
qed

lemma right_send_step:
  assumes "threads_inv c s" and "held_live s" and "dispatcher_step wr s = Some s'"
    and "list_all right_send (th_log s)"
  shows "list_all right_send (th_log s')"
proof (cases "th_dpc s")
  case (D_send m ref)
  from assms(1) have sides: "reactor_side c s" "queue_side s" "dispatcher_side s" by (simp_all add: threads_inv_def)
  have "table_valid (rt (th_reactor s))" using sides(1) by (simp add: reactor_side_def reactor_inv_table)
  moreover obtain p where p: "deref (rt (th_reactor s)) ref = Some p" "strcmp_eq (p_name p) (msg_dst m)"
    "p_type p \<noteq> PORT_TCP_SERVER" "p_type p \<noteq> PORT_IPC_SERVER"
    using assms(2) D_send by (auto simp: held_live_def port_live_def)
  moreover have "msg_ok m" using current_msg_ok [OF sides(2,3)] D_send by simp
  ultimately obtain rc out where out: "port_send wr (rt (th_reactor s)) (Some ref) (msg_data m) (msg_len m) = Some (rc, out)"
    "out = (if p_fd p < 0 \<or> p_type p = PORT_UDP then [] else [(p_fd p, msg_bytes m)])"
    using port_send_live [of _ ref p, OF _ _ msg_ok_write] by blast
  have "th_log s' = th_log s @ [(m, p, out)]"
    using assms(3) D_send p(1) out(1) by (auto simp: dispatcher_step_def Let_def)
  with assms(4) p(2-4) out(2) show ?thesis by simp
qed (use assms(3,4) in \<open>auto simp: dispatcher_step_def Let_def split: bind_splits if_splits option.splits\<close>)

lemma careful_reach:
  assumes "handlers_ok pt" and "config_ok c"
  shows "threads_reach pt wr careful s0 s \<Longrightarrow> threads_inv c s0 \<Longrightarrow> held_live s0 \<Longrightarrow> th_log s0 = [] \<Longrightarrow>
    threads_inv c s \<and> held_live s \<and> list_all right_send (th_log s)"
proof (induction rule: threads_reach.induct)
  case (flag s e)
  then show ?case by (simp add: threads_inv_other held_live_def)
next
  case (main s obs)
  then show ?case by (simp add: threads_inv_other held_live_def main_step_same)
next
  case (ipc_returns s)
  then show ?case by (simp add: threads_inv_other held_live_def)
next
  case (reactor s a s')
  note IH = reactor.IH [OF reactor.prems]
  have "answers_ok a s" using reactor.hyps(2) by (simp add: careful_def)
  from threads_inv_reactor [OF assms conjunct1 [OF IH] this] reactor.hyps(3) IH
    held_live_reactor [OF assms _ reactor.hyps(2) _ reactor.hyps(3)]
  show ?case by auto
next
  case (dispatcher s s')
  note IH = dispatcher.IH [OF dispatcher.prems]
  from IH threads_inv_dispatcher held_live_dispatcher right_send_step dispatcher.hyps(2) show ?case by blast
qed simp


section \<open>The dispatcher on its own\<close>

primrec dispatcher_steps :: "os_write \<Rightarrow> nat \<Rightarrow> threads \<Rightarrow> threads option" where
  "dispatcher_steps wr 0 s = Some s"
| "dispatcher_steps wr (Suc k) s = do { s \<leftarrow> dispatcher_step wr s; dispatcher_steps wr k s }"

text \<open>Looking at the entries one by one is the loop of \<open>port_find\<close>.\<close>

definition scan_result :: "threads \<Rightarrow> event_msg \<Rightarrow> port_ref option option \<Rightarrow> threads option" where
  "scan_result s m res = (case res of
     None \<Rightarrow> None
   | Some None \<Rightarrow> Some (s\<lparr>th_dpc := D_test\<rparr>)
   | Some (Some ref) \<Rightarrow> Some (s\<lparr>th_dpc := D_send m ref\<rparr>))"

lemma dispatcher_steps_add:
  "dispatcher_steps wr (k + l) s = Option.bind (dispatcher_steps wr k s) (dispatcher_steps wr l)"
  by (induction k arbitrary: s) simp_all


lemma scan_entry:
  assumes "th_dpc s = D_scan m i" and "i < length (g_port_table (rt (th_reactor s)))"
    and "e = g_port_table (rt (th_reactor s)) ! i"
  shows "\<exists>k. dispatcher_steps wr k s =
    (if \<not> used e then Some (s\<lparr>th_dpc := D_scan m (Suc i)\<rparr>)
     else case e_port e of
       None \<Rightarrow> Some (s\<lparr>th_dpc := D_scan m (Suc i)\<rparr>)
     | Some ref \<Rightarrow> do {
         p \<leftarrow> deref (rt (th_reactor s)) ref;
         Some (s\<lparr>th_dpc :=
           (if strcmp_eq (p_name p) (msg_dst m) \<and> p_type p \<noteq> PORT_TCP_SERVER \<and> p_type p \<noteq> PORT_IPC_SERVER
            then D_send m ref else D_scan m (Suc i))\<rparr>) })"
proof (cases "used e \<and> e_port e \<noteq> None")
  case False
  with assms show ?thesis
    by (intro exI [of _ "Suc 0"]) (auto simp: dispatcher_step_def Let_def)
next
  case True
  then obtain ref where ref: "used e" "e_port e = Some ref" by auto
  let ?s = "s\<lparr>th_dpc := D_check m i ref\<rparr>"
  have "dispatcher_step wr s = Some ?s" using assms ref by (simp add: dispatcher_step_def Let_def)
  moreover have "dispatcher_step wr ?s = do {
      p \<leftarrow> deref (rt (th_reactor s)) ref;
      Some (s\<lparr>th_dpc :=
        (if strcmp_eq (p_name p) (msg_dst m) \<and> p_type p \<noteq> PORT_TCP_SERVER \<and> p_type p \<noteq> PORT_IPC_SERVER
         then D_send m ref else D_scan m (Suc i))\<rparr>) }"
    by (simp add: dispatcher_step_def Let_def cong: if_cong)
  ultimately show ?thesis using ref by (intro exI [of _ "Suc (Suc 0)"]) simp
qed

lemma scan_alone:
  assumes "length (g_port_table (rt (th_reactor s))) = n"
  shows "th_dpc s = D_scan m i \<Longrightarrow> \<exists>k. dispatcher_steps wr k s =
    scan_result s m (port_find_loop (rt (th_reactor s)) (msg_dst m) (drop i (g_port_table (rt (th_reactor s)))))"
  using assms
proof (induction "n - i" arbitrary: s i)
  case 0
  then have "dispatcher_steps wr (Suc 0) s = Some (s\<lparr>th_dpc := D_test\<rparr>)"
    by (simp add: dispatcher_step_def)
  then show ?case using 0 by (metis diff_is_0_eq drop_all option.simps(4,5) port_find_loop.simps(1) scan_result_def)
next
  case (Suc j)
  let ?r = "rt (th_reactor s)" and ?t = "g_port_table (rt (th_reactor s))"
  let ?e = "?t ! i" and ?next = "s\<lparr>th_dpc := D_scan m (Suc i)\<rparr>"
  have i: "i < length ?t" using Suc.hyps(2) Suc.prems(2) by simp
  then have d: "drop i ?t = ?e # drop (Suc i) ?t" by (simp add: Cons_nth_drop_Suc)
  have "j = n - Suc i" using Suc.hyps(2) by simp
  from Suc.hyps(1) [OF this, of ?next] Suc.prems(2) obtain l where
    l: "dispatcher_steps wr l ?next = scan_result s m (port_find_loop ?r (msg_dst m) (drop (Suc i) ?t))"
    by (auto simp: scan_result_def split: option.splits)
  have continue: ?case
    if "dispatcher_steps wr k s = Some ?next"
      and "port_find_loop ?r (msg_dst m) (drop i ?t) = port_find_loop ?r (msg_dst m) (drop (Suc i) ?t)" for k
    using that l by (intro exI [of _ "k + l"]) (simp only: dispatcher_steps_add bind.bind_lunit)
  have stop: ?case
    if "dispatcher_steps wr k s = scan_result s m (port_find_loop ?r (msg_dst m) (drop i ?t))" for k
    using that by blast
  from scan_entry [OF Suc.prems(1) i refl, of wr] continue stop show ?case
    unfolding d by (auto simp: scan_result_def split: option.splits if_splits bind_splits)
qed

text \<open>One message, from the entry it starts at to the next reading of the run flag.\<close>

lemma message_alone:
  assumes "table_valid (rt (th_reactor s))" and "msg_ok m" and "th_dpc s = D_scan m 0"
  shows "\<exists>k lg. dispatcher_steps wr k s = Some (s\<lparr>th_dpc := D_test, th_log := th_log s @ lg\<rparr>)
    \<and> concat (map (snd \<circ> snd) lg) = delivery (rt (th_reactor s)) (msg_dst m) (msg_bytes m)"
proof -
  let ?r = "rt (th_reactor s)"
  from router_core_handle_eq [OF assms(1,2), of wr]
  have h: "router_core_handle wr ?r (Some m) = Some (delivery ?r (msg_dst m) (msg_bytes m))" .
  from scan_alone [OF refl assms(3)] obtain k where
    k: "dispatcher_steps wr k s = scan_result s m (port_find (Some (msg_dst m)) ?r)"
    by (auto simp: port_find_def)
  show ?thesis
  proof (cases "port_find (Some (msg_dst m)) ?r")
    case None
    with h show ?thesis by (simp add: router_core_handle_def)
  next
    case (Some res)
    show ?thesis
    proof (cases res)
      case None
      with Some h k show ?thesis
        by (intro exI [of _ k] exI [of _ "[]"]) (simp add: router_core_handle_def scan_result_def)
    next
      case (Some ref)
      with \<open>port_find _ _ = Some res\<close> h obtain rc where
        send: "port_send wr ?r (Some ref) (msg_data m) (msg_len m) = Some (rc, delivery ?r (msg_dst m) (msg_bytes m))"
        by (auto simp: router_core_handle_def split: bind_splits)
      then obtain p where p: "deref ?r ref = Some p" by (cases "deref ?r ref") (auto simp: port_send_def)
      have "dispatcher_steps wr k s = Some (s\<lparr>th_dpc := D_send m ref\<rparr>)"
        using k Some \<open>port_find _ _ = Some res\<close> by (simp add: scan_result_def)
      then have "dispatcher_steps wr (k + 1) s = dispatcher_step wr (s\<lparr>th_dpc := D_send m ref\<rparr>)"
        by (simp only: dispatcher_steps_add bind.bind_lunit One_nat_def dispatcher_steps.simps bind_runit)
      with send p show ?thesis
        by (intro exI [of _ "k + 1"] exI [of _ "[(m, p, delivery ?r (msg_dst m) (msg_bytes m))]"])
          (simp add: dispatcher_step_def del: dispatcher_steps.simps)
    qed
  qed
qed

lemma drain_alone:
  assumes "table_valid (rt (th_reactor s))" and "run_state_is_running (th_run s)"
  shows "th_dpc s = D_test \<Longrightarrow> ring_inv (ring (th_queue s)) \<Longrightarrow> list_all msg_ok (contents (ring (th_queue s))) \<Longrightarrow>
    \<exists>k s' lg. dispatcher_steps wr k s = Some s' \<and> th_dpc s' = D_pop \<and> contents (ring (th_queue s')) = []
      \<and> popped (th_queue s') = popped (th_queue s) @ contents (ring (th_queue s))
      \<and> th_reactor s' = th_reactor s \<and> th_log s' = th_log s @ lg
      \<and> concat (map (snd \<circ> snd) lg) = delivered (rt (th_reactor s)) (contents (ring (th_queue s)))"
  using assms
proof (induction "contents (ring (th_queue s))" arbitrary: s)
  case Nil
  then show ?case
    by (intro exI [of _ "Suc 0"] exI [of _ "s\<lparr>th_dpc := D_pop\<rparr>"] exI [of _ "[]"]) (simp add: dispatcher_step_def)
next
  case (Cons m ms)
  let ?q = "th_queue s"
  from event_fifo.deq_nonempty [OF Cons.prems(2) Cons.hyps(2) [symmetric]] obtain q' where
    q': "queue_pop (ring ?q) = Some (m, q')" "ring_inv q'" "contents q' = ms" by blast
  let ?s1 = "s\<lparr>th_queue := ?q\<lparr>ring := q', popped := popped ?q @ [m]\<rparr>, th_dpc := D_scan m 0\<rparr>"
  have two: "dispatcher_steps wr 2 s = Some ?s1"
    using Cons.prems(1,5) q'(1) by (simp add: dispatcher_step_def numeral_2_eq_2 Let_def)
  have ok: "msg_ok m" "list_all msg_ok ms" using Cons.prems(3) by (simp_all flip: Cons.hyps(2))
  from message_alone [of ?s1 m wr] Cons.prems(4) ok(1) obtain k lg where
    k: "dispatcher_steps wr k ?s1 = Some (?s1\<lparr>th_dpc := D_test, th_log := th_log s @ lg\<rparr>)"
      "concat (map (snd \<circ> snd) lg) = delivery (rt (th_reactor s)) (msg_dst m) (msg_bytes m)" by auto
  let ?s2 = "?s1\<lparr>th_dpc := D_test, th_log := th_log s @ lg\<rparr>"
  from Cons.hyps(1) [of ?s2] q' ok(2) Cons.prems(4,5) obtain l s' lg' where
    l: "dispatcher_steps wr l ?s2 = Some s'" "th_dpc s' = D_pop" "contents (ring (th_queue s')) = []"
      "popped (th_queue s') = popped ?q @ m # ms" "th_reactor s' = th_reactor s"
      "th_log s' = th_log s @ lg @ lg'" "concat (map (snd \<circ> snd) lg') = delivered (rt (th_reactor s)) ms" by auto
  have "dispatcher_steps wr (2 + (k + l)) s = Some s'"
    using two k(1) l(1) by (simp only: dispatcher_steps_add bind.bind_lunit)
  with k(2) l(2-) show ?case
    by (intro exI [of _ "2 + (k + l)"] exI [of _ s'] exI [of _ "lg @ lg'"]) (simp flip: Cons.hyps(2))
qed


text \<open>From wherever it is in a message, with the port it holds still there.\<close>

lemma send_alone:
  assumes "table_valid (rt (th_reactor s))" and "msg_ok m" and "th_dpc s = D_send m ref"
    and "deref (rt (th_reactor s)) ref = Some p"
  shows "\<exists>out. dispatcher_step wr s = Some (s\<lparr>th_dpc := D_test, th_log := th_log s @ [(m, p, out)]\<rparr>)"
  using port_send_live [OF assms(1,4) msg_ok_write [OF assms(2)], of wr] assms(3,4)
  by (auto simp: dispatcher_step_def)

abbreviation finishes :: "os_write \<Rightarrow> event_msg \<Rightarrow> threads \<Rightarrow> bool" where
  "finishes wr m s \<equiv> \<exists>k lg. dispatcher_steps wr k s = Some (s\<lparr>th_dpc := D_test, th_log := th_log s @ lg\<rparr>)
    \<and> (map fst lg = [] \<or> map fst lg = [m])"

lemma finishes_after:
  assumes "dispatcher_steps wr k s = Some (s\<lparr>th_dpc := pc\<rparr>)" and "finishes wr m (s\<lparr>th_dpc := pc\<rparr>)"
  shows "finishes wr m s"
proof -
  from assms(2) obtain l lg where "dispatcher_steps wr l (s\<lparr>th_dpc := pc\<rparr>) =
      Some (s\<lparr>th_dpc := D_test, th_log := th_log s @ lg\<rparr>)" "map fst lg = [] \<or> map fst lg = [m]" by auto
  with assms(1) show ?thesis
    by (intro exI [of _ "k + l"] exI [of _ lg]) (simp only: dispatcher_steps_add bind.bind_lunit)
qed

lemma scan_finishes:
  assumes "table_valid (rt (th_reactor s))" and "msg_ok m" and "th_dpc s = D_scan m i"
  shows "finishes wr m s"
proof -
  let ?r = "rt (th_reactor s)"
  let ?es = "drop i (g_port_table ?r)"
  have v: "\<forall>e \<in> set ?es. used e \<longrightarrow> (case e_port e of None \<Rightarrow> True | Some r \<Rightarrow> deref ?r r \<noteq> None)"
    using assms(1) by (auto simp: table_valid_def dest: in_set_dropD)
  have loop: "port_find_loop ?r (msg_dst m) ?es =
      Some (case find (receiver ?r (msg_dst m)) ?es of None \<Rightarrow> None | Some e \<Rightarrow> e_port e)"
    by (rule port_find_loop_eq [OF v])
  from scan_alone [OF refl assms(3)] obtain k where
    k: "dispatcher_steps wr k s = scan_result s m (port_find_loop ?r (msg_dst m) ?es)" by blast
  show ?thesis
  proof (cases "find (receiver ?r (msg_dst m)) ?es")
    case None
    with k loop show ?thesis by (intro exI [of _ k] exI [of _ "[]"]) (simp add: scan_result_def)
  next
    case (Some e)
    then obtain ref p where e: "e_port e = Some ref" "deref ?r ref = Some p" by (rule receiver_entry)
    let ?s = "s\<lparr>th_dpc := D_send m ref\<rparr>"
    have "dispatcher_steps wr k s = Some ?s" using k loop Some e(1) by (simp add: scan_result_def)
    moreover have "finishes wr m ?s"
      using send_alone [of ?s m ref p wr] assms(1,2) e(2)
      by (auto intro!: exI [of _ "Suc 0"] simp del: dispatcher_steps.simps simp: dispatcher_steps.simps(1,2))
    ultimately show ?thesis by (rule finishes_after)
  qed
qed

lemma current_finishes:
  assumes "table_valid (rt (th_reactor s))" and "current (th_dpc s) = [m]" and "msg_ok m"
    and "\<And>ref. held (th_dpc s) = Some ref \<Longrightarrow> deref (rt (th_reactor s)) ref \<noteq> None"
  shows "finishes wr m s"
proof (cases "th_dpc s")
  case (D_scan n i)
  with assms(2) show ?thesis by (intro scan_finishes [OF assms(1,3), of i]) simp
next
  case (D_check n i ref)
  with assms(2,4) obtain p where p: "n = m" "deref (rt (th_reactor s)) ref = Some p" by auto
  let ?found = "strcmp_eq (p_name p) (msg_dst m) \<and> p_type p \<noteq> PORT_TCP_SERVER \<and> p_type p \<noteq> PORT_IPC_SERVER"
  have step: "dispatcher_steps wr 1 s = Some (s\<lparr>th_dpc := (if ?found then D_send m ref else D_scan m (i + 1))\<rparr>)"
    using D_check p by (simp add: dispatcher_step_def Let_def)
  have "finishes wr m (s\<lparr>th_dpc := D_scan m (i + 1)\<rparr>)" by (rule scan_finishes) (use assms(1,3) in simp_all)
  moreover have "finishes wr m (s\<lparr>th_dpc := D_send m ref\<rparr>)"
    using send_alone [of "s\<lparr>th_dpc := D_send m ref\<rparr>" m ref p wr] assms(1,3) p(2)
    by (auto intro!: exI [of _ "Suc 0"])
  ultimately show ?thesis by (intro finishes_after [OF step]) (auto split: if_splits)
next
  case (D_send n ref)
  with assms(2,4) obtain p where p: "n = m" "deref (rt (th_reactor s)) ref = Some p" by auto
  with send_alone [of s m ref p wr] assms(1,3) D_send show ?thesis by (auto intro!: exI [of _ "Suc 0"])
qed (use assms(2) in simp_all)

text \<open>Waiting in \<open>queue_pop\<close> is one step behind the loop test.\<close>

lemma drain_waiting:
  assumes "table_valid (rt (th_reactor s))" and "run_state_is_running (th_run s)"
    and "th_dpc s = D_test \<or> th_dpc s = D_pop" and "ring_inv (ring (th_queue s))"
    and "list_all msg_ok (contents (ring (th_queue s)))"
  shows "\<exists>k s' lg. dispatcher_steps wr k s = Some s' \<and> th_dpc s' = D_pop \<and> contents (ring (th_queue s')) = []
      \<and> popped (th_queue s') = popped (th_queue s) @ contents (ring (th_queue s))
      \<and> th_log s' = th_log s @ lg
      \<and> concat (map (snd \<circ> snd) lg) = delivered (rt (th_reactor s)) (contents (ring (th_queue s)))"
proof (cases "th_dpc s = D_test")
  case True
  from drain_alone [OF assms(1,2) True assms(4,5), of wr] show ?thesis by blast
next
  case False
  let ?t = "s\<lparr>th_dpc := D_test\<rparr>"
  from False assms(3) have "dispatcher_step wr ?t = Some s" using assms(2) by (simp add: dispatcher_step_def)
  moreover from drain_alone [of ?t wr] assms obtain k s' lg where
    k: "dispatcher_steps wr k ?t = Some s'" "th_dpc s' = D_pop" "contents (ring (th_queue s')) = []"
      "popped (th_queue s') = popped (th_queue s) @ contents (ring (th_queue s))" "th_log s' = th_log s @ lg"
      "concat (map (snd \<circ> snd) lg) = delivered (rt (th_reactor s)) (contents (ring (th_queue s)))" by auto
  moreover obtain j where "k = Suc j" using k(1,2) by (cases k) auto
  ultimately show ?thesis by (intro exI [of _ j] exI [of _ s'] exI [of _ lg]) simp
qed

text \<open>The thread leaves its loop only at a cleared flag, which stays clear.\<close>

lemma done_stopped:
  "threads_reach pt wr ok s0 s \<Longrightarrow> th_dpc s0 \<noteq> D_done \<Longrightarrow> th_dpc s = D_done \<Longrightarrow> \<not> run_state_is_running (th_run s)"
proof (induction rule: threads_reach.induct)
  case (flag s e)
  with stopped_stays [of "th_run s" "[e]"] show ?case by simp
next
  case (reactor s a s')
  with reactor_step_main [OF reactor.hyps(3)] show ?case by simp
next
  case (dispatcher s s')
  from dispatcher.hyps(2) dispatcher.prems dispatcher.IH show ?case
    by (auto simp: dispatcher_step_def Let_def
        split: dispatcher_pc.splits option.splits if_splits bind_splits)
qed (simp_all add: main_step_same)

section \<open>One batch of events\<close>

text \<open>
  A bound on the reactor's steps until it is back at its loop test: each event queues at most
  16 messages, and each message takes one step to push and one more when it has to wait.
\<close>

fun batch_left :: "reactor_pc \<Rightarrow> nat" where
  "batch_left (R_events evs) = 34 * length evs + 1"
| "batch_left (R_push ms evs) = 2 * length ms + 34 * length evs + 2"
| "batch_left (R_block m ms evs) = 2 * length ms + 34 * length evs + 3"
| "batch_left _ = 0"

definition batch_ok :: "reactor_pc \<Rightarrow> bool" where
  "batch_ok pc \<longleftrightarrow> length (pending_msgs pc) \<le> 16
     \<and> length (pending_events pc) + (if pending_msgs pc = [] then 0 else 1) \<le> 16"

lemma batch_left_bound: "batch_ok pc \<Longrightarrow> batch_left pc \<le> 546"
  by (cases pc) (auto simp: batch_ok_def split: if_splits)

lemma batch_step:
  assumes "handlers_ok pt" and "config_ok c" and "threads_inv c s" and "answers_ok a s"
    and "batch_ok (th_rpc s)" and "reactor_step pt a s = Some s'"
  shows "batch_ok (th_rpc s')
    \<and> (0 < batch_left (th_rpc s) \<longrightarrow> batch_left (th_rpc s') < batch_left (th_rpc s)
        \<or> (\<not> an_timedout a \<and> ring_full (ring (th_queue s)) \<and> blocked (th_rpc s) \<noteq> [] \<and> s' = s))"
proof (cases "\<exists>d ref evs. th_rpc s = R_events ((d, ref) # evs)")
  case True
  then obtain d ref evs where pc: "th_rpc s = R_events ((d, ref) # evs)" by blast
  have side: "reactor_side c s" using assms(3) by (simp add: threads_inv_def)
  then have pre: "config_ok (g_config (rt (th_reactor s)))" "stack_ok (an_junk a) (an_stack a)"
    "reactor_inv (th_reactor s)" "epoll (th_reactor s) d = Some ref" "io_fresh (an_io a) (th_reactor s)"
    using assms(2,4) pc by (simp_all add: reactor_side_def answers_ok_def)
  from handle_event_ok [OF assms(1) pre] obtain r ms where
    "handle_event pt (an_junk a) (an_stack a) ref (an_io a) (th_reactor s) = Some (r, ms)" "length ms \<le> 16" by blast
  with assms(5,6) pc show ?thesis by (auto simp: reactor_step_def batch_ok_def)
next
  case False
  show ?thesis
  proof (cases "th_rpc s")
    case (R_events evs)
    with False have "evs = []" by (cases evs) auto
    with R_events assms(6) show ?thesis by (auto simp: reactor_step_def batch_ok_def)
  next
    case (R_push ms evs)
    with assms(5,6) show ?thesis
      by (cases ms) (auto simp: reactor_step_def batch_ok_def Let_def)
  next
    case (R_block m ms evs)
    have w: "waiting (th_queue s) = [m]" using assms(3) R_block by (simp add: threads_inv_def queue_side_def)
    from R_block assms(5,6) w show ?thesis
      by (auto simp: reactor_step_def batch_ok_def Let_def queue_push_wake_def split: if_splits)
  qed (use assms(4,6) in \<open>auto simp: reactor_step_def batch_ok_def answers_ok_def MAX_EVENTS_def\<close>)
qed

lemma reach_batch_ok:
  assumes "handlers_ok pt" and "config_ok c"
  shows "threads_reach pt wr answers_ok s0 s \<Longrightarrow> threads_inv c s0 \<Longrightarrow> batch_ok (th_rpc s0) \<Longrightarrow> batch_ok (th_rpc s)"
proof (induction rule: threads_reach.induct)
  case (reactor s a s')
  have "threads_inv c s" by (rule threads_reach_inv [OF assms _ reactor.hyps(1) reactor.prems(1)])
  from batch_step [OF assms this reactor.hyps(2) reactor.IH [OF reactor.prems] reactor.hyps(3)] show ?case by blast
next
  case (dispatcher s s')
  with dispatcher_step_main [OF dispatcher.hyps(2)] show ?case by simp
qed (simp_all add: main_step_same)

section \<open>A small daemon to run\<close>

text \<open>
  A TCP server A with two routes from A to A, on descriptor 5: what a client sends comes back
  twice, to the first client.
\<close>

definition echo_route :: cjson where
  "echo_route = CJObject [(bytes ''src'', CJString (bytes ''A'')), (bytes ''dst'', CJString (bytes ''A''))]"

definition echo_tree :: cjson where
  "echo_tree = CJObject
     [(bytes ''ports'', CJArray [CJObject
         [(bytes ''name'', CJString (bytes ''A'')), (bytes ''type'', CJString (bytes ''tcp_server''))]]),
      (bytes ''routes'', CJArray [echo_route, echo_route])]"

definition echo_world :: world where
  "echo_world = demo_world\<lparr>w_parser := (\<lambda>txt. Some echo_tree)\<rparr>"

abbreviation echo_startup :: "daemon option" where
  "echo_startup \<equiv> startup [] echo_world (daemon_static {0, 1, 2})"

lemma echo_world_ok: "world_ok echo_world"
proof -
  have "(let c = snd (load_config (\<lambda>txt. Some echo_tree) (Some [])) in
      list_all (\<lambda>p. p_fd p = -1 \<and> \<not> client_type (p_type p)) (take (port_count c) (ports c)))"
    by code_simp
  then show ?thesis using demo_world_ok by (simp add: world_ok_def echo_world_def demo_world_def)
qed

text \<open>What the runs need of the started daemon.\<close>

definition reactor_summary :: "reactor \<Rightarrow> (port_type \<times> u8 list) \<times> (u8 list \<times> u8 list) list \<times> port_entry list
    \<times> (int \<times> port_ref option \<times> port_ref option) \<times> (bool \<times> bool) \<times> (bool \<times> bool)" where
  "reactor_summary r =
     (let c = g_config (rt r); p = ports c ! 0
      in ((p_type p, cstr (p_name p)), map (\<lambda>r. (cstr (r_src r), cstr (r_dst r))) (take (route_count c) (routes c)),
          take 2 (g_port_table (rt r)), (epfd r, epoll r 5, epoll r 6),
          (heap (rt r) 0 = None, heap (rt r) 1 = None), (6 \<in> open_fds r, 8 \<in> open_fds r)))"

definition echo_config :: config where
  "echo_config = snd (load_config (\<lambda>txt. Some echo_tree) (Some []))"

lemma echo_values:
  "(let (c, fds) = ports_open_all (w_os echo_world) echo_config {0, 1, 2, 3, 4}
    in map_option reactor_summary (add_ports [0..<port_count echo_config]
         \<lparr>rt = \<lparr>g_config = c, heap = Map.empty, g_port_table = replicate MAX_PORTS zero_port_entry\<rparr>,
          epfd = 3, epoll = Map.empty, open_fds = fds\<rparr>)) =
     Some ((PORT_TCP_SERVER, bytes ''A''), [(bytes ''A'', bytes ''A''), (bytes ''A'', bytes ''A'')],
       [\<lparr>used = True, e_fd = 5, e_port = Some (Cfg_port 0)\<rparr>, \<lparr>used = False, e_fd = 0, e_port = None\<rparr>],
       (3, Some (Cfg_port 0), None), (True, True), (False, False))"
  by code_simp

lemma echo_loaded:
  "fst (load_config (\<lambda>txt. Some echo_tree) (Some [])) = 0" "plugin_count echo_config = 0"
  by code_simp+

lemma echo_started:
  assumes "echo_startup = Some d"
  shows "reactor_summary (dm_reactor d) =
     ((PORT_TCP_SERVER, bytes ''A''), [(bytes ''A'', bytes ''A''), (bytes ''A'', bytes ''A'')],
       [\<lparr>used = True, e_fd = 5, e_port = Some (Cfg_port 0)\<rparr>, \<lparr>used = False, e_fd = 0, e_port = None\<rparr>],
       (3, Some (Cfg_port 0), None), (True, True), (False, False))"
    and "plugin_get_handler nm (dm_plugins d) = None"
proof -
  let ?d = "init_modules [] echo_world (daemon_static {0, 1, 2})"
  have l: "load_config (w_parser echo_world) (w_file echo_world) = (0, echo_config)"
    using echo_loaded(1) by (cases "load_config (\<lambda>txt. Some echo_tree) (Some [])")
      (simp add: echo_world_def demo_world_def echo_config_def)
  have "insert 4 (insert 3 {0, 1, 2}) = {0, 1, 2, 3, 4 :: int}" by auto
  then have r: "dm_reactor ?d = \<lparr>rt = \<lparr>g_config = clear_config, heap = Map.empty,
      g_port_table = replicate MAX_PORTS zero_port_entry\<rparr>, epfd = 3, epoll = Map.empty, open_fds = {0, 1, 2, 3, 4}\<rparr>"
    by (simp add: init_modules_def ipc_server_init_def reactor_init_def Let_def echo_world_def demo_world_def
        daemon_static_def)
  have pt: "dm_plugins ?d = plugin_static" by (simp add: init_modules_static(3)) (simp add: daemon_static_def)
  obtain c fds where o: "ports_open_all (w_os echo_world) echo_config {0, 1, 2, 3, 4} = (c, fds)"
    by (cases "ports_open_all (w_os echo_world) echo_config {0, 1, 2, 3, 4}")
  from assms obtain s where s: "add_ports [0..<port_count c]
      \<lparr>rt = \<lparr>g_config = c, heap = Map.empty, g_port_table = replicate MAX_PORTS zero_port_entry\<rparr>,
       epfd = 3, epoll = Map.empty, open_fds = fds\<rparr> = Some s"
    and d: "dm_reactor d = s" "dm_plugins d = plugin_static"
    by (auto simp: startup_def restore_def l r o pt Let_def load_plugins_def echo_loaded(2) split: bind_splits)
  have "port_count c = port_count echo_config"
    using o by (auto simp: ports_open_all_def split: prod.splits)
  with echo_values s show "reactor_summary (dm_reactor d) =
     ((PORT_TCP_SERVER, bytes ''A''), [(bytes ''A'', bytes ''A''), (bytes ''A'', bytes ''A'')],
       [\<lparr>used = True, e_fd = 5, e_port = Some (Cfg_port 0)\<rparr>, \<lparr>used = False, e_fd = 0, e_port = None\<rparr>],
       (3, Some (Cfg_port 0), None), (True, True), (False, False))"
    by (simp add: o d(1))
  show "plugin_get_handler nm (dm_plugins d) = None" by (simp add: d(2))
qed

text \<open>The stack of the reactor thread, all zeros.\<close>

definition blank_stack :: "u8 list" where
  "blank_stack = replicate 1024 0"

lemma blank_stack_ok: "stack_ok zero_msg blank_stack"
  by (simp add: blank_stack_def zero_stack_ok)

abbreviation io_none :: io where
  "io_none \<equiv> \<lparr>io_accept = -1, io_calloc = None, io_read = []\<rparr>"

abbreviation io_data :: "u8 list \<Rightarrow> io" where
  "io_data bs \<equiv> \<lparr>io_accept = -1, io_calloc = None, io_read = bs\<rparr>"

abbreviation io_connect :: "int \<Rightarrow> nat \<Rightarrow> io" where
  "io_connect d a \<equiv> \<lparr>io_accept = d, io_calloc = Some a, io_read = []\<rparr>"

abbreviation clean_event :: "daemon \<Rightarrow> port_ref \<Rightarrow> io \<Rightarrow> reactor \<Rightarrow> (reactor \<times> event_msg list) option" where
  "clean_event d \<equiv> handle_event (dm_plugins d) zero_msg (blank_stack)"

text \<open>
  The events of the runs: a client connects, sends one byte, and closes; or, after the byte, another
  client connects.
\<close>

lemma echo_events:
  assumes "echo_startup = Some d"
  obtains r1 r2 r3 srv cli m1 m2 where
    "clean_event d (Cfg_port 0) (io_connect 6 0) (dm_reactor d) = Some (r1, [])"
    "clean_event d (Heap_port 0) (io_data [7]) r1 = Some (r1, [m1, m2])"
    "clean_event d (Heap_port 0) io_none r1 = Some (r2, [])" "heap (rt r2) 0 = None"
    "clean_event d (Cfg_port 0) (io_connect 8 1) r1 = Some (r3, [])" "deref (rt r3) (Heap_port 0) = Some cli"
    "8 \<in> open_fds r3" "epoll (dm_reactor d) 5 = Some (Cfg_port 0)" "6 \<notin> open_fds (dm_reactor d)" "heap (rt (dm_reactor d)) 0 = None"
    "epoll r1 5 = Some (Cfg_port 0)" "epoll r1 6 = Some (Heap_port 0)" "8 \<notin> open_fds r1" "heap (rt r1) 1 = None"
    "2 \<le> length (g_port_table (rt r1))"
    "g_port_table (rt r1) ! 0 = \<lparr>used = True, e_fd = 5, e_port = Some (Cfg_port 0)\<rparr>"
    "g_port_table (rt r1) ! 1 = \<lparr>used = True, e_fd = 6, e_port = Some (Heap_port 0)\<rparr>"
    "deref (rt r1) (Cfg_port 0) = Some srv" "p_type srv = PORT_TCP_SERVER"
    "deref (rt r1) (Heap_port 0) = Some cli" "p_type cli = PORT_TCP_CLIENT" "p_fd cli = 6"
    "cstr (p_name cli) = bytes ''A''"
    "\<forall>m \<in> {m1, m2}. msg_ok m \<and> cstr (msg_dst m) = bytes ''A'' \<and> msg_bytes m = [7]"
proof -
  have ok: "daemon_ok d" using startup_daemon_ok [OF echo_world_ok, of "[]" "{0, 1, 2}"] assms by simp
  then have inv: "handlers_ok (dm_plugins d)" "config_ok (g_config (rt (dm_reactor d)))" "reactor_inv (dm_reactor d)"
    by (simp_all add: daemon_ok_def)
  let ?r = "dm_reactor d"
  let ?c = "g_config (rt ?r)" and ?t = "g_port_table (rt ?r)"
  define srv where "srv = ports ?c ! 0"
  define cli where "cli = accepted_port PORT_TCP_CLIENT (p_name srv) 6"
  define t where "t = ?t[1 := \<lparr>used = True, e_fd = 6, e_port = Some (Heap_port 0)\<rparr>]"
  define r1 where "r1 = ?r\<lparr>rt := (rt ?r)\<lparr>heap := (heap (rt ?r))(0 \<mapsto> cli), g_port_table := t\<rparr>,
    epoll := (epoll ?r)(6 \<mapsto> Heap_port 0), open_fds := insert 6 (open_fds ?r)\<rparr>"
  from echo_started(1) [OF assms] have f: "p_type srv = PORT_TCP_SERVER" "cstr (p_name srv) = bytes ''A''"
    "map (\<lambda>r. (cstr (r_src r), cstr (r_dst r))) (take (route_count ?c) (routes ?c)) =
       [(bytes ''A'', bytes ''A''), (bytes ''A'', bytes ''A'')]"
    "take 2 ?t = [\<lparr>used = True, e_fd = 5, e_port = Some (Cfg_port 0)\<rparr>, \<lparr>used = False, e_fd = 0, e_port = None\<rparr>]"
    "epfd ?r = 3" "epoll ?r 5 = Some (Cfg_port 0)" "epoll ?r 6 = None" "heap (rt ?r) 0 = None" "heap (rt ?r) 1 = None"
    "6 \<notin> open_fds ?r" "8 \<notin> open_fds ?r"
    by (simp_all add: reactor_summary_def Let_def srv_def)
  obtain ts where ts: "?t = \<lparr>used = True, e_fd = 5, e_port = Some (Cfg_port 0)\<rparr>
      # \<lparr>used = False, e_fd = 0, e_port = None\<rparr> # ts"
    using f(4) by (cases ?t; cases "tl ?t") auto
  have "length (ports ?c) = 32" using inv(2) by (simp add: config_ok_def MAX_PORTS_def)
  then have d: "deref (rt ?r) (Cfg_port 0) = Some srv" by (simp add: srv_def)
  have e1: "clean_event d (Cfg_port 0) (io_connect 6 0) ?r = Some (r1, [])"
    using d f(1,5,7) ts
    by (simp add: handle_event_def accept_client_def reactor_add_port_def epoll_add_def accepted_port_def
        r1_def cli_def t_def Let_def)
  have stack: "stack_ok zero_msg (blank_stack)" by (rule blank_stack_ok)
  have "io_fresh (io_connect 6 0) ?r" using f(8,10) by (simp add: io_fresh_def)
  from handle_event_ok [OF inv(1,2) stack inv(3) f(6) this] e1 have
    inv1: "reactor_inv r1" "g_config (rt r1) = ?c" by auto
  have r1: "epoll r1 5 = Some (Cfg_port 0)" "epoll r1 6 = Some (Heap_port 0)" "8 \<notin> open_fds r1"
    "heap (rt r1) 1 = None" "deref (rt r1) (Cfg_port 0) = Some srv" "deref (rt r1) (Heap_port 0) = Some cli"
    using f(6,9,11) d by (simp_all add: r1_def split: if_splits)
  have tab: "g_port_table (rt r1) = \<lparr>used = True, e_fd = 5, e_port = Some (Cfg_port 0)\<rparr>
      # \<lparr>used = True, e_fd = 6, e_port = Some (Heap_port 0)\<rparr> # ts"
    by (simp add: r1_def t_def ts)
  have "take 31 (bytes ''A'') = bytes ''A''" by code_simp
  then have cli: "p_type cli = PORT_TCP_CLIENT" "p_fd cli = 6" "cstr (p_name cli) = bytes ''A''"
    using accepted_name [of PORT_TCP_CLIENT "p_name srv" 6] f(2) by (simp_all add: cli_def) (simp_all add: accepted_port_def)
  from f(3) obtain ra rb where ab: "take (route_count ?c) (routes ?c) = [ra, rb]"
    "cstr (r_src ra) = bytes ''A''" "cstr (r_dst ra) = bytes ''A''"
    "cstr (r_src rb) = bytes ''A''" "cstr (r_dst rb) = bytes ''A''"
    by (auto simp: map_eq_Cons_conv)
  have rs: "routes_of (p_name cli) ?c = [ra, rb]" using cli(3) ab by (simp add: routes_of_def)
  have plain: "\<forall>r \<in> set (routes_of (p_name cli) ?c). plugin_get_handler (r_handler r) (dm_plugins d) = None"
    using echo_started(2) [OF assms] by simp
  from forward_event [OF inv(1) _ stack r1(6), of "io_data [7]"] inv(2) inv1(2) cli(1) obtain ms where
    ms: "clean_event d (Heap_port 0) (io_data [7]) r1 = Some (r1, ms)" "list_all msg_ok ms"
      "map (\<lambda>m. (msg_dst m, msg_bytes m)) ms = forwarded (dm_plugins d) (routes_of (p_name cli) ?c)
         (received [7] (blank_stack)) (int (min (length [7 :: u8]) 1023))"
    by auto
  have "map (\<lambda>m. (msg_dst m, msg_bytes m)) ms = [(r_dst ra, [7]), (r_dst rb, [7])]"
    unfolding ms(3) forwarded_received [OF plain] by (simp add: rs)
  then obtain m1 m2 where m: "ms = [m1, m2]" "msg_dst m1 = r_dst ra" "msg_bytes m1 = [7]"
    "msg_dst m2 = r_dst rb" "msg_bytes m2 = [7]" by (auto simp: map_eq_Cons_conv)
  obtain r2 where r2: "clean_event d (Heap_port 0) io_none r1 = Some (r2, [])" "heap (rt r2) 0 = None"
    using client_closed [OF inv1(1), of "\<lparr>used = True, e_fd = 6, e_port = Some (Heap_port 0)\<rparr>" 0 io_none
        "dm_plugins d" zero_msg "blank_stack"] by (auto simp: tab)
  have fresh: "io_fresh (io_connect 8 1) r1" using r1(3,4) by (simp add: io_fresh_def)
  from accept_client_ok [OF inv1(1) fresh _ reactor_inv_watching(1) [OF inv1(1) r1(1)], of PORT_TCP_CLIENT srv]
  obtain r3 where acc: "accept_client PORT_TCP_CLIENT srv (io_connect 8 1) r1 = Some r3"
    by (auto simp: client_type_def)
  with r1(5) f(1) have r3: "clean_event d (Cfg_port 0) (io_connect 8 1) r1 = Some (r3, [])"
    by (simp add: handle_event_def)
  have "deref (rt r3) (Heap_port 0) = Some cli"
    using handle_event_keeps [OF r3 inv1(1) fresh r1(1) _ r1(2,6)] by simp
  moreover have eight: "\<not> (8 :: int) < 0" by simp
  have "8 \<in> open_fds r3"
    using add_port_keeps [OF acc [unfolded accept_client_def io.simps option.case Let_def if_not_P [OF eight]]] by simp
  ultimately show thesis using that [OF e1 ms(1) [unfolded m(1)] r2 r3 _ _ f(6,10,8) r1(1-4) _ _ _ r1(5) f(1) r1(6) cli] ms(2) m ab(3,5)
    by (simp add: tab)
qed

text \<open>The order of the steps: up to the message found, then one of two events, then the send.\<close>

definition react :: "(int \<times> port_ref) list \<Rightarrow> io \<Rightarrow> move" where
  "react evs w = Reactor_move \<lparr>an_events = evs, an_io = w, an_junk = zero_msg, an_stack = blank_stack,
     an_timedout = False\<rparr>"

abbreviation react_on :: move where "react_on \<equiv> react [] io_none"

definition until_found :: "move list" where
  "until_found = [react_on, react [(5, Cfg_port 0)] io_none, react [] (io_connect 6 0), react_on, react_on,
     react_on, react [(6, Heap_port 0)] io_none, react [] (io_data [7]), react_on, react_on, react_on, react_on]
     @ [Dispatcher_move, Dispatcher_move, Dispatcher_move, Dispatcher_move, Dispatcher_move]"

definition client_closes :: "move list" where
  "client_closes = [react_on, react [(6, Heap_port 0)] io_none, react [] io_none]"

definition other_connects :: "move list" where
  "other_connects = [react_on, react [(5, Cfg_port 0)] io_none, react [] (io_connect 8 1)]"

lemma react_run:
  "sched_run pt wr ok (react evs w # moves) s =
     (let a = \<lparr>an_events = evs, an_io = w, an_junk = zero_msg, an_stack = blank_stack, an_timedout = False\<rparr>
      in if ok a s then do { s \<leftarrow> reactor_step pt a s; sched_run pt wr ok moves s } else None)"
  by (simp add: react_def)

lemma careful_react:
  "careful \<lparr>an_events = evs, an_io = w, an_junk = zero_msg, an_stack = blank_stack, an_timedout = False\<rparr> s \<longleftrightarrow>
     answers_ok \<lparr>an_events = evs, an_io = w, an_junk = zero_msg, an_stack = blank_stack, an_timedout = False\<rparr> s
     \<and> (case th_rpc s of
          R_events ((d, ref) # evs) \<Rightarrow> io_read w \<noteq> [] \<or> held (th_dpc s) \<noteq> Some ref
        | _ \<Rightarrow> True)"
  by (simp add: careful_def split: reactor_pc.split list.split)

lemma answers_react:
  "answers_ok \<lparr>an_events = evs, an_io = w, an_junk = zero_msg, an_stack = blank_stack, an_timedout = False\<rparr> s \<longleftrightarrow>
     length evs \<le> 16 \<and> distinct (map fst evs)
     \<and> list_all (\<lambda>(d, ref). epoll (th_reactor s) d = Some ref) evs \<and> io_fresh w (th_reactor s)"
  by (simp add: answers_ok_def MAX_EVENTS_def blank_stack_ok)

lemma echo_runs:
  assumes "echo_startup = Some d"
  obtains found faulty busy sent m cli where
    "sched_run (dm_plugins d) (\<lambda>d b. 1) careful until_found (threads_start d) = Some found"
    "run_state_is_running (th_run found)" "held (th_dpc found) = Some (Heap_port 0)"
    "heap (rt (th_reactor found)) 0 \<noteq> None" "length (contents (ring (th_queue found))) = 1"
    "sched_run (dm_plugins d) (\<lambda>d b. 1) answers_ok client_closes found = Some faulty"
    "held (th_dpc faulty) = Some (Heap_port 0)" "heap (rt (th_reactor faulty)) 0 = None"
    "sched_run (dm_plugins d) (\<lambda>d b. 1) careful other_connects found = Some busy"
    "held (th_dpc busy) = Some (Heap_port 0)" "8 \<in> open_fds (th_reactor busy)" "8 \<notin> open_fds (th_reactor found)"
    "sched_run (dm_plugins d) (\<lambda>d b. 1) careful [Dispatcher_move, Dispatcher_move] busy = Some sent"
    "th_log sent = [(m, cli, [(6, [7])])]"
proof -
  from echo_events [OF assms] obtain r1 r2 r3 srv cli m1 m2 where
    e: "clean_event d (Cfg_port 0) (io_connect 6 0) (dm_reactor d) = Some (r1, [])"
      "clean_event d (Heap_port 0) (io_data [7]) r1 = Some (r1, [m1, m2])"
      "clean_event d (Heap_port 0) io_none r1 = Some (r2, [])" "heap (rt r2) 0 = None"
      "clean_event d (Cfg_port 0) (io_connect 8 1) r1 = Some (r3, [])" "deref (rt r3) (Heap_port 0) = Some cli"
      "8 \<in> open_fds r3"
    and r0: "epoll (dm_reactor d) 5 = Some (Cfg_port 0)" "6 \<notin> open_fds (dm_reactor d)" "heap (rt (dm_reactor d)) 0 = None"
    and r1: "epoll r1 5 = Some (Cfg_port 0)" "epoll r1 6 = Some (Heap_port 0)" "8 \<notin> open_fds r1" "heap (rt r1) 1 = None"
      "2 \<le> length (g_port_table (rt r1))"
      "g_port_table (rt r1) ! 0 = \<lparr>used = True, e_fd = 5, e_port = Some (Cfg_port 0)\<rparr>"
      "g_port_table (rt r1) ! 1 = \<lparr>used = True, e_fd = 6, e_port = Some (Heap_port 0)\<rparr>"
      "deref (rt r1) (Cfg_port 0) = Some srv" "p_type srv = PORT_TCP_SERVER"
    and cli: "deref (rt r1) (Heap_port 0) = Some cli" "p_type cli = PORT_TCP_CLIENT" "p_fd cli = 6"
      "cstr (p_name cli) = bytes ''A''"
    and m: "\<forall>m \<in> {m1, m2}. msg_ok m \<and> cstr (msg_dst m) = bytes ''A'' \<and> msg_bytes m = [7]" .
  have ok: "run_state_is_running (dm_run d)" "ring_inv (dm_queue d)" "contents (dm_queue d) = []"
    using startup_daemon_ok [OF echo_world_ok, of "[]" "{0, 1, 2}"] assms by (simp_all add: daemon_ok_def)
  obtain q1 where q1: "queue_push m1 (dm_queue d) = (Returned 0, q1)" "ring_inv q1" "contents q1 = [m1]"
  proof -
    from event_fifo.enq_Some_iff [OF ok(2), of m1] ok(3) have "\<not> ring_full (dm_queue d)"
      by (auto simp: try_push_def queue_push_def split: if_splits)
    with that [of "ring_store m1 (dm_queue d)"] ok(2,3) show ?thesis
      by (simp add: queue_push_def ring_store_inv ring_store_contents)
  qed
  obtain q2 where q2: "queue_push m2 q1 = (Returned 0, q2)" "ring_inv q2" "contents q2 = [m1, m2]"
  proof -
    from event_fifo.enq_Some_iff [OF q1(2), of m2] q1(3) have "\<not> ring_full q1"
      by (auto simp: try_push_def queue_push_def simp del: length_contents split: if_splits)
    with that [of "ring_store m2 q1"] q1(2,3) show ?thesis
      by (simp add: queue_push_def ring_store_inv ring_store_contents)
  qed
  obtain q3 where q3: "queue_pop q2 = Some (m1, q3)" "ring_inv q3" "contents q3 = [m2]"
    using event_fifo.deq_nonempty [OF q2(2,3)] by auto
  let ?s = "\<lambda>r rpc q dpc log. \<lparr>th_run = dm_run d, th_reactor = r, th_rpc = rpc,
     th_queue = q, th_dpc = dpc, th_log = log, th_mpc = M_loop, th_ipc_done = False, th_stale = []\<rparr>"
  let ?q = "\<lparr>ring = q3, waiting = [], submitted = [m1, m2], stored = [m1, m2], dropped = [], popped = [m1]\<rparr>"
  have table: "g_port_table (rt r1) \<noteq> []" "\<not> length (g_port_table (rt r1)) \<le> Suc 0"
    "g_port_table (rt r1) ! Suc 0 = \<lparr>used = True, e_fd = 6, e_port = Some (Heap_port 0)\<rparr>"
    using r1(5,7) by auto
  have name: "strcmp_eq (p_name cli) (msg_dst m1)" using cli(4) m by (simp add: strcmp_eq_def)
  have bytes: "write_arg (msg_data m1) (msg_len m1) = Some [7]" using msg_ok_write [of m1] m by simp
  note run_simps = react_run careful_react answers_react reactor_step_def dispatcher_step_def io_fresh_def Let_def
  let ?found = "?s r1 R_test ?q (D_check m1 1 (Heap_port 0)) []"
  have found: "sched_run (dm_plugins d) (\<lambda>d b. 1) careful until_found (threads_start d) = Some ?found"
    using e(1,2) r0 r1 table q1(1) q2(1) q3(1) ok(1)
    by (simp add: until_found_def threads_start_def run_simps)
  let ?faulty = "?s r2 (R_push [] []) ?q (D_check m1 1 (Heap_port 0)) []"
  have faulty: "sched_run (dm_plugins d) (\<lambda>d b. 1) answers_ok client_closes ?found = Some ?faulty"
    using e(3) r1(2) ok(1) by (simp add: client_closes_def run_simps)
  let ?busy = "?s r3 (R_push [] []) ?q (D_check m1 1 (Heap_port 0)) []"
  have busy: "sched_run (dm_plugins d) (\<lambda>d b. 1) careful other_connects ?found = Some ?busy"
    using e(5) r1 ok(1) by (simp add: other_connects_def run_simps)
  have sent: "sched_run (dm_plugins d) (\<lambda>d b. 1) careful [Dispatcher_move, Dispatcher_move] ?busy =
      Some (?s r3 (R_push [] []) ?q D_test [(m1, cli, [(6, [7])])])"
    using e(6) cli(2,3) name bytes by (simp add: run_simps port_send_def)
  show thesis
    by (rule that [OF found _ _ _ _ faulty _ _ busy _ _ _ sent])
      (use ok(1) q3(3) e(4,7) cli(1) r1(3) in \<open>simp_all del: length_contents deref.simps(1)\<close>)
qed

section \<open>Properties\<close>



text \<open>
  C14. What is right as long as no port closes while the dispatcher holds its address. Over every
  interleaving of a started daemon with this restriction (whose configuration has no client
  ports and no \<open>tty\<close> ports without settings, as for C15), neither thread fails; every call of
  \<open>port_send\<close> is for the port that has the message's destination as its name and is no server,
  with one write of exactly the message's bytes (none for a UDP port); and the descriptor it
  writes to is open.
\<close>

theorem careful_runs_deliver:
  assumes "world_ok w" and "startup argv w (daemon_static fds) = Some d"
    and "threads_reach (dm_plugins d) wr careful (threads_start d) s"
  shows "dispatcher_step wr s \<noteq> None \<and> (careful ans s \<longrightarrow> reactor_step (dm_plugins d) ans s \<noteq> None)
    \<and> list_all right_send (th_log s)
    \<and> (case th_dpc s of
         D_send m ref \<Rightarrow> (\<exists>p. deref (rt (th_reactor s)) ref = Some p \<and> p_fd p \<in> open_fds (th_reactor s))
       | _ \<Rightarrow> True)"
proof -
  note h = started(1) [OF assms(1,2)] and c = started(2) [OF assms(1,2)] and start = started(3) [OF assms(1,2)]
  have "held_live (threads_start d)" "th_log (threads_start d) = []"
    by (simp_all add: held_live_def threads_start_def)
  from careful_reach [OF h c assms(3) start this]
  have inv: "threads_inv (g_config (rt (dm_reactor d))) s" and live: "held_live s"
    and log: "list_all right_send (th_log s)" by simp_all
  from inv have sides: "reactor_side (g_config (rt (dm_reactor d))) s" "queue_side s" "dispatcher_side s"
    by (simp_all add: threads_inv_def)
  have "dispatcher_step wr s \<noteq> None"
    using dispatcher_step_faults [OF sides] live by (fastforce simp: held_live_def port_live_def)
  moreover have "careful ans s \<longrightarrow> reactor_step (dm_plugins d) ans s \<noteq> None"
    using threads_inv_reactor [OF h c inv, of ans] by (auto simp: careful_def)
  moreover have "reactor_inv (th_reactor s)" using sides(1) by (simp add: reactor_side_def)
  ultimately show ?thesis
    using log live live_open by (fastforce simp: held_live_def port_live_def split: dispatcher_pc.split)
qed

theorem careful_runs_deliver_witness:
  "\<exists>d found busy s m p. echo_startup = Some d
     \<and> sched_run (dm_plugins d) (\<lambda>d b. 1) careful until_found (threads_start d) = Some found
     \<and> held (th_dpc found) = Some (Heap_port 0)
     \<and> sched_run (dm_plugins d) (\<lambda>d b. 1) careful other_connects found = Some busy
     \<and> held (th_dpc busy) = Some (Heap_port 0) \<and> 8 \<in> open_fds (th_reactor busy)
     \<and> sched_run (dm_plugins d) (\<lambda>d b. 1) careful [Dispatcher_move, Dispatcher_move] busy = Some s
     \<and> th_log s = [(m, p, [(6, [7])])] \<and> right_send (m, p, [(6, [7])]) \<and> dispatcher_step (\<lambda>d b. 1) s \<noteq> None"
proof -
  obtain d where d: "echo_startup = Some d"
    using startup_daemon_ok [OF echo_world_ok, of "[]" "{0, 1, 2}"] by blast
  from echo_runs [OF d] obtain found busy s m p where
    r: "sched_run (dm_plugins d) (\<lambda>d b. 1) careful until_found (threads_start d) = Some found"
      "held (th_dpc found) = Some (Heap_port 0)"
      "sched_run (dm_plugins d) (\<lambda>d b. 1) careful other_connects found = Some busy"
      "held (th_dpc busy) = Some (Heap_port 0)" "8 \<in> open_fds (th_reactor busy)"
      "sched_run (dm_plugins d) (\<lambda>d b. 1) careful [Dispatcher_move, Dispatcher_move] busy = Some s"
      "th_log s = [(m, p, [(6, [7])])]" .
  have "threads_reach (dm_plugins d) (\<lambda>d b. 1) careful (threads_start d) s"
    by (rule sched_run_reach [OF sched_run_reach [OF sched_run_reach [OF threads_reach.start r(1)] r(3)] r(6)])
  from careful_runs_deliver [OF echo_world_ok d this] r(7)
  have "dispatcher_step (\<lambda>d b. 1) s \<noteq> None" "right_send (m, p, [(6, [7])])" by (simp_all del: right_send.simps)
  with d r show ?thesis by blast
qed


text \<open>
  C16. The dispatcher thread keeps up when it gets the processor. Take any state the daemon reaches
  with the run flag set, in which the port whose address the thread holds, if it holds one, is
  still allocated (the only states in which its next step does not fault, C13). Then its own
  steps end the message it is at, with at most one call of \<open>port_send\<close> for it, and empty the
  queue: it takes every message stored, in order, writes for each exactly the message's bytes to
  the first port that receives for its destination, as a call of \<open>router_core_handle\<close> would, and
  then waits for more. As for C15, the configuration has no client ports and no \<open>tty\<close> ports
  without settings.
\<close>

theorem dispatcher_drains:
  assumes "world_ok w" and "startup argv w (daemon_static fds) = Some d"
    and "threads_reach (dm_plugins d) wr answers_ok (threads_start d) s"
    and "run_state_is_running (th_run s)"
    and "\<And>a. held (th_dpc s) = Some (Heap_port a) \<Longrightarrow> heap (rt (th_reactor s)) a \<noteq> None"
  shows "\<exists>k s' cur lg. dispatcher_steps wr k s = Some s' \<and> th_dpc s' = D_pop
    \<and> popped (th_queue s') = stored (th_queue s) \<and> contents (ring (th_queue s')) = []
    \<and> th_log s' = th_log s @ cur @ lg \<and> (map fst cur = [] \<or> map fst cur = current (th_dpc s))
    \<and> concat (map (snd \<circ> snd) lg) = delivered (rt (th_reactor s)) (contents (ring (th_queue s)))"
proof -
  note h = started(1) [OF assms(1,2)] and c = started(2) [OF assms(1,2)] and start = started(3) [OF assms(1,2)]
  from threads_reach_inv [OF h c _ assms(3) start]
  have inv: "reactor_side (g_config (rt (dm_reactor d))) s" "queue_side s" "dispatcher_side s"
    by (simp_all add: threads_inv_def)
  then have q: "table_valid (rt (th_reactor s))" "ring_inv (ring (th_queue s))"
    "stored (th_queue s) = popped (th_queue s) @ contents (ring (th_queue s))"
    by (simp_all add: reactor_side_def reactor_inv_table queue_side_def sys_inv_def)
  note msgs = queue_side_msgs(2) [OF inv(2)]
  show ?thesis
  proof (cases "current (th_dpc s)")
    case Nil
    have "th_dpc s \<noteq> D_done"
      using done_stopped [OF assms(3)] assms(4) by (auto simp: threads_start_def)
    with Nil have "th_dpc s = D_test \<or> th_dpc s = D_pop" by (cases "th_dpc s") simp_all
    from drain_waiting [OF q(1) assms(4) this q(2) msgs, of wr] obtain k s' lg where
      "dispatcher_steps wr k s = Some s'" "th_dpc s' = D_pop" "contents (ring (th_queue s')) = []"
      "popped (th_queue s') = stored (th_queue s)" "th_log s' = th_log s @ lg"
      "concat (map (snd \<circ> snd) lg) = delivered (rt (th_reactor s)) (contents (ring (th_queue s)))"
      unfolding q(3) by blast
    then show ?thesis by (intro exI [of _ k] exI [of _ s'] exI [of _ "[]"] exI [of _ lg]) simp
  next
    case (Cons m ms)
    then have m: "current (th_dpc s) = [m]" by (cases "th_dpc s") simp_all
    have "deref (rt (th_reactor s)) ref \<noteq> None" if "held (th_dpc s) = Some ref" for ref
      using that assms(5) inv(3) by (cases ref) (auto simp: dispatcher_side_def)
    from current_finishes [OF q(1) m current_msg_ok [OF inv(2,3)] this, of wr] m obtain k cur where
      k: "dispatcher_steps wr k s = Some (s\<lparr>th_dpc := D_test, th_log := th_log s @ cur\<rparr>)"
        "map fst cur = [] \<or> map fst cur = [m]" by auto
    let ?s = "s\<lparr>th_dpc := D_test, th_log := th_log s @ cur\<rparr>"
    from drain_alone [of ?s wr] q(1,2) assms(4) msgs obtain l s' lg where
      l: "dispatcher_steps wr l ?s = Some s'" "th_dpc s' = D_pop" "contents (ring (th_queue s')) = []"
        "popped (th_queue s') = stored (th_queue s)" "th_log s' = th_log s @ cur @ lg"
        "concat (map (snd \<circ> snd) lg) = delivered (rt (th_reactor s)) (contents (ring (th_queue s)))"
      by (auto simp: q(3))
    have "dispatcher_steps wr (k + l) s = Some s'"
      using k(1) l(1) by (simp only: dispatcher_steps_add bind.bind_lunit)
    with k(2) l(2-) m show ?thesis by (intro exI [of _ "k + l"] exI [of _ s'] exI [of _ cur] exI [of _ lg]) simp
  qed
qed

theorem dispatcher_drains_witness:
  "\<exists>d s k s'. echo_startup = Some d
     \<and> sched_run (dm_plugins d) (\<lambda>d b. 1) careful until_found (threads_start d) = Some s
     \<and> held (th_dpc s) = Some (Heap_port 0) \<and> length (contents (ring (th_queue s))) = 1
     \<and> dispatcher_steps (\<lambda>d b. 1) k s = Some s' \<and> th_dpc s' = D_pop \<and> contents (ring (th_queue s')) = []
     \<and> popped (th_queue s') = stored (th_queue s)"
proof -
  obtain d where d: "echo_startup = Some d"
    using startup_daemon_ok [OF echo_world_ok, of "[]" "{0, 1, 2}"] by blast
  from echo_runs [OF d] obtain s where
    s: "sched_run (dm_plugins d) (\<lambda>d b. 1) careful until_found (threads_start d) = Some s"
      "run_state_is_running (th_run s)" "held (th_dpc s) = Some (Heap_port 0)"
      "heap (rt (th_reactor s)) 0 \<noteq> None" "length (contents (ring (th_queue s))) = 1" .
  have r: "threads_reach (dm_plugins d) (\<lambda>d b. 1) answers_ok (threads_start d) s"
    by (rule threads_reach_mono [OF sched_run_reach [OF threads_reach.start s(1)]]) (simp add: careful_def)
  have "heap (rt (th_reactor s)) a \<noteq> None" if "held (th_dpc s) = Some (Heap_port a)" for a
    using that s(3,4) by simp
  from dispatcher_drains [OF echo_world_ok d r s(2) this] d s(1,3,5) show ?thesis by blast
qed

text \<open>
  C39. A slow destination delays the reactor, but only so far. While the reactor works on a batch
  of events, with any interleaving of the other threads, each of its steps brings it closer to
  testing the run flag and calling \<open>epoll_wait\<close> again, of which it is never more than 546 of its
  own steps away; the one exception is a return of \<open>pthread_cond_timedwait\<close> without a time-out
  that finds the queue still full, and a time-out always ends the wait. The other threads do
  not set it back.
\<close>

theorem reactor_batch_ends:
  assumes "world_ok w" and "startup argv w (daemon_static fds) = Some d"
    and "threads_reach (dm_plugins d) wr answers_ok (threads_start d) s"
    and "answers_ok ans s" and "th_rpc s \<noteq> R_test" and "th_rpc s \<noteq> R_wait" and "th_rpc s \<noteq> R_done"
  shows "\<exists>s'. reactor_step (dm_plugins d) ans s = Some s' \<and> batch_left (th_rpc s) \<le> 546
    \<and> (batch_left (th_rpc s') < batch_left (th_rpc s)
       \<or> (\<not> an_timedout ans \<and> ring_full (ring (th_queue s)) \<and> blocked (th_rpc s) \<noteq> [] \<and> s' = s))
    \<and> (\<forall>s2. dispatcher_step wr s = Some s2 \<longrightarrow> th_rpc s2 = th_rpc s) \<and> th_rpc (main_step obs s) = th_rpc s"
proof -
  note h = started(1) [OF assms(1,2)] and c = started(2) [OF assms(1,2)] and start = started(3) [OF assms(1,2)]
  have inv: "threads_inv (g_config (rt (dm_reactor d))) s" by (rule threads_reach_inv [OF h c _ assms(3) start])
  have "batch_ok (th_rpc (threads_start d))" by (simp add: batch_ok_def threads_start_def)
  from reach_batch_ok [OF h c assms(3) start this] have ok: "batch_ok (th_rpc s)" .
  from threads_inv_reactor [OF h c inv assms(4)] obtain s' where s': "reactor_step (dm_plugins d) ans s = Some s'" by blast
  have "0 < batch_left (th_rpc s)" using assms(5-7) by (cases "th_rpc s") simp_all
  with batch_step [OF h c inv assms(4) ok s'] have left: "batch_left (th_rpc s') < batch_left (th_rpc s)
      \<or> (\<not> an_timedout ans \<and> ring_full (ring (th_queue s)) \<and> blocked (th_rpc s) \<noteq> [] \<and> s' = s)" by blast
  have "\<forall>s2. dispatcher_step wr s = Some s2 \<longrightarrow> th_rpc s2 = th_rpc s" using dispatcher_step_main by blast
  with s' left batch_left_bound [OF ok] show ?thesis
    by (intro exI [of _ s'] conjI) (simp_all only: main_step_same)
qed

theorem reactor_batch_ends_witness:
  "\<exists>d s s'. startup [] demo_world (daemon_static {0, 1, 2}) = Some d \<and> th_rpc s = R_events [(5, Cfg_port 0)]
     \<and> (\<exists>ans. reactor_step (dm_plugins d) ans s = Some s' \<and> batch_left (th_rpc s') < batch_left (th_rpc s))"
proof -
  obtain d where d: "startup [] demo_world (daemon_static {0, 1, 2}) = Some d" "daemon_ok d"
    using startup_daemon_ok [OF demo_world_ok, of "[]" "{0, 1, 2}"] by blast
  let ?s0 = "threads_start d"
  let ?a = "\<lparr>an_events = [(5, Cfg_port 0)], an_io = \<lparr>io_accept = -1, io_calloc = Some 0, io_read = [1]\<rparr>, an_junk = zero_msg,
      an_stack = replicate 1024 0, an_timedout = True\<rparr>"
  let ?s1 = "?s0\<lparr>th_rpc := R_wait\<rparr>" and ?s2 = "?s0\<lparr>th_rpc := R_events [(5, Cfg_port 0)]\<rparr>"
  let ?run = "threads_reach (dm_plugins d) (\<lambda>d b. 0) answers_ok ?s0"
  have a: "answers_ok ?a (?s0\<lparr>th_rpc := pc\<rparr>)" for pc
    using demo_daemon [OF d(1)]
    by (simp add: answers_ok_def threads_start_def io_fresh_def stack_ok_def zero_msg_def MAX_DATA_def MAX_EVENTS_def)
  have "answers_ok ?a ?s0" using a [of "th_rpc ?s0"] by simp
  moreover have "reactor_step (dm_plugins d) ?a ?s0 = Some ?s1"
    using d(2) by (simp add: reactor_step_def threads_start_def daemon_ok_def)
  ultimately have "?run ?s1" by (rule threads_reach.reactor [OF threads_reach.start])
  moreover have "reactor_step (dm_plugins d) ?a ?s1 = Some ?s2" by (simp add: reactor_step_def)
  ultimately have r: "?run ?s2" using a by (blast intro: threads_reach.reactor)
  from reactor_batch_ends [where obs = "(undefined, undefined)", OF demo_world_ok d(1) r a] obtain s' where
    "reactor_step (dm_plugins d) ?a ?s2 = Some s'" "batch_left (th_rpc s') < batch_left (th_rpc ?s2)" by auto
  with d(1) show ?thesis by (intro exI [of _ d] exI [of _ ?s2] exI [of _ s']) auto
qed

text \<open>
  C38. A SIGTERM that comes too late for the dispatcher hangs the daemon. Once the run flag is
  clear, the reactor has left its loop or is about to test the flag, and the dispatcher waits
  for a message in the empty queue, the dispatcher waits there in every later state, whatever
  happens, and \<open>main\<close>, which joins it, never returns.
\<close>

theorem shutdown_hangs:
  assumes "threads_reach pt wr ok s0 s"
    and "\<not> run_state_is_running (th_run s0)" and "th_rpc s0 = R_test \<or> th_rpc s0 = R_done"
    and "th_dpc s0 = D_pop" and "queue_pop (ring (th_queue s0)) = None" and "th_mpc s0 \<noteq> M_exit"
  shows "th_mpc s \<noteq> M_exit \<and> th_dpc s = D_pop \<and> th_log s = th_log s0"
proof -
  from assms(1) have "(\<not> run_state_is_running (th_run s) \<and> (th_rpc s = R_test \<or> th_rpc s = R_done))
      \<and> (th_dpc s = D_pop \<and> th_queue s = th_queue s0 \<and> th_log s = th_log s0) \<and> th_mpc s \<noteq> M_exit"
  proof (induction rule: threads_reach.induct)
    case (flag s e)
    with stopped_stays [of "th_run s" "[e]"] show ?case by simp
  next
    case (reactor s a s')
    then show ?case by (auto simp: reactor_step_def)
  next
    case (dispatcher s s')
    with assms(5) show ?case by (simp add: dispatcher_step_def)
  next
    case (main s obs)
    then have "th_mpc (main_step obs s) \<noteq> M_exit" by (simp add: main_step_def split: main_pc.split)
    with main show ?case by (simp add: main_step_same)
  next
    case (ipc_returns s)
    then show ?case by simp
  qed (use assms in simp)
  then show ?thesis by simp
qed

theorem shutdown_hangs_witness:
  "\<exists>d s. startup [] demo_world (daemon_static {0, 1, 2}) = Some d
     \<and> dispatcher_steps (\<lambda>d b. 0) 1000 ((threads_start d)\<lparr>th_run := run_state_stop (dm_run d), th_dpc := D_pop\<rparr>) = Some s
     \<and> th_dpc s = D_pop"
proof -
  obtain d where d: "startup [] demo_world (daemon_static {0, 1, 2}) = Some d" "daemon_ok d"
    using startup_daemon_ok [OF demo_world_ok, of "[]" "{0, 1, 2}"] by blast
  let ?s0 = "(threads_start d)\<lparr>th_run := run_state_stop (dm_run d), th_dpc := D_pop\<rparr>"
  have q: "queue_pop (ring (th_queue ?s0)) = None"
    using d(2) event_fifo.deq_empty [of "dm_queue d"] by (simp add: threads_start_def daemon_ok_def)
  have "\<exists>s. dispatcher_steps (\<lambda>d b. 0) k s1 = Some s \<and> threads_reach plugin_static (\<lambda>d b. 0) answers_ok ?s0 s"
    if "threads_reach plugin_static (\<lambda>d b. 0) answers_ok ?s0 s1" "s1 = ?s0" for k s1
    using that q by (induction k) (simp_all add: dispatcher_step_def)
  from this [OF threads_reach.start refl, of 1000] obtain s where
    s: "dispatcher_steps (\<lambda>d b. 0) 1000 ?s0 = Some s" "threads_reach plugin_static (\<lambda>d b. 0) answers_ok ?s0 s" by blast
  from shutdown_hangs [OF s(2) _ _ _ q] have "th_dpc s = D_pop"
    by (simp add: threads_start_def run_state_is_running_def run_state_stop_def)
  with d(1) s(1) show ?thesis by blast
qed


text \<open>
  The daemon exits last. When \<open>main\<close> returns, the run flag is clear and the reactor, the IPC
  thread and the dispatcher have all returned; so no thread works on state that the end of the
  process takes away, and every message the dispatcher took from the queue has been dealt with.
\<close>

theorem main_exits_last:
  assumes "threads_reach pt wr ok (threads_start d) s" and "th_mpc s = M_exit"
  shows "\<not> run_state_is_running (th_run s) \<and> th_rpc s = R_done \<and> th_ipc_done s \<and> th_dpc s = D_done"
proof -
  from assms(1) have "(th_mpc s = M_loop \<or> \<not> run_state_is_running (th_run s))
      \<and> (th_mpc s \<in> {M_join_ipc, M_join_dispatcher, M_exit} \<longrightarrow> th_rpc s = R_done)
      \<and> (th_mpc s \<in> {M_join_dispatcher, M_exit} \<longrightarrow> th_ipc_done s)
      \<and> (th_mpc s = M_exit \<longrightarrow> th_dpc s = D_done)"
  proof (induction rule: threads_reach.induct)
    case start
    show ?case by (simp add: threads_start_def)
  next
    case (flag s e)
    with stopped_stays [of "th_run s" "[e]"] show ?case by auto
  next
    case (reactor s a s')
    then show ?case using reactor_step_done [OF reactor.hyps(3)] reactor_step_main [OF reactor.hyps(3)] by auto
  next
    case (dispatcher s s')
    then show ?case using dispatcher_step_main [OF dispatcher.hyps(2)] by auto
  next
    case (main s obs)
    then show ?case by (auto simp: main_step_def split: main_pc.split)
  next
    case (ipc_returns s)
    then show ?case by auto
  qed
  with assms(2) show ?thesis by auto
qed

theorem main_exits_last_witness:
  "\<exists>d s. startup [] demo_world (daemon_static {0, 1, 2}) = Some d \<and> th_mpc s = M_exit
     \<and> th_rpc s = R_done \<and> th_dpc s = D_done
     \<and> threads_reach (dm_plugins d) (\<lambda>d b. 0) answers_ok (threads_start d) s"
proof -
  obtain d where d: "startup [] demo_world (daemon_static {0, 1, 2}) = Some d"
    using startup_daemon_ok [OF demo_world_ok, of "[]" "{0, 1, 2}"] by blast
  let ?run = "threads_reach (dm_plugins d) (\<lambda>d b. 0) answers_ok (threads_start d)"
  let ?obs = "(undefined, undefined)"
  let ?f = "run_state_stop (dm_run d)"
  have f: "\<not> run_state_is_running ?f" by (simp add: run_state_is_running_def run_state_stop_def)
  let ?s1 = "(threads_start d)\<lparr>th_run := ?f\<rparr>"
  have "?run ?s1" using threads_reach.flag [OF threads_reach.start, of _ _ _ "threads_start d" Stop]
    by (simp add: threads_start_def)
  then have "?run (?s1\<lparr>th_dpc := D_done\<rparr>)"
    by (rule threads_reach.dispatcher) (simp add: dispatcher_step_def threads_start_def f)
  from threads_reach.ipc_returns [OF this] f have r: "?run (?s1\<lparr>th_dpc := D_done, th_ipc_done := True\<rparr>)"
    by simp
  have "answers_ok \<lparr>an_events = [], an_io = \<lparr>io_accept = -1, io_calloc = Some 0, io_read = []\<rparr>, an_junk = zero_msg,
      an_stack = replicate 1024 0, an_timedout = False\<rparr> (?s1\<lparr>th_dpc := D_done, th_ipc_done := True\<rparr>)"
    using demo_daemon(2) [OF d]
    by (simp add: answers_ok_def threads_start_def io_fresh_def stack_ok_def zero_msg_def MAX_DATA_def)
  from threads_reach.reactor [OF r this] f
  have "?run (?s1\<lparr>th_dpc := D_done, th_ipc_done := True, th_rpc := R_done\<rparr>)"
    by (simp add: reactor_step_def threads_start_def)
  then have r: "?run (main_step ?obs (main_step ?obs (main_step ?obs (main_step ?obs
      (?s1\<lparr>th_dpc := D_done, th_ipc_done := True, th_rpc := R_done\<rparr>)))))"
    by (intro threads_reach.main)
  have "th_mpc (main_step ?obs (main_step ?obs (main_step ?obs (main_step ?obs
      (?s1\<lparr>th_dpc := D_done, th_ipc_done := True, th_rpc := R_done\<rparr>))))) = M_exit"
    using f by (simp add: main_step_def threads_start_def)
  with main_exits_last [OF r this] d r show ?thesis by blast
qed

text \<open>On the reactor alone: a client closes, and a connection on a server takes its memory.\<close>

lemma close_then_accept:
  assumes "handlers_ok pt" and "config_ok (g_config (rt r))" and "reactor_inv r" and "stack_ok junk stack"
    and "epoll r d = Some (Heap_port a)" and "epoll r e = Some srv"
    and "t \<in> set (g_port_table (rt r))" and "used t" and "e_port t = Some (Heap_port a)"
    and "deref (rt r) srv = Some server" and "p_type server = PORT_TCP_SERVER"
    and "io_fresh closing r" and "io_read closing = []"
    and "io_calloc opening = Some a" and "0 \<le> io_accept opening"
    and "io_accept opening = d \<or> io_accept opening \<notin> open_fds r"
  shows "\<exists>r1 r3. handle_event pt junk stack (Heap_port a) closing r = Some (r1, [])
    \<and> heap (rt r1) a = None \<and> io_fresh opening r1
    \<and> handle_event pt junk' stack' srv opening r1 = Some (r3, [])
    \<and> heap (rt r3) a = Some (accepted_port PORT_TCP_CLIENT (p_name server) (io_accept opening))
    \<and> table_valid (rt r3)"
proof -
  let ?p = "accepted_port PORT_TCP_CLIENT (p_name server) (io_accept opening)"
  from client_closed [OF assms(3,7-9,13)] obtain r1 where
    r1: "handle_event pt junk stack (Heap_port a) closing r = Some (r1, [])" "heap (rt r1) a = None" by blast
  have w: "watched_ok (rt r) (epoll r)" using assms(3) by (simp add: reactor_inv_def)
  from watched_okD [OF w assms(5)] obtain q where q: "heap (rt r) a = Some q" "p_fd q = d" "client_type (p_type q)"
    by auto
  have "srv \<noteq> Heap_port a" using assms(10,11) q by (auto simp: client_type_def)
  from handle_event_keeps [OF r1(1) assms(3,12,5) _ assms(6,10)] this
  have srv: "deref (rt r1) srv = Some server" by blast
  have "open_fds r1 = open_fds r - {d}"
    using r1(1) q assms(13)
    by (auto simp: handle_event_def client_type_def close_port_def Let_def split: bind_splits option.splits)
  then have fresh: "io_fresh opening r1" using assms(14,16) r1(2) by (auto simp: io_fresh_def)
  have "reactor_inv r1"
    using handle_event_ok [OF assms(1,2,4,3,5,12)] r1(1) by auto
  moreover have "epoll r1 e = Some srv"
    using handle_event_keeps [OF r1(1) assms(3,12,5) _ assms(6,10)] \<open>srv \<noteq> Heap_port a\<close> by blast
  ultimately have "0 \<le> epfd r1" by (rule reactor_inv_watching(1))
  from accept_client_ok [OF \<open>reactor_inv r1\<close> fresh _ this, of PORT_TCP_CLIENT server] obtain r3 where
    r3: "accept_client PORT_TCP_CLIENT server opening r1 = Some r3" "reactor_inv r3"
    by (auto simp: client_type_def)
  from r3(1) have "reactor_add_port (Heap_port a) (r1\<lparr>open_fds := insert (io_accept opening) (open_fds r1),
      rt := (rt r1)\<lparr>heap := (heap (rt r1))(a \<mapsto> ?p)\<rparr>\<rparr>) = Some r3"
    using assms(14,15) by (simp add: accept_client_def Let_def)
  from add_port_keeps [OF this] have "heap (rt r3) a = Some ?p" by simp
  with r1 fresh r3 reactor_inv_table [OF r3(2)] srv assms(11) show ?thesis
    by (intro exI [of _ r1] exI [of _ r3]) (simp add: handle_event_def)
qed

text \<open>
  C17. A message can crash the daemon or go to the wrong client. The dispatcher has found the port
  of a client and is about to send. The client closes: sending now uses freed memory. If instead
  the reactor first handles the next event of the batch, a connection on a TCP server whose port
  \<open>calloc\<close> puts at the address just freed (the new descriptor may be the one just closed), then
  the dispatcher sends the message, in full, to the client that has just connected, whatever
  its name is. The reactor's steps are all as the code intends.
\<close>

theorem reused_memory_misdelivers:
  assumes "handlers_ok pt" and "config_ok c" and "threads_inv c s"
    and "th_dpc s = D_send m (Heap_port a)" and "th_rpc s = R_events [(d, Heap_port a), (e, srv)]"
    and "t \<in> set (g_port_table (rt (th_reactor s)))" and "used t" and "e_port t = Some (Heap_port a)"
    and "deref (rt (th_reactor s)) srv = Some server" and "p_type server = PORT_TCP_SERVER"
    and "answers_ok closing s" and "io_read (an_io closing) = []"
    and "io_calloc (an_io opening) = Some a" and "0 \<le> io_accept (an_io opening)"
    and "io_accept (an_io opening) = d \<or> io_accept (an_io opening) \<notin> open_fds (th_reactor s)"
  shows "\<exists>s1 s2 s3 s4. reactor_step pt closing s = Some s1 \<and> dispatcher_step wr s1 = None
    \<and> reactor_step pt closing s1 = Some s2
    \<and> io_fresh (an_io opening) (th_reactor s2) \<and> reactor_step pt opening s2 = Some s3
    \<and> dispatcher_step wr s3 = Some s4
    \<and> th_log s4 = th_log s @ [(m, accepted_port PORT_TCP_CLIENT (p_name server) (io_accept (an_io opening)),
        [(io_accept (an_io opening), msg_bytes m)])]"
proof -
  let ?f = "io_accept (an_io opening)"
  let ?p = "accepted_port PORT_TCP_CLIENT (p_name server) ?f"
  from assms(3) have sides: "reactor_side c s" "queue_side s" "dispatcher_side s" by (simp_all add: threads_inv_def)
  then have r: "config_ok (g_config (rt (th_reactor s)))" "reactor_inv (th_reactor s)"
    "epoll (th_reactor s) d = Some (Heap_port a)" "epoll (th_reactor s) e = Some srv"
    using assms(2,5) by (simp_all add: reactor_side_def)
  have ans: "stack_ok (an_junk closing) (an_stack closing)" "io_fresh (an_io closing) (th_reactor s)"
    using assms(11) by (simp_all add: answers_ok_def)
  from close_then_accept [OF assms(1) r(1,2) ans(1) r(3,4) assms(6-10) ans(2) assms(12-15)] obtain r1 r3 where
    e1: "handle_event pt (an_junk closing) (an_stack closing) (Heap_port a) (an_io closing) (th_reactor s) = Some (r1, [])"
      "heap (rt r1) a = None" "io_fresh (an_io opening) r1"
    and e3: "handle_event pt (an_junk opening) (an_stack opening) srv (an_io opening) r1 = Some (r3, [])"
      "heap (rt r3) a = Some ?p" "table_valid (rt r3)" by blast
  let ?s1 = "s\<lparr>th_reactor := r1, th_rpc := R_push [] [(e, srv)]\<rparr>"
  let ?s2 = "s\<lparr>th_reactor := r1, th_rpc := R_events [(e, srv)]\<rparr>"
  let ?s3 = "s\<lparr>th_reactor := r3, th_rpc := R_push [] []\<rparr>"
  have reactor: "reactor_step pt closing s = Some ?s1" "reactor_step pt closing ?s1 = Some ?s2"
    "reactor_step pt opening ?s2 = Some ?s3"
    using assms(5) e1(1) e3(1) by (simp_all add: reactor_step_def)
  have dead: "dispatcher_step wr ?s1 = None" using assms(4) e1(2) by (simp add: dispatcher_step_def)
  have "msg_ok m" using current_msg_ok [OF sides(2,3)] assms(4) by simp
  from port_send_live [OF e3(3) _ msg_ok_write [OF this], of "Heap_port a" ?p wr] e3(2) assms(14)
  obtain rc where "port_send wr (rt r3) (Some (Heap_port a)) (msg_data m) (msg_len m) = Some (rc, [(?f, msg_bytes m)])"
    by (auto simp: accepted_port_def)
  with assms(4) e3(2) have "dispatcher_step wr ?s3 =
      Some (?s3\<lparr>th_dpc := D_test, th_log := th_log s @ [(m, ?p, [(?f, msg_bytes m)])]\<rparr>)"
    by (simp add: dispatcher_step_def)
  with reactor dead e1(3) show ?thesis by auto
qed

text \<open>A TCP server A on descriptor 9, and a client B on descriptor 6 that a message is for.\<close>

definition server_config :: config where
  "server_config = snd (load_config (\<lambda>txt. Some (CJObject
     [(bytes ''ports'', CJArray [CJObject
         [(bytes ''name'', CJString (bytes ''A'')), (bytes ''type'', CJString (bytes ''tcp_server''))]])])) (Some []))"

definition server_port_A :: port_def where
  "server_port_A = (ports server_config ! 0)\<lparr>p_fd := 9\<rparr>"

definition late_reactor :: reactor where
  "late_reactor = \<lparr>
     rt = \<lparr>g_config = server_config\<lparr>ports := (ports server_config)[0 := server_port_A]\<rparr>,
       heap = [8 \<mapsto> zero_port\<lparr>p_name := strncpy (replicate 32 0) (bytes ''B'') 31, p_type := PORT_TCP_CLIENT, p_fd := 6\<rparr>],
       g_port_table = [\<lparr>used = True, e_fd = 9, e_port = Some (Cfg_port 0)\<rparr>,
                       \<lparr>used = True, e_fd = 6, e_port = Some (Heap_port 8)\<rparr>]\<rparr>,
     epfd = 3, epoll = [9 \<mapsto> Cfg_port 0, 6 \<mapsto> Heap_port 8], open_fds = {3, 6, 9}\<rparr>"

definition late_msg :: event_msg where
  "late_msg = zero_msg\<lparr>msg_dst := strncpy (replicate 32 0) (bytes ''B'') 31, msg_len := 2,
     msg_data := [1, 2] @ replicate 1022 0\<rparr>"

definition late_threads :: threads where
  "late_threads = \<lparr>th_run = run_state_static, th_reactor = late_reactor,
     th_rpc = R_events [(6, Heap_port 8), (9, Cfg_port 0)],
     th_queue = \<lparr>ring = queue_static, waiting = [], submitted = [late_msg], stored = [late_msg],
       dropped = [], popped = [late_msg]\<rparr>,
     th_dpc = D_send late_msg (Heap_port 8), th_log = [], th_mpc = M_loop, th_ipc_done = False, th_stale = []\<rparr>"

lemma server_config_port:
  "p_type server_port_A = PORT_TCP_SERVER" "cstr (p_name server_port_A) = bytes ''A''" "p_fd server_port_A = 9"
  "no_static_clients (server_config\<lparr>ports := (ports server_config)[0 := server_port_A]\<rparr>)"
  by code_simp+

lemma late_config_ok: "config_ok (server_config\<lparr>ports := (ports server_config)[0 := server_port_A]\<rparr>)"
proof -
  have c: "config_ok server_config" unfolding server_config_def by (rule config_ok_load_config)
  then have "port_ok (ports server_config ! 0)" by (simp add: config_ok_def MAX_PORTS_def)
  then have "port_ok server_port_A" by (simp add: port_ok_def server_port_A_def)
  with c show ?thesis by (auto simp: config_ok_def dest: in_set_updateD)
qed

lemma late_threads_inv:
  "threads_inv (server_config\<lparr>ports := (ports server_config)[0 := server_port_A]\<rparr>) late_threads"
proof -
  let ?c = "server_config\<lparr>ports := (ports server_config)[0 := server_port_A]\<rparr>"
  have "length (ports ?c) = 32" using late_config_ok by (simp add: config_ok_def MAX_PORTS_def)
  then have d: "deref (rt late_reactor) (Cfg_port 0) = Some server_port_A" by (simp add: late_reactor_def)
  have "watched_ok (rt late_reactor) (epoll late_reactor)"
    using d server_config_port(1,3)
    by (auto simp: watched_ok_def late_reactor_def client_type_def split: if_splits)
  moreover have "entries_ok (g_port_table (rt late_reactor)) (epoll late_reactor)"
    by (simp add: entries_ok_def late_reactor_def nth_Cons')
  ultimately have "reactor_inv late_reactor"
    using server_config_port(4) by (simp add: reactor_inv_def late_reactor_def)
  moreover have "msg_ok late_msg"
    by (simp add: msg_ok_def late_msg_def zero_msg_def MAX_DATA_def)
  ultimately show ?thesis
    using queue_static_empty
    by (simp add: threads_inv_def side_defs late_threads_def sys_inv_def) (simp add: late_reactor_def)
qed

theorem reused_memory_misdelivers_witness:
  "\<exists>p. cstr (p_name p) = bytes ''A'' \<and> cstr (msg_dst late_msg) = bytes ''B''
     \<and> (\<exists>closing opening s1 s2 s3 s4. reactor_step plugin_static closing late_threads = Some s1
          \<and> reactor_step plugin_static closing s1 = Some s2 \<and> reactor_step plugin_static opening s2 = Some s3
          \<and> dispatcher_step (\<lambda>d b. 2) s3 = Some s4 \<and> th_log s4 = [(late_msg, p, [(6, [1, 2])])])"
proof -
  let ?p = "accepted_port PORT_TCP_CLIENT (p_name server_port_A) 6"
  let ?closing = "\<lparr>an_events = [], an_io = \<lparr>io_accept = -1, io_calloc = Some 0, io_read = []\<rparr>, an_junk = zero_msg,
    an_stack = replicate 1024 0, an_timedout = False\<rparr>"
  let ?opening = "?closing\<lparr>an_io := \<lparr>io_accept = 6, io_calloc = Some 8, io_read = []\<rparr>\<rparr>"
  let ?t = "\<lparr>used = True, e_fd = 6, e_port = Some (Heap_port 8)\<rparr>"
  have "length (ports server_config) = 32"
    using late_config_ok by (simp add: config_ok_def MAX_PORTS_def)
  then have d: "deref (rt (th_reactor late_threads)) (Cfg_port 0) = Some server_port_A"
    by (simp add: late_threads_def late_reactor_def)
  have a: "answers_ok ?closing late_threads"
    by (simp add: answers_ok_def late_threads_def late_reactor_def io_fresh_def stack_ok_def zero_msg_def MAX_DATA_def)
  have dst: "cstr (msg_dst late_msg) = bytes ''B''" by code_simp
  have name: "cstr (p_name ?p) = bytes ''A''" by code_simp
  have "msg_bytes late_msg = [1, 2]" by (simp add: msg_bytes_def late_msg_def)
  with reused_memory_misdelivers [OF plugin_static_ok late_config_ok late_threads_inv _ _ _ _ _ d server_config_port(1) a,
      of late_msg 8 6 9 ?t ?opening "\<lambda>d b. 2"]
  have "\<exists>s1 s2 s3 s4. reactor_step plugin_static ?closing late_threads = Some s1
    \<and> reactor_step plugin_static ?closing s1 = Some s2 \<and> reactor_step plugin_static ?opening s2 = Some s3
    \<and> dispatcher_step (\<lambda>d b. 2) s3 = Some s4 \<and> th_log s4 = [(late_msg, ?p, [(6, [1, 2])])]"
    by (simp add: late_threads_def late_reactor_def) blast
  with dst name show ?thesis by blast
qed

end
