(* ===== verification/Clients.thy ===== *)
theory Clients
  imports Protocol CString
begin

text \<open>
  Two child programs of the router, kept in its repository to exercise the control plane by
  hand: \<^verbatim>\<open>tests/unit/smoke_ipc_client.c\<close> registers, checks the acknowledgement and sends one
  heartbeat; \<^verbatim>\<open>tests/unit/smoke_supervised_child.c\<close> registers and sends heartbeats until it is
  told to stop. What the operating system answers is an input; the outputs are the exit code
  and the bytes that reached the socket. \<open>None\<close> is an access outside an array. Local arrays
  start with any contents.
\<close>

section \<open>smoke\_ipc\_client\<close>

text \<open>
  The answers of \<open>socket\<close>, of \<open>connect\<close>, of the two calls of \<open>send\<close>, and the bytes \<open>recv\<close>
  puts into the buffer of 256 (none at an error or the end of file).
\<close>

record peer_env =
  pe_socket :: int
  pe_connect :: int
  pe_send :: "nat \<Rightarrow> int"
  pe_recv :: "u8 list"

definition smoke_json :: "u8 list" where
  "smoke_json = bytes (''{\"device_id\":\"SMOKE-1\",\"model\":\"smoke\",'' @
     ''\"fw_version\":\"0.0.1\",\"build_date\":\"2026-04-28\"}'')"

text \<open>\<open>memmem(hay, |hay|, needle, |needle|) != NULL\<close>.\<close>

definition memmem_found :: "u8 list \<Rightarrow> u8 list \<Rightarrow> bool" where
  "memmem_found hay needle \<longleftrightarrow>
     list_ex (\<lambda>i. take (length needle) (drop i hay) = needle) [0..<Suc (length hay)]"

definition init_hdr :: "proto_cmd \<Rightarrow> u32 \<Rightarrow> u32 \<Rightarrow> proto_frame_hdr" where
  "init_hdr c s n = \<lparr>magic = 0, version = 0, cmd = cmd_code c, seq = s, payload_len = n\<rparr>"

text \<open>The exit code of the checks on the acknowledgement, 0 if they pass.\<close>

definition smoke_check_ack :: "u8 list \<Rightarrow> u8 list \<Rightarrow> int option" where
  "smoke_check_ack ack_buf got =
     (if got = [] then Some 5
      else do {
        ack_buf \<leftarrow> memcpy ack_buf 0 got (length got);
        dr \<leftarrow> proto_decode ack_buf (word_of_nat (length got));
        Some (case dr of
            Inl e \<Rightarrow> 6
          | Inr (ack_hdr, ack_pl, dr) \<Rightarrow>
              if cmd ack_hdr \<noteq> cmd_code PROTO_REGISTER_ACK then 7
              else if seq ack_hdr \<noteq> 42 then 8
              else if \<not> memmem_found (take (unat (payload_len ack_hdr)) (drop ack_pl ack_buf)) (bytes ''true'')
              then 9 else 0) })"

definition smoke_ipc_client :: "peer_env \<Rightarrow> u8 list \<Rightarrow> u8 list \<Rightarrow> (int \<times> u8 list) option" where
  "smoke_ipc_client E frame ack_buf =
     (if pe_socket E < 0 then Some (1, [])
      else if pe_connect E < 0 then Some (2, [])
      else do {
        enc \<leftarrow> proto_encode (init_hdr PROTO_REGISTER 42 (word_of_nat (c_strlen smoke_json))) smoke_json frame 256;
        case enc of
          Inl e \<Rightarrow> Some (3, [])
        | Inr (n, frame) \<Rightarrow>
            let out = take (nat (pe_send E 0)) (take (nat n) frame) in
            if pe_send E 0 \<noteq> n then Some (4, out)
            else do {
              rc \<leftarrow> smoke_check_ack ack_buf (pe_recv E);
              if rc \<noteq> 0 then Some (rc, out)
              else do {
                enc \<leftarrow> proto_encode (init_hdr PROTO_HEARTBEAT 43 0) [] frame 256;
                case enc of
                  Inl e \<Rightarrow> None
                | Inr (hn, frame) \<Rightarrow>
                    let out = out @ take (nat (pe_send E 1)) (take (nat hn) frame) in
                    Some (if pe_send E 1 \<noteq> hn then 10 else 0, out) } } })"

section \<open>smoke\_supervised\_child\<close>

definition child_json :: "u8 list \<Rightarrow> u8 list" where
  "child_json device_id = bytes ''{\"device_id\":\"'' @ cstr device_id @
     bytes (''\",\"model\":\"smoke-sup\",'' @ ''\"fw_version\":\"0.0.1\",\"build_date\":\"2026-04-28\"}'')"

text \<open>The heartbeat loop: what \<open>send\<close> answers each time \<open>g_running\<close> is still set.\<close>

fun child_heartbeats :: "u32 \<Rightarrow> u8 list \<Rightarrow> int list \<Rightarrow> u8 list option" where
  "child_heartbeats sq frame [] = Some []"
| "child_heartbeats sq frame (r # rs) = do {
     enc \<leftarrow> proto_encode (init_hdr PROTO_HEARTBEAT sq 0) [] frame 512;
     case enc of
       Inl e \<Rightarrow> None
     | Inr (hn, frame) \<Rightarrow>
         if r \<noteq> hn then Some (take (nat r) (take (nat hn) frame))
         else do {
           rest \<leftarrow> child_heartbeats (sq + 1) frame rs;
           Some (take (nat hn) frame @ rest) } }"

text \<open>
  \<open>device_id\<close> is the first argument of the program; \<open>r0\<close> is the answer of the first \<open>send\<close>.
  The acknowledgement is read and ignored.
\<close>

definition supervised_child ::
    "u8 list option \<Rightarrow> int \<Rightarrow> int \<Rightarrow> int \<Rightarrow> int list \<Rightarrow> u8 list \<Rightarrow> u8 list \<Rightarrow> (int \<times> u8 list) option" where
  "supervised_child arg sock conn r0 rs json frame =
     (let device_id = (case arg of Some a \<Rightarrow> a | None \<Rightarrow> bytes ''SMOKE-SUP-1'') in
      if sock < 0 then Some (1, [])
      else if conn < 0 then Some (2, [])
      else
        let t = child_json device_id; jl = length t;
            json = snprintf_into json 256 t;
            hdr = init_hdr PROTO_REGISTER 1 (word_of_nat jl)
        in do {
          enc \<leftarrow> proto_encode hdr json frame 512;
          case enc of
            Inl e \<Rightarrow> Some (3, [])
          | Inr (n, frame) \<Rightarrow>
              let out = take (nat r0) (take (nat n) frame) in
              if r0 \<noteq> n then Some (4, out)
              else do {
                hbs \<leftarrow> child_heartbeats 2 frame rs;
                Some (0, out @ hbs) } })"

section \<open>What the programs send\<close>

lemma init_hdr_sel [simp]:
  "cmd (init_hdr c s n) = cmd_code c" "seq (init_hdr c s n) = s" "payload_len (init_hdr c s n) = n"
  by (simp_all add: init_hdr_def)

lemma total_len_init: "total_len (init_hdr c s n) = PROTO_HDR_SIZE + unat n"
  by (simp add: total_len_def)

text \<open>A heartbeat on the wire, and the frame a reader makes of it.\<close>

definition hb_frame :: "u32 \<Rightarrow> u8 list" where
  "hb_frame sq = frame_bytes (init_hdr PROTO_HEARTBEAT sq 0) []"

lemma length_hb_frame: "length (hb_frame sq) = 12"
  unfolding hb_frame_def by (subst frame_bytes_length) (simp_all add: total_len_init PROTO_HDR_SIZE_def)

lemma encode_heartbeat:
  assumes "unat cap \<le> length frame" and "12 \<le> unat cap"
  shows "proto_encode (init_hdr PROTO_HEARTBEAT sq 0) [] frame cap =
    Some (Inr (12, hb_frame sq @ drop 12 frame))"
  using proto_encode_eq [OF assms(1), of "init_hdr PROTO_HEARTBEAT sq 0" "[]"] assms(2)
  by (simp add: total_len_init PROTO_HDR_SIZE_def hb_frame_def)

lemma decode_hb_frame:
  "decode_bytes (hb_frame sq @ rest) = Inr (wire_hdr (init_hdr PROTO_HEARTBEAT sq 0), [])"
  unfolding hb_frame_def by (subst decode_frame_bytes) simp_all

text \<open>A loop whose sends are all complete sends numbered heartbeats.\<close>

lemma child_heartbeats_eq:
  "length frame = 512 \<Longrightarrow> child_heartbeats sq frame (replicate k 12) =
     Some (concat (map (\<lambda>i. hb_frame (sq + word_of_nat i)) [0..<k]))"
proof (induction k arbitrary: sq frame)
  case 0
  then show ?case by simp
next
  case (Suc k)
  let ?f = "hb_frame sq @ drop 12 frame"
  have len: "length ?f = 512" using Suc.prems by (simp add: length_hb_frame)
  have enc: "proto_encode (init_hdr PROTO_HEARTBEAT sq 0) [] frame 512 = Some (Inr (12, ?f))"
    using Suc.prems by (simp add: encode_heartbeat)
  have "map (\<lambda>i. hb_frame (sq + word_of_nat i)) [0..<Suc k] =
      hb_frame sq # map (\<lambda>i. hb_frame (sq + 1 + word_of_nat i)) [0..<k]"
    by (simp add: upt_conv_Cons map_Suc_upt [symmetric] add.assoc del: upt_Suc)
  with enc Suc.IH [OF len, of "sq + 1"] show ?case
    by (simp add: length_hb_frame)
qed

lemma length_child_json: "length (child_json d) = 83 + length (cstr d)"
  by (simp add: child_json_def bytes_def)

definition child_register :: "u8 list \<Rightarrow> u8 list" where
  "child_register d =
     frame_bytes (init_hdr PROTO_REGISTER 1 (word_of_nat (length (child_json d)))) (child_json d)"

text \<open>The registration fits its array: then the whole text is sent.\<close>

lemma supervised_child_sends:
  assumes "length (cstr d) \<le> 172" and "length frame = 512" and "length json = 256" and "0 \<le> sock" and "0 \<le> conn"
  shows "supervised_child (Some d) sock conn (int (95 + length (cstr d))) (replicate k 12) json frame =
    Some (0, child_register d @ concat (map (\<lambda>i. hb_frame (2 + word_of_nat i)) [0..<k]))"
proof -
  let ?t = "child_json d" and ?h = "init_hdr PROTO_REGISTER 1 (word_of_nat (length (child_json d)))"
  let ?json = "snprintf_into json 256 ?t"
  have l: "length ?t \<le> 255" using assms(1) by (simp add: length_child_json)
  then have u: "unat (payload_len ?h) = length ?t" by (simp add: unat_of_nat)
  have j: "take (length ?t) ?json = ?t" "length ?t \<le> length ?json"
    using l assms(3) by (simp_all add: snprintf_into_def min_def Let_def)
  have f: "frame_bytes ?h ?json = child_register d"
    unfolding frame_bytes_def child_register_def u by (simp add: j(1))
  have len: "length (child_register d) = 95 + length (cstr d)"
    unfolding child_register_def
    by (subst frame_bytes_length) (use u in \<open>simp_all add: total_len_def PROTO_HDR_SIZE_def length_child_json\<close>)
  have "proto_encode ?h ?json frame 512 = Some (Inr (int (95 + length (cstr d)), child_register d @ drop (95 + length (cstr d)) frame))"
    using proto_encode_eq [of 512 frame ?h ?json] assms(1,2) j(2) u f
    by (simp add: total_len_def PROTO_HDR_SIZE_def length_child_json)
  with assms len show ?thesis
    by (simp add: supervised_child_def Let_def child_heartbeats_eq)
qed

text \<open>
  An argument too long for \<open>json[256]\<close>: \<open>snprintf\<close> cuts the text but returns its whole
  length, which becomes the length of the payload, so the encoder reads behind the array.
\<close>

lemma proto_encode_overread:
  assumes "length payload < unat (payload_len h)" and "unat (payload_len h) \<le> 65536"
    and "total_len h \<le> unat cap" and "unat cap \<le> length buf"
  shows "proto_encode h payload buf cap = None"
proof (rule ccontr)
  assume "proto_encode h payload buf cap \<noteq> None"
  then obtain x where x: "proto_encode h payload buf cap = Some x" by auto
  have "x = Inr (n, out) \<Longrightarrow> False" for n out
    using proto_encode_InrD(4) [of h payload buf cap n out] x assms(1) by simp
  moreover have "x = Inl e \<Longrightarrow> False" for e
    using x assms(2,3)
    by (auto simp: proto_encode_def payload_bound' size_less_iff total_len_def Let_def split: if_splits bind_splits)
  ultimately show False by (cases x) auto
qed

lemma supervised_child_long_id:
  assumes "173 < length (cstr d)" and "length (cstr d) \<le> 60000" and "length frame = 512" and "length json = 256"
    and "0 \<le> sock" and "0 \<le> conn"
  shows "supervised_child (Some d) sock conn r0 rs json frame =
    (if length (cstr d) \<le> 417 then None else Some (3, []))"
proof -
  let ?t = "child_json d" and ?h = "init_hdr PROTO_REGISTER 1 (word_of_nat (length (child_json d)))"
  let ?json = "snprintf_into json 256 ?t"
  have l: "256 < length ?t" "length ?t \<le> 65536" using assms(1,2) by (simp_all add: length_child_json)
  then have u: "unat (payload_len ?h) = length ?t" by (simp add: unat_of_nat)
  have j: "length ?json = 256" using l(1) assms(4) by (simp add: snprintf_into_def Let_def min_def)
  have tot: "total_len ?h = 95 + length (cstr d)"
    using u by (simp add: total_len_def PROTO_HDR_SIZE_def length_child_json)
  have "proto_encode ?h ?json frame 512 = (if length (cstr d) \<le> 417 then None else Some (Inl BUF_TOO_SMALL))"
  proof (cases "length (cstr d) \<le> 417")
    case True
    then show ?thesis
      using proto_encode_overread [of ?json ?h 512 frame] u l j tot assms(3) by simp
  next
    case False
    have "\<not> payload_len ?h > PROTO_MAX_PAYLOAD" using u l(2) by (simp add: payload_bound')
    moreover have "(512 :: u64) < frame_size (payload_len ?h)"
      using size_less_iff [of "payload_len ?h" 512] u l(2) False tot by (simp add: total_len_def)
    ultimately show ?thesis using False by (simp add: proto_encode_def)
  qed
  with assms(5,6) show ?thesis by (simp add: supervised_child_def Let_def)
qed

section \<open>The check of the acknowledgement\<close>

lemma c_strlen_smoke_json: "c_strlen smoke_json = 86" "length smoke_json = 86" "cstr smoke_json = smoke_json"
  by code_simp+

definition smoke_register :: "u8 list" where
  "smoke_register = frame_bytes (init_hdr PROTO_REGISTER 42 86) smoke_json"

lemma length_smoke_register: "length smoke_register = 98"
  unfolding smoke_register_def
  by (subst frame_bytes_length) (simp_all add: total_len_init PROTO_HDR_SIZE_def c_strlen_smoke_json)

lemma smoke_ipc_client_sends:
  assumes "length frame = 256" and "0 \<le> pe_socket E" and "0 \<le> pe_connect E"
    and "pe_send E 0 = 98" and "pe_send E 1 = 12" and "smoke_check_ack ack_buf (pe_recv E) = Some rc"
  shows "smoke_ipc_client E frame ack_buf =
    Some (rc, smoke_register @ (if rc = 0 then hb_frame 43 else []))"
proof -
  have e1: "proto_encode (init_hdr PROTO_REGISTER 42 (word_of_nat (c_strlen smoke_json))) smoke_json frame 256 =
      Some (Inr (98, smoke_register @ drop 98 frame))"
    using proto_encode_eq [of 256 frame "init_hdr PROTO_REGISTER 42 86" smoke_json] assms(1)
    by (simp add: c_strlen_smoke_json total_len_init PROTO_HDR_SIZE_def smoke_register_def)
  have e2: "proto_encode (init_hdr PROTO_HEARTBEAT 43 0) [] (smoke_register @ drop 98 frame) 256 =
      Some (Inr (12, hb_frame 43 @ drop 12 (smoke_register @ drop 98 frame)))"
    by (rule encode_heartbeat) (simp_all add: assms(1) length_smoke_register)
  show ?thesis
    using assms(2-6) e1 e2 by (simp add: smoke_ipc_client_def length_smoke_register length_hb_frame Let_def)
qed

end
