(* ===== verification/ControlPlane.thy ===== *)
theory ControlPlane
  imports IpcServer Supervisor Clients
begin

text \<open>
  The control plane as a whole: what a connection of the IPC server (\<open>IpcServer\<close>), from the
  bytes on the socket through the codec, the dispatcher and the table of child programs,
  promises to a child program and to the supervisor that checks the heartbeats. The
  specification is a small machine on the map from connections to metadata; the detailed
  definitions are proved to implement it.
\<close>

section \<open>The specification\<close>

text \<open>What one frame does to the directory of child programs, and how it is answered.\<close>

type_synonym child_map = "int \<rightharpoonup> subproc_meta \<times> u64"

definition frame_spec ::
    "json_parser \<Rightarrow> timespec \<Rightarrow> int \<Rightarrow> proto_frame_hdr \<times> u8 list \<Rightarrow> child_map \<Rightarrow> child_map \<times> u8 list" where
  "frame_spec P ts fd f M =
     (case f of (h, p) \<Rightarrow>
        if cmd h = 0x01 then
          (case register_meta P p of
             Some m \<Rightarrow>
               if refuse_spec fd (meta_device_id m) M then (M, ack_frame (seq h) False)
               else (M(fd \<mapsto> (m, registry_now_ms ts)), ack_frame (seq h) True)
           | None \<Rightarrow> (M, ack_frame (seq h) False))
        else if cmd h = 0x03 then (M(fd := map_option (set_stamp ts) (M fd)), [])
        else (M, []))"

text \<open>A connection: frame number \<open>k\<close> is handled at the k-th reading of the clock.\<close>

fun child_spec ::
    "conn_env \<Rightarrow> int \<Rightarrow> nat \<Rightarrow> (proto_frame_hdr \<times> u8 list) list \<Rightarrow> child_map \<times> u8 list \<Rightarrow>
       child_map \<times> u8 list" where
  "child_spec env fd k [] (M, out) = (M, out)"
| "child_spec env fd k (f # fs) (M, out) =
     (case frame_spec (env_parser env) (env_clock env k) fd f M of
        (M', answer) \<Rightarrow> child_spec env fd (Suc k) fs (M', out @ answer))"

text \<open>A peer whose socket takes an acknowledgement at once.\<close>

definition env_prompt :: "conn_env \<Rightarrow> bool" where
  "env_prompt env \<longleftrightarrow> (\<forall>k. \<exists>n ws. env_send env k = Wrote n # ws \<and> 24 \<le> n)"

section \<open>The server implements the specification\<close>

lemma send_ack_prompt:
  assumes "24 \<le> n"
  shows "send_register_ack s ok (Wrote n # ws) = Some (0, ack_frame s ok, ws)"
proof -
  let ?l = "length (ack_frame s ok)"
  have l: "0 < ?l" "?l \<le> 24" by (simp_all add: length_ack_frame)
  have "send_nonblock_retry (ack_frame s ok) ?l 0 ws = Some (int ?l, ?l, ws)" by (cases ws) simp_all
  moreover have "min n ?l = ?l" using l(2) assms by simp
  ultimately have "send_nonblock_retry (ack_frame s ok) 0 0 (Wrote n # ws) = Some (int ?l, ?l, ws)"
    using l assms by simp
  then show ?thesis by (simp add: send_register_ack_eq)
qed

lemma dispatch_spec:
  assumes "reg_inv r" and "frame_ok h p" and "proto_dispatch P ts fd h p r ws = Some d"
  shows "reg_inv (d_registry d)" and "reg_entry (d_registry d) = fst (frame_spec P ts fd (h, p) (reg_entry r))"
    and "ws = Wrote n # ws' \<Longrightarrow> 24 \<le> n \<Longrightarrow> d_sent d = snd (frame_spec P ts fd (h, p) (reg_entry r))"
proof -
  have "reg_inv (d_registry d) \<and> reg_entry (d_registry d) = fst (frame_spec P ts fd (h, p) (reg_entry r))
    \<and> (ws = Wrote n # ws' \<and> 24 \<le> n \<longrightarrow> d_sent d = snd (frame_spec P ts fd (h, p) (reg_entry r)))"
  proof (cases "cmd h = 0x01")
    case False
    with assms show ?thesis
      by (auto simp: dispatch_other frame_spec_def dispatch_registry_def reg_touch_def
          reg_inv_heartbeat heartbeat_entry)
  next
    case True
    obtain rc where rc: "registry_register P ts fd p (int (length p)) r = Some (rc, dispatch_registry P ts fd h p r)"
      "proto_dispatch P ts fd h p r ws =
        map_option (\<lambda>(a, out, ws'). \<lparr>d_rc = 0, d_registry = dispatch_registry P ts fd h p r,
          d_sent = out, d_answers = ws'\<rparr>) (send_register_ack (seq h) (rc = 0) ws)"
      by (rule dispatch_register [OF assms(1,2) True])
    have d: "d_registry d = dispatch_registry P ts fd h p r"
      using rc(2) assms(3) by (cases "send_register_ack (seq h) (rc = 0) ws") auto
    have s: "d_sent d = ack_frame (seq h) (rc = 0)" if "ws = Wrote n # ws'" "24 \<le> n"
      using rc(2) assms(3) that by (auto simp: send_ack_prompt)
    show ?thesis
      using register_entry [OF assms(1), of P ts fd p] rc(1) d s True
      by (auto simp: frame_spec_def split: option.splits if_splits)
  qed
  then show "reg_inv (d_registry d)" "reg_entry (d_registry d) = fst (frame_spec P ts fd (h, p) (reg_entry r))"
    "ws = Wrote n # ws' \<Longrightarrow> 24 \<le> n \<Longrightarrow> d_sent d = snd (frame_spec P ts fd (h, p) (reg_entry r))" by blast+
qed

lemma conn_effect_spec:
  assumes "reg_inv r" and "\<And>h p. (h, p) \<in> set fs \<Longrightarrow> frame_ok h p"
    and "conn_effect env fd k fs (r, out) = Some (r', out')"
  shows "reg_inv r' \<and> reg_entry r' = fst (child_spec env fd k fs (reg_entry r, out))
    \<and> (env_prompt env \<longrightarrow> out' = snd (child_spec env fd k fs (reg_entry r, out)))"
  using assms
proof (induction fs arbitrary: k r out)
  case Nil
  then show ?case by simp
next
  case (Cons f fs)
  obtain h p where f: "f = (h, p)" by (cases f)
  have ok: "frame_ok h p" using Cons.prems(2) f by simp
  obtain d where d: "proto_dispatch (env_parser env) (env_clock env k) fd h p r (env_send env k) = Some d"
    "conn_effect env fd (Suc k) fs (d_registry d, out @ d_sent d) = Some (r', out')"
    using Cons.prems(3) f by (auto split: option.splits)
  let ?f = "frame_spec (env_parser env) (env_clock env k) fd (h, p) (reg_entry r)"
  note sp = dispatch_spec [OF Cons.prems(1) ok d(1)]
  have ih: "reg_inv r' \<and> reg_entry r' = fst (child_spec env fd (Suc k) fs (reg_entry (d_registry d), out @ d_sent d))
    \<and> (env_prompt env \<longrightarrow> out' = snd (child_spec env fd (Suc k) fs (reg_entry (d_registry d), out @ d_sent d)))"
    by (rule Cons.IH [OF sp(1) _ d(2)]) (simp add: Cons.prems(2))
  have fst_out: "fst (child_spec env fd j gs (M, o1)) = fst (child_spec env fd j gs (M, o2))" for j gs M o1 o2
    by (induction gs arbitrary: j M o1 o2) (auto split: prod.splits)
  have sent: "d_sent d = snd ?f" if "env_prompt env"
    using that sp(3) unfolding env_prompt_def by metis
  show ?case
    using ih sent sp(2) fst_out by (auto simp: f split: prod.splits) 
qed

lemma stream_frame_ok:
  assumes "split_stream decode_bytes frame_len INCOMPLETE bs = (fs, e, rest)" and "(h, p) \<in> set fs"
  shows "frame_ok h p"
proof -
  obtain ys where "decode_bytes ys = Inr (h, p)" using proto_stream.split_frames [OF assms] by blast
  from decode_bytes_InrD(3,5) [OF this] show ?thesis by (simp add: frame_ok_def)
qed

lemma conn_frame_ok: "conn_spec p evs = (fs, c) \<Longrightarrow> (h, x) \<in> set fs \<Longrightarrow> frame_ok h x"
  by (induction p evs arbitrary: fs c rule: conn_spec.induct)
     (auto split: if_splits prod.splits option.splits dest: stream_frame_ok)

lemma handle_client_spec:
  assumes "env_ok env" and "length junk = 65548" and "reg_inv r" and "conn_spec [] evs = (fs, closed)"
  shows "\<exists>s. handle_client env fd junk r evs = Some (closed, s) \<and> s_frames s = fs \<and> reg_inv (s_registry s)
    \<and> reg_entry (s_registry s) =
        (let M = fst (child_spec env fd 0 fs (reg_entry r, [])) in if closed then M(fd := None) else M)
    \<and> (env_prompt env \<longrightarrow> s_sent s = snd (child_spec env fd 0 fs (reg_entry r, [])))"
proof -
  have "length junk = IPC_RECV_BUF_SIZE" using assms(2) by (simp add: IPC_RECV_BUF_SIZE_eq)
  from handle_client_eq [OF assms(1) this assms(3,4), of fd] obtain s r1 where
    s: "handle_client env fd junk r evs = Some (closed, s)" "s_frames s = fs" "reg_inv (s_registry s)"
      "conn_effect env fd 0 fs (r, []) = Some (r1, s_sent s)"
      "s_registry s = (if closed then snd (registry_unregister fd r1) else r1)" by blast
  from conn_effect_spec [OF assms(3) conn_frame_ok [OF assms(4)] s(4)]
  have r1: "reg_inv r1" "reg_entry r1 = fst (child_spec env fd 0 fs (reg_entry r, []))"
    "env_prompt env \<longrightarrow> s_sent s = snd (child_spec env fd 0 fs (reg_entry r, []))" by auto
  have "reg_entry (s_registry s) =
      (let M = fst (child_spec env fd 0 fs (reg_entry r, [])) in if closed then M(fd := None) else M)"
    using s(5) unregister_entry(2) [OF r1(1), of fd] r1(2) by (simp add: Let_def)
  with s r1(3) show ?thesis by blast
qed

text \<open>The end of the connection after everything else.\<close>

lemma conn_spec_Eof: "conn_spec p evs = (fs, False) \<Longrightarrow> conn_spec p (evs @ [Eof]) = (fs, True)"
  by (induction p evs arbitrary: fs rule: conn_spec.induct)
     (auto split: if_splits prod.splits option.splits)

text \<open>A stream of whole frames, cut into pieces, is dispatched frame by frame.\<close>

lemma conn_spec_frames:
  assumes "\<And>b f. (b, f) \<in> set ws \<Longrightarrow> decode_bytes b = Inr f \<and> frame_len f = length b"
    and "list_all (\<lambda>c. c \<noteq> []) chunks" and "concat chunks = concat (map fst ws)"
  shows "conn_spec [] (map Data chunks) = (map snd ws, False)"
  using conn_spec_chunks [OF assms(2)] proto_stream.split_concat [OF decode_empty assms(1)]
  by (simp add: assms(3))

text \<open>The frames of a child: its registration and its heartbeats.\<close>

definition hb_hdr :: "u32 \<Rightarrow> proto_frame_hdr" where
  "hb_hdr sq = wire_hdr (init_hdr PROTO_HEARTBEAT sq 0)"

definition reg_hdr :: "u32 \<Rightarrow> u8 list \<Rightarrow> proto_frame_hdr" where
  "reg_hdr sq json = wire_hdr (init_hdr PROTO_REGISTER sq (word_of_nat (length json)))"

lemma hb_hdr_sel [simp]: "cmd (hb_hdr sq) = 0x03" "cmd (reg_hdr sq json) = 0x01" "seq (reg_hdr sq json) = sq"
  by (simp_all add: hb_hdr_def reg_hdr_def)

lemma hb_frame_decodes:
  "decode_bytes (hb_frame sq) = Inr (hb_hdr sq, []) \<and> frame_len (hb_hdr sq, [] :: u8 list) = length (hb_frame sq)"
  using decode_hb_frame [of sq "[]"]
  by (simp add: hb_hdr_def length_hb_frame total_len_init PROTO_HDR_SIZE_def)

lemma reg_frame_decodes:
  assumes "length json \<le> 65536"
  shows "decode_bytes (frame_bytes (init_hdr PROTO_REGISTER sq (word_of_nat (length json))) json) = Inr (reg_hdr sq json, json)
    \<and> frame_len (reg_hdr sq json, json) = length (frame_bytes (init_hdr PROTO_REGISTER sq (word_of_nat (length json))) json)"
proof -
  let ?h = "init_hdr PROTO_REGISTER sq (word_of_nat (length json))"
  have u: "unat (payload_len ?h) = length json" using assms by (simp add: unat_of_nat)
  then show ?thesis
    using decode_frame_bytes [of ?h json "[]"] frame_bytes_length [of ?h json] assms
    by (simp add: reg_hdr_def)
qed

text \<open>Heartbeats only move the time stamp of their own connection.\<close>

lemma child_spec_heartbeats:
  "M fd = Some (m, t) \<Longrightarrow>
     child_spec env fd k (map (\<lambda>sq. (hb_hdr sq, [])) sqs) (M, out) =
       (if sqs = [] then M else M(fd \<mapsto> (m, registry_now_ms (env_clock env (k + length sqs - 1)))), out)"
proof (induction sqs arbitrary: k M t)
  case Nil
  then show ?case by simp
next
  case (Cons sq sqs)
  let ?M = "M(fd \<mapsto> (m, registry_now_ms (env_clock env k)))"
  have "child_spec env fd k (map (\<lambda>sq. (hb_hdr sq, [])) (sq # sqs)) (M, out) =
      child_spec env fd (Suc k) (map (\<lambda>sq. (hb_hdr sq, [])) sqs) (?M, out)"
    using Cons.prems by (simp add: frame_spec_def set_stamp_def)
  also have "\<dots> = (if sqs = [] then ?M else ?M(fd \<mapsto> (m, registry_now_ms (env_clock env (Suc k + length sqs - 1)))), out)"
    by (rule Cons.IH) simp
  finally show ?case by (auto simp: fun_upd_def)
qed

lemma child_spec_register:
  assumes "register_meta (env_parser env) json = Some m"
    and "\<not> refuse_spec fd (meta_device_id m) M"
  shows "child_spec env fd 0 ((reg_hdr sq json, json) # map (\<lambda>sq. (hb_hdr sq, [])) sqs) (M, []) =
    (M(fd \<mapsto> (m, registry_now_ms (env_clock env (length sqs)))), ack_frame sq True)"
proof -
  let ?M = "M(fd \<mapsto> (m, registry_now_ms (env_clock env 0)))"
  have "child_spec env fd 0 ((reg_hdr sq json, json) # map (\<lambda>sq. (hb_hdr sq, [])) sqs) (M, []) =
      child_spec env fd 1 (map (\<lambda>sq. (hb_hdr sq, [])) sqs) (?M, ack_frame sq True)"
    using assms by (simp add: frame_spec_def)
  also have "\<dots> = (if sqs = [] then ?M
      else ?M(fd \<mapsto> (m, registry_now_ms (env_clock env (1 + length sqs - 1)))), ack_frame sq True)"
    by (rule child_spec_heartbeats) simp
  finally show ?thesis by simp
qed

lemma stale_single:
  assumes "reg_inv r" and "reg_entry r = [fd \<mapsto> (m, t)]"
  shows "supervisor_check_heartbeats ts timeout_ms r =
    (if unat timeout_ms < unat (registry_now_ms ts) - unat t then 1 else 0)"
proof -
  have "{fd'. \<exists>meta u. reg_entry r fd' = Some (meta, u) \<and> unat timeout_ms < unat (registry_now_ms ts) - unat u} =
      (if unat timeout_ms < unat (registry_now_ms ts) - unat t then {fd} else {})"
    using assms(2) by auto
  then show ?thesis
    unfolding supervisor_check_heartbeats_def stale_count [OF assms(1)] by simp
qed

lemma stale_none:
  assumes "reg_inv r" and "reg_entry r = Map.empty"
  shows "supervisor_check_heartbeats ts timeout_ms r = 0"
  unfolding supervisor_check_heartbeats_def stale_count [OF assms(1)] by (simp add: assms(2))

lemma check_ack:
  assumes "length ack_buf = 256"
  shows "smoke_check_ack ack_buf (ack_frame 42 ok) = Some (if ok then 0 else 9)"
proof -
  let ?a = "ack_frame 42 ok" and ?b = "ack_frame 42 ok @ drop (length (ack_frame 42 ok)) ack_buf"
  have l: "length ?a = (if ok then 23 else 24)" by (rule length_ack_frame)
  then have len: "length ?a \<le> 24" "?a \<noteq> []" by (auto split: if_splits)
  have u: "unat (word_of_nat (length ?a) :: u64) = length ?a" using len(1) by (intro unat_u64) simp
  have cp: "memcpy ack_buf 0 ?a (length ?a) = Some ?b" using len(1) assms by (simp add: mem_simps)
  have "decode_bytes (take (length ?a) ?b) = Inr (ack_hdr 42 ok, ack_text ok)"
    using ack_frame_decodes [of 42 ok "[]"] by simp
  then have d: "proto_decode ?b (word_of_nat (length ?a)) = Some (Inr (ack_hdr 42 ok, PROTO_HDR_SIZE, int (total_len (ack_hdr 42 ok))))"
    using proto_decode_eq [of "word_of_nat (length ?a)" ?b] u by simp
  have "take (unat (payload_len (ack_hdr 42 ok))) (drop PROTO_HDR_SIZE ?b) = ack_text ok"
    using ack_text_length [of ok 42] by (simp add: ack_frame_def frame_bytes_def)
  moreover have "memmem_found (ack_text True) (bytes ''true'')" "\<not> memmem_found (ack_text False) (bytes ''true'')"
    by code_simp+
  moreover have "cmd (ack_hdr 42 ok) = cmd_code PROTO_REGISTER_ACK" "seq (ack_hdr 42 ok) = 42"
    by (simp_all add: ack_hdr_def)
  ultimately show ?thesis
    using len(2) cp d by (cases ok) (simp_all add: smoke_check_ack_def)
qed

section \<open>The two child programs against the server\<close>

text \<open>The tree of the text the supervised child sends, and what registration makes of it.\<close>

definition child_tree :: "u8 list \<Rightarrow> cjson" where
  "child_tree dev = CJObject [(bytes ''device_id'', CJString (cstr dev)), (bytes ''model'', CJString (bytes ''smoke-sup'')),
     (bytes ''fw_version'', CJString (bytes ''0.0.1'')), (bytes ''build_date'', CJString (bytes ''2026-04-28''))]"

definition child_meta :: "u8 list \<Rightarrow> subproc_meta" where
  "child_meta dev = \<lparr>meta_device_id = take 63 (cstr dev), meta_model = bytes ''smoke-sup'',
     meta_fw_version = bytes ''0.0.1'', meta_build_date = bytes ''2026-04-28'', meta_ports = []\<rparr>"

lemma cstr_child_json: "cstr (child_json dev) = child_json dev"
proof (rule cstr_id)
  have "0 \<notin> set (bytes ''{\"device_id\":\"'')"
    "0 \<notin> set (bytes (''\",\"model\":\"smoke-sup\",'' @ ''\"fw_version\":\"0.0.1\",\"build_date\":\"2026-04-28\"}''))"
    by code_simp+
  then show "0 \<notin> set (child_json dev)" by (simp add: child_json_def cstr_no_nul)
qed

lemma child_register_meta:
  assumes "length (cstr dev) \<le> 172" and "P (child_json dev) = Some (child_tree dev)"
  shows "register_meta P (child_json dev) = Some (child_meta dev)"
proof -
  have l: "child_json dev \<noteq> []" "\<not> 4096 < length (child_json dev)"
    using assms(1) length_child_json [of dev] by auto
  have names: "\<not> strcmp_eq (bytes ''model'') (bytes ''device_id'')" "\<not> strcmp_eq (bytes ''fw_version'') (bytes ''device_id'')"
    "\<not> strcmp_eq (bytes ''fw_version'') (bytes ''model'')" "\<not> strcmp_eq (bytes ''build_date'') (bytes ''device_id'')"
    "\<not> strcmp_eq (bytes ''build_date'') (bytes ''model'')" "\<not> strcmp_eq (bytes ''build_date'') (bytes ''fw_version'')"
    "\<not> strcmp_eq (bytes ''ports'') (bytes ''device_id'')" "\<not> strcmp_eq (bytes ''ports'') (bytes ''model'')"
    "\<not> strcmp_eq (bytes ''ports'') (bytes ''fw_version'')" "\<not> strcmp_eq (bytes ''ports'') (bytes ''build_date'')"
    by code_simp+
  have cuts: "cut REGISTRY_DEVICE_ID_LEN (cstr dev) = take 63 (cstr dev)" "cut REGISTRY_MODEL_LEN (bytes ''smoke-sup'') = bytes ''smoke-sup''"
    "cut REGISTRY_FW_VERSION_LEN (bytes ''0.0.1'') = bytes ''0.0.1''" "cut REGISTRY_BUILD_DATE_LEN (bytes ''2026-04-28'') = bytes ''2026-04-28''"
    by (simp add: cut_def REGISTRY_DEVICE_ID_LEN_def) code_simp+
  show ?thesis
    using l names cuts
    by (simp add: register_meta_def cstr_child_json assms(2) child_tree_def json_str_def
        GetObjectItemCaseSensitive_CJObject port_list_def child_meta_def)
qed

lemma child_frames:
  assumes "length (cstr dev) \<le> 172" and "list_all (\<lambda>c. c \<noteq> []) chunks"
    and "concat chunks = child_register dev @ concat (map (\<lambda>i. hb_frame (2 + word_of_nat i)) [0..<k])"
  shows "conn_spec [] (map Data chunks) =
    ((reg_hdr 1 (child_json dev), child_json dev) # map (\<lambda>sq. (hb_hdr sq, [])) (map (\<lambda>i. 2 + word_of_nat i) [0..<k]), False)"
proof -
  let ?hbs = "map (\<lambda>i. (hb_frame (2 + word_of_nat i), (hb_hdr (2 + word_of_nat i), []))) [0..<k]"
  let ?ws = "(child_register dev, (reg_hdr 1 (child_json dev), child_json dev)) # ?hbs"
  have l: "length (child_json dev) \<le> 65536" using assms(1) by (simp add: length_child_json)
  have "decode_bytes b = Inr f \<and> frame_len f = length b" if "(b, f) \<in> set ?ws" for b f
    using that reg_frame_decodes [OF l, of 1] hb_frame_decodes by (auto simp: child_register_def)
  moreover have "concat chunks = concat (map fst ?ws)" by (simp add: assms(3) comp_def)
  ultimately have "conn_spec [] (map Data chunks) = (map snd ?ws, False)"
    using assms(2) conn_spec_frames by blast
  then show ?thesis by (simp add: comp_def)
qed

lemma not_refused_empty: "\<not> refuse_spec fd dev Map.empty"
  by (simp add: refuse_spec_def REGISTRY_MAX_SUBPROCS_def)

lemma child_session:
  assumes "env_ok env" and "env_prompt env" and "length junk = 65548" and "reg_inv r" and "reg_entry r = Map.empty"
    and "length (cstr dev) \<le> 172" and "env_parser env (child_json dev) = Some (child_tree dev)"
    and "list_all (\<lambda>c. c \<noteq> []) chunks"
    and "concat chunks = child_register dev @ concat (map (\<lambda>i. hb_frame (2 + word_of_nat i)) [0..<k])"
  shows "\<exists>s. handle_client env fd junk r (map Data chunks) = Some (False, s) \<and> reg_inv (s_registry s)
      \<and> s_sent s = ack_frame 1 True
      \<and> reg_entry (s_registry s) = [fd \<mapsto> (child_meta dev, registry_now_ms (env_clock env k))]"
    and "\<exists>s. handle_client env fd junk r (map Data chunks @ [Eof]) = Some (True, s) \<and> reg_inv (s_registry s)
      \<and> reg_entry (s_registry s) = Map.empty"
proof -
  let ?fs = "(reg_hdr 1 (child_json dev), child_json dev) # map (\<lambda>sq. (hb_hdr sq, [])) (map (\<lambda>i. 2 + word_of_nat i) [0..<k])"
  have spec: "child_spec env fd 0 ?fs (Map.empty, []) =
      ([fd \<mapsto> (child_meta dev, registry_now_ms (env_clock env k))], ack_frame 1 True)"
    using child_spec_register [of env "child_json dev" "child_meta dev" fd Map.empty 1 "map (\<lambda>i. 2 + word_of_nat i) [0..<k]",
        OF child_register_meta [of dev "env_parser env", OF assms(6,7)] not_refused_empty]
    by (simp only: length_map length_upt diff_zero)
  have fr: "conn_spec [] (map Data chunks) = (?fs, False)" by (rule child_frames [OF assms(6,8,9)])
  show "\<exists>s. handle_client env fd junk r (map Data chunks) = Some (False, s) \<and> reg_inv (s_registry s)
      \<and> s_sent s = ack_frame 1 True
      \<and> reg_entry (s_registry s) = [fd \<mapsto> (child_meta dev, registry_now_ms (env_clock env k))]"
    using handle_client_spec [OF assms(1,3,4) fr, of fd] unfolding assms(5) spec
    by (auto simp: assms(2) Let_def)
  show "\<exists>s. handle_client env fd junk r (map Data chunks @ [Eof]) = Some (True, s) \<and> reg_inv (s_registry s)
      \<and> reg_entry (s_registry s) = Map.empty"
    using handle_client_spec [OF assms(1,3,4) conn_spec_Eof [OF fr], of fd] unfolding assms(5) spec
    by (auto simp: Let_def)
qed

section \<open>Properties\<close>

text \<open>
  C1. The IPC server implements the directory machine. Whatever arrives on a connection, in
  whatever pieces, and whenever it is interrupted: the connection ends when \<open>conn_spec\<close> says
  so, the map of registered programs becomes what \<open>frame_spec\<close> makes of the frames of the
  stream one after the other (a REGISTER adds the program unless it is refused, a HEARTBEAT
  moves its time stamp, nothing else counts), with the entry of the connection removed when
  it ends, and a peer that takes its answers at once is sent exactly the specified
  acknowledgements, in order.
\<close>

theorem ipc_refines_directory:
  assumes "env_ok env" and "length junk = 65548" and "reg_inv r"
  shows "case conn_spec [] evs of (fs, closed) \<Rightarrow>
    \<exists>s. handle_client env fd junk r evs = Some (closed, s)
      \<and> reg_entry (s_registry s) =
          (let M = fst (child_spec env fd 0 fs (reg_entry r, [])) in if closed then M(fd := None) else M)
      \<and> (env_prompt env \<longrightarrow> s_sent s = snd (child_spec env fd 0 fs (reg_entry r, [])))"
proof -
  obtain fs closed where sp: "conn_spec [] evs = (fs, closed)" by (cases "conn_spec [] evs")
  from handle_client_spec [OF assms sp, of fd] show ?thesis unfolding sp by auto
qed

text \<open>
  C8. A supervised child from end to end. The child with a device id of at most 172 bytes whose
  sends succeed writes one registration and \<open>k\<close> heartbeats; however the socket cuts
  these bytes into pieces, the server registers it under the first 63 bytes of its id,
  answers one acknowledgement, and the heartbeat check counts one stale program exactly if
  more than the time-out has passed since the reading of the clock at the last of its frames;
  once the child has closed its socket it is not counted at all.
\<close>

theorem supervised_child_session:
  assumes "env_ok env" and "env_prompt env" and "length junk = 65548" and "reg_inv r" and "reg_entry r = Map.empty"
    and "length (cstr dev) \<le> 172" and "env_parser env (child_json dev) = Some (child_tree dev)"
    and "length json = 256" and "length frame = 512" and "0 \<le> sock" and "0 \<le> conn"
  shows "\<exists>out. supervised_child (Some dev) sock conn (int (95 + length (cstr dev))) (replicate k 12) json frame = Some (0, out)
    \<and> (\<forall>chunks. list_all (\<lambda>c. c \<noteq> []) chunks \<and> concat chunks = out \<longrightarrow>
         (\<exists>s. handle_client env fd junk r (map Data chunks) = Some (False, s)
            \<and> s_sent s = ack_frame 1 True
            \<and> reg_entry (s_registry s) = [fd \<mapsto> (child_meta dev, registry_now_ms (env_clock env k))]
            \<and> supervisor_check_heartbeats ts timeout_ms (s_registry s) =
                (if unat timeout_ms < unat (registry_now_ms ts) - unat (registry_now_ms (env_clock env k)) then 1 else 0))
       \<and> (\<exists>s. handle_client env fd junk r (map Data chunks @ [Eof]) = Some (True, s)
            \<and> supervisor_check_heartbeats ts timeout_ms (s_registry s) = 0))"
proof (intro exI [of _ "child_register dev @ concat (map (\<lambda>i. hb_frame (2 + word_of_nat i)) [0..<k])"] conjI allI impI,
    goal_cases)
  case 1
  show ?case by (rule supervised_child_sends [OF assms(6,9,8,10,11)])
next
  case (2 chunks)
  from child_session(1) [OF assms(1-7) conjunct1 [OF 2] conjunct2 [OF 2], of fd] show ?case
    by (auto simp: stale_single)
next
  case (3 chunks)
  from child_session(2) [OF assms(1-7) conjunct1 [OF 3] conjunct2 [OF 3], of fd] show ?case
    by (auto simp: stale_none)
qed

text \<open>
  C40. The smoke test of the control plane tells the truth. Against the server, with the
  acknowledgement received in one piece, the client of \<^verbatim>\<open>smoke_ipc_client.c\<close> exits with 0 and
  sends its heartbeat exactly if its registration was accepted, and exits with 9 exactly if the
  server refused it; however its REGISTER frame was cut on the way.
\<close>

theorem smoke_client_verdict:
  assumes "env_ok env" and "env_prompt env" and "length junk = 65548" and "reg_inv r"
    and "length frame = 256" and "length ack_buf = 256" and "0 \<le> pe_socket E" and "0 \<le> pe_connect E"
    and "pe_send E 0 = 98" and "pe_send E 1 = 12"
    and "list_all (\<lambda>c. c \<noteq> []) chunks" and "concat chunks = smoke_register"
  shows "\<exists>s. handle_client env fd junk r (map Data chunks) = Some (False, s)
    \<and> (let accepted = (case register_meta (env_parser env) smoke_json of None \<Rightarrow> False
                       | Some m \<Rightarrow> \<not> refuse_spec fd (meta_device_id m) (reg_entry r))
       in smoke_ipc_client (E\<lparr>pe_recv := s_sent s\<rparr>) frame ack_buf =
            Some (if accepted then (0, smoke_register @ hb_frame 43) else (9, smoke_register))
          \<and> (if accepted then reg_entry (s_registry s) fd \<noteq> None else reg_entry (s_registry s) = reg_entry r))"
proof -
  define acc where "acc = (case register_meta (env_parser env) smoke_json of None \<Rightarrow> False
    | Some m \<Rightarrow> \<not> refuse_spec fd (meta_device_id m) (reg_entry r))"
  let ?f = "(reg_hdr 42 smoke_json, smoke_json)"
  let ?sp = "child_spec env fd 0 [?f] (reg_entry r, [])"
  have w: "decode_bytes b = Inr f \<and> frame_len f = length b" if "(b, f) \<in> set [(smoke_register, ?f)]" for b f
    using that reg_frame_decodes [of smoke_json 42] by (simp add: c_strlen_smoke_json smoke_register_def)
  have fr: "conn_spec [] (map Data chunks) = ([?f], False)"
    using conn_spec_frames [of "[(smoke_register, ?f)]" chunks, OF w assms(11)] by (simp add: assms(12))
  have spec: "snd ?sp = ack_frame 42 acc" "if acc then fst ?sp fd \<noteq> None else fst ?sp = reg_entry r"
    by (auto simp: frame_spec_def acc_def split: option.splits)
  obtain s where s: "handle_client env fd junk r (map Data chunks) = Some (False, s)"
    "reg_entry (s_registry s) = fst ?sp" "s_sent s = snd ?sp"
    using handle_client_spec [OF assms(1,3,4) fr, of fd] assms(2) unfolding Let_def if_False by blast
  have "smoke_ipc_client (E\<lparr>pe_recv := s_sent s\<rparr>) frame ack_buf =
      Some (if acc then 0 else 9, smoke_register @ (if (if acc then 0 else 9) = (0 :: int) then hb_frame 43 else []))"
    by (rule smoke_ipc_client_sends) (use assms s(3) spec(1) check_ack [OF assms(6), of acc] in \<open>simp_all\<close>)
  then have "smoke_ipc_client (E\<lparr>pe_recv := s_sent s\<rparr>) frame ack_buf =
      Some (if acc then (0, smoke_register @ hb_frame 43) else (9, smoke_register))" by (cases acc) simp_all
  with s(1,2) spec(2) show ?thesis unfolding acc_def [symmetric] Let_def by auto
qed

section \<open>Witnesses\<close>

definition cp_env :: conn_env where
  "cp_env = \<lparr>env_parser = (\<lambda>t. if t = child_json (bytes ''A1'') then Some (child_tree (bytes ''A1''))
       else if t = smoke_json then Some (CJObject [(bytes ''device_id'', CJString (bytes ''SMOKE-1'')), (bytes ''model'', CJString (bytes ''smoke'')),
         (bytes ''fw_version'', CJString (bytes ''0.0.1'')), (bytes ''build_date'', CJString (bytes ''2026-04-28''))])
       else None),
     env_clock = (\<lambda>k. \<lparr>tv_sec = word_of_nat k + 1, tv_nsec = 0\<rparr>),
     env_send = (\<lambda>k. Wrote 24 # replicate 32 (Wrote 1))\<rparr>"

lemma cp_env_ok: "env_ok cp_env" "env_prompt cp_env"
  "env_parser cp_env (child_json (bytes ''A1'')) = Some (child_tree (bytes ''A1''))"
  by (simp_all add: env_ok_def env_prompt_def cp_env_def)

lemma cp_junk: "length (replicate 65548 (9 :: u8)) = 65548"
  by (rule length_replicate)

lemma static_entries: "reg_entry registry_static = Map.empty"
  by (simp add: reg_entry_uninit registry_static_def)

lemma a1_length: "length (cstr (bytes ''A1'')) = 2"
  by code_simp

theorem ipc_refines_directory_witness:
  "\<exists>s. handle_client cp_env 4 (replicate 65548 9) registry_static [Data (child_register (bytes ''A1''))] = Some (False, s)
     \<and> reg_entry (s_registry s) = [4 \<mapsto> (child_meta (bytes ''A1''), 1000)] \<and> s_sent s = ack_frame 1 True"
proof -
  have ne: "child_register (bytes ''A1'') \<noteq> []" by code_simp
  have l: "length (cstr (bytes ''A1'')) \<le> 172" by (simp add: a1_length)
  have fr: "conn_spec [] [Data (child_register (bytes ''A1''))] = ([(reg_hdr 1 (child_json (bytes ''A1'')), child_json (bytes ''A1''))], False)"
    using child_frames [OF l, of "[child_register (bytes ''A1'')]" 0] ne by simp
  have "child_spec cp_env 4 0 [(reg_hdr 1 (child_json (bytes ''A1'')), child_json (bytes ''A1''))] (Map.empty, []) =
      ([4 \<mapsto> (child_meta (bytes ''A1''), registry_now_ms (env_clock cp_env 0))], ack_frame 1 True)"
    using child_spec_register [of cp_env "child_json (bytes ''A1'')" "child_meta (bytes ''A1'')" 4 Map.empty 1 "[]",
        OF child_register_meta [of _ "env_parser cp_env", OF l cp_env_ok(3)] not_refused_empty] by simp
  moreover have "registry_now_ms (env_clock cp_env 0) = 1000" by code_simp
  ultimately show ?thesis
    using ipc_refines_directory [OF cp_env_ok(1) cp_junk reg_inv_static, of 4 "[Data (child_register (bytes ''A1''))]"]
    unfolding fr static_entries by (simp add: cp_env_ok(2) Let_def)
qed

theorem supervised_child_session_witness:
  "\<exists>out. supervised_child (Some (bytes ''A1'')) 3 0 97 [12, 12] (replicate 256 0) (replicate 512 0) = Some (0, out)
    \<and> (\<exists>s. handle_client cp_env 4 (replicate 65548 9) registry_static (map Data [take 1 out, drop 1 out]) = Some (False, s)
        \<and> supervisor_check_heartbeats \<lparr>tv_sec = 11, tv_nsec = 0\<rparr> 5000 (s_registry s) = 1)"
proof -
  have l: "length (cstr (bytes ''A1'')) \<le> 172" by (simp add: a1_length)
  have j: "length (replicate 256 (0 :: u8)) = 256" and f: "length (replicate 512 (0 :: u8)) = 512" by (rule length_replicate)+
  have rc: "int (95 + length (cstr (bytes ''A1''))) = 97" and two: "replicate 2 (12 :: int) = [12, 12]"
    by (simp_all add: a1_length numeral_2_eq_2)
  have now: "registry_now_ms (env_clock cp_env 2) = 3000" "registry_now_ms \<lparr>tv_sec = 11, tv_nsec = 0\<rparr> = 11000"
    by code_simp+
  let ?run = "\<lambda>out s. handle_client cp_env 4 (replicate 65548 9) registry_static (map Data [take 1 out, drop 1 out]) = Some (False, s)
    \<and> supervisor_check_heartbeats \<lparr>tv_sec = 11, tv_nsec = 0\<rparr> 5000 (s_registry s) = 1"
  obtain out where out: "supervised_child (Some (bytes ''A1'')) 3 0 97 [12, 12] (replicate 256 0) (replicate 512 0) = Some (0, out)"
    and run: "list_all (\<lambda>c. c \<noteq> []) [take 1 out, drop 1 out] \<Longrightarrow> \<exists>s. ?run out s"
  proof -
    from supervised_child_session [OF cp_env_ok(1,2) cp_junk reg_inv_static static_entries l cp_env_ok(3) j f,
        of 3 0 2 4 "\<lparr>tv_sec = 11, tv_nsec = 0\<rparr>" 5000, unfolded rc two now]
    obtain out where o: "supervised_child (Some (bytes ''A1'')) 3 0 97 [12, 12] (replicate 256 0) (replicate 512 0) = Some (0, out)"
      and "\<forall>chunks. list_all (\<lambda>c. c \<noteq> []) chunks \<and> concat chunks = out \<longrightarrow>
         (\<exists>s. handle_client cp_env 4 (replicate 65548 9) registry_static (map Data chunks) = Some (False, s)
            \<and> supervisor_check_heartbeats \<lparr>tv_sec = 11, tv_nsec = 0\<rparr> 5000 (s_registry s) = 1)" by auto
    from o spec [OF this(2), of "[take 1 out, drop 1 out]"] show thesis by (intro that) auto
  qed
  have "out = child_register (bytes ''A1'') @ concat (map (\<lambda>i. hb_frame (2 + word_of_nat i)) [0..<2])"
    using supervised_child_sends [OF l f j, of 3 0 2, unfolded rc two] out by simp
  moreover have "1 < length (child_register (bytes ''A1''))" by code_simp
  ultimately have "list_all (\<lambda>c. c \<noteq> []) [take 1 out, drop 1 out]" by auto
  from run [OF this] out show ?thesis by blast
qed

theorem smoke_client_verdict_witness:
  "\<exists>s. handle_client cp_env 4 (replicate 65548 9) registry_static (map Data [take 7 smoke_register, drop 7 smoke_register]) = Some (False, s)
    \<and> smoke_ipc_client \<lparr>pe_socket = 3, pe_connect = 0, pe_send = (\<lambda>k. if k = 0 then 98 else 12), pe_recv = s_sent s\<rparr>
        (replicate 256 0) (replicate 256 0) = Some (0, smoke_register @ hb_frame 43)"
proof -
  let ?E = "\<lparr>pe_socket = 3, pe_connect = 0, pe_send = (\<lambda>k. if k = (0 :: nat) then (98 :: int) else 12), pe_recv = []\<rparr>"
  have e: "0 \<le> pe_socket ?E" "0 \<le> pe_connect ?E" "pe_send ?E 0 = 98" "pe_send ?E 1 = 12" by simp_all
  have b: "length (replicate 256 (0 :: u8)) = 256" by (rule length_replicate)
  have ch: "list_all (\<lambda>c. c \<noteq> []) [take 7 smoke_register, drop 7 smoke_register]"
    "concat [take 7 smoke_register, drop 7 smoke_register] = smoke_register"
    using length_smoke_register by auto
  have "register_meta (env_parser cp_env) smoke_json \<noteq> None" by code_simp
  then obtain m where m: "register_meta (env_parser cp_env) smoke_json = Some m" by auto
  show ?thesis
    using smoke_client_verdict [OF cp_env_ok(1,2) cp_junk reg_inv_static b b e ch, of 4]
    unfolding m static_entries by (auto simp: not_refused_empty)
qed

end
