(* ===== verification/Watch.thy ===== *)
theory Watch
  imports Dispatcher Supervisor
begin

text \<open>
  The heartbeat check against the IPC thread, step by step. The main thread reads the clock,
  copies the table of child programs under its lock, and judges the copy without the lock;
  in between, the IPC thread handles frames of the programs, and it reads the clock for a
  heartbeat before it takes the lock. The two share the table and one monotonic clock. The
  steps are the code's operations, cut where a thread holds no lock; a run is a list of
  actions in the order they happen.
\<close>

section \<open>State and steps\<close>

text \<open>
  Where the IPC thread is: between frames, or in \<open>registry_update_heartbeat\<close> with the clock
  read and the lock not yet taken. Where the main thread is: outside the check, in it with the
  clock read, in it with the table copied.
\<close>

datatype ipc_pc = Between_frames | Beat_pending int timespec
datatype check_pc = No_check | Clock_read u64 | Table_copied u64 "subproc_entry list"

record watch =
  w_registry :: registry
  w_clock :: timespec
  w_ipc :: ipc_pc
  w_check :: check_pc
  w_warned :: "int list list"

text \<open>\<open>w_warned\<close>: the connections each finished check has warned about.\<close>

datatype watch_action =
    Time_passes timespec
  | Register_frame int "u8 list" | Beat_frame int | Beat_stored | Conn_closed int
  | Check_starts | Check_copies | Check_judges

definition now_of :: "watch \<Rightarrow> u64" where
  "now_of s = registry_now_ms (w_clock s)"

fun ipc_action :: "json_parser \<Rightarrow> watch_action \<Rightarrow> watch \<Rightarrow> watch option" where
  "ipc_action P (Register_frame fd json) s =
     (if w_ipc s = Between_frames
      then map_option (\<lambda>(rc, r). s\<lparr>w_registry := r\<rparr>)
        (registry_register P (w_clock s) fd json (int (length json)) (w_registry s))
      else None)"
| "ipc_action P (Beat_frame fd) s =
     (if w_ipc s = Between_frames then Some (s\<lparr>w_ipc := Beat_pending fd (w_clock s)\<rparr>) else None)"
| "ipc_action P Beat_stored s =
     (case w_ipc s of
        Beat_pending fd ts \<Rightarrow>
          Some (s\<lparr>w_ipc := Between_frames, w_registry := snd (registry_update_heartbeat ts fd (w_registry s))\<rparr>)
      | Between_frames \<Rightarrow> None)"
| "ipc_action P (Conn_closed fd) s =
     (if w_ipc s = Between_frames
      then Some (s\<lparr>w_registry := snd (registry_unregister fd (w_registry s))\<rparr>) else None)"
| "ipc_action P _ s = None"

fun check_action :: "u64 \<Rightarrow> watch_action \<Rightarrow> watch \<Rightarrow> watch option" where
  "check_action T Check_starts s =
     (if w_check s = No_check then Some (s\<lparr>w_check := Clock_read (now_of s)\<rparr>) else None)"
| "check_action T Check_copies s =
     (case w_check s of
        Clock_read n \<Rightarrow> Some (s\<lparr>w_check := Table_copied n (registry_iterate collect_cb (w_registry s) [])\<rparr>)
      | _ \<Rightarrow> None)"
| "check_action T Check_judges s =
     (case w_check s of
        Table_copied n ctx \<Rightarrow>
          Some (s\<lparr>w_check := No_check, w_warned := w_warned s @ [map client_fd (filter (is_stale n T) ctx)]\<rparr>)
      | _ \<Rightarrow> None)"
| "check_action T _ s = None"

text \<open>The clock is \<open>CLOCK_MONOTONIC\<close>.\<close>

fun watch_step :: "json_parser \<Rightarrow> u64 \<Rightarrow> watch_action \<Rightarrow> watch \<Rightarrow> watch option" where
  "watch_step P T (Time_passes ts) s =
     (if now_of s \<le> registry_now_ms ts then Some (s\<lparr>w_clock := ts\<rparr>) else None)"
| "watch_step P T a s =
     (if a \<in> {Check_starts, Check_copies, Check_judges} then check_action T a s else ipc_action P a s)"

fun watch_run :: "json_parser \<Rightarrow> u64 \<Rightarrow> watch_action list \<Rightarrow> watch \<Rightarrow> watch option" where
  "watch_run P T [] s = Some s"
| "watch_run P T (a # as) s = Option.bind (watch_step P T a s) (watch_run P T as)"

section \<open>The steps are the code's operations\<close>

text \<open>A check that nothing interrupts is \<open>supervisor_check_heartbeats\<close>.\<close>

lemma check_uninterrupted:
  assumes "w_check s = No_check"
  shows "\<exists>fds. watch_run P T [Check_starts, Check_copies, Check_judges] s = Some (s\<lparr>w_warned := w_warned s @ [fds]\<rparr>)
    \<and> length fds = supervisor_check_heartbeats (w_clock s) T (w_registry s)"
  using assms
  by (cases s) (simp add: supervisor_check_heartbeats_def supervisor_check_heartbeats_at_def now_of_def Let_def stale_fold)

text \<open>The frames change the table as the dispatcher does.\<close>

lemma frame_actions:
  assumes "w_ipc s = Between_frames"
  shows "cmd h = 0x03 \<Longrightarrow> watch_run P T [Beat_frame fd, Beat_stored] s =
      Some (s\<lparr>w_registry := dispatch_registry P (w_clock s) fd h p (w_registry s)\<rparr>)"
    and "cmd h = 0x01 \<Longrightarrow> registry_register P (w_clock s) fd p (int (length p)) (w_registry s) \<noteq> None \<Longrightarrow>
      watch_run P T [Register_frame fd p] s =
      Some (s\<lparr>w_registry := dispatch_registry P (w_clock s) fd h p (w_registry s)\<rparr>)"
  using assms by (auto simp: dispatch_registry_def reg_touch_def reg_join_def)

section \<open>The clock bounds every time stamp\<close>

definition watch_inv :: "watch \<Rightarrow> bool" where
  "watch_inv s \<longleftrightarrow> reg_inv (w_registry s)
     \<and> (\<forall>fd m t. reg_entry (w_registry s) fd = Some (m, t) \<longrightarrow> t \<le> now_of s)
     \<and> (\<forall>fd ts. w_ipc s = Beat_pending fd ts \<longrightarrow> registry_now_ms ts \<le> now_of s
         \<and> (\<forall>m t. reg_entry (w_registry s) fd = Some (m, t) \<longrightarrow> t \<le> registry_now_ms ts))
     \<and> (\<forall>n. w_check s = Clock_read n \<longrightarrow> n \<le> now_of s)
     \<and> (\<forall>n ctx. w_check s = Table_copied n ctx \<longrightarrow> n \<le> now_of s)"

text \<open>What each step does to an entry of the table and to the rest of the state.\<close>

lemma register_step:
  assumes "reg_inv (w_registry s)" and "ipc_action P (Register_frame fd json) s = Some s'"
  obtains r where "s' = s\<lparr>w_registry := r\<rparr>" "reg_inv r" "w_ipc s = Between_frames"
    "reg_entry r = reg_entry (w_registry s) \<or>
       reg_entry (w_registry s) fd = None \<and> (\<exists>m. reg_entry r = (reg_entry (w_registry s))(fd \<mapsto> (m, now_of s)))"
proof -
  obtain rc r where r: "registry_register P (w_clock s) fd json (int (length json)) (w_registry s) = Some (rc, r)" "reg_inv r"
    "case register_meta P json of
       Some m \<Rightarrow> if refuse_spec fd (meta_device_id m) (reg_entry (w_registry s)) then rc = -1 \<and> reg_entry r = reg_entry (w_registry s)
         else rc = 0 \<and> reg_entry r = (reg_entry (w_registry s))(fd \<mapsto> (m, registry_now_ms (w_clock s)))
     | None \<Rightarrow> rc = -1 \<and> reg_entry r = reg_entry (w_registry s)"
    using register_entry [OF assms(1), of P "w_clock s" fd json] by auto
  have "reg_entry (w_registry s) fd = None" if "\<not> refuse_spec fd d (reg_entry (w_registry s))" for d
    using that by (auto simp: refuse_spec_def)
  with r that assms(2) show thesis
    by (auto simp: now_of_def split: if_splits option.splits)
qed

lemma watch_inv_step:
  assumes "watch_inv s" and "watch_step P T a s = Some s'"
  shows "watch_inv s'"
proof (cases a)
  case (Time_passes ts)
  with assms(2) have s': "s' = s\<lparr>w_clock := ts\<rparr>" and le: "registry_now_ms (w_clock s) \<le> registry_now_ms ts"
    by (simp_all add: now_of_def split: if_splits)
  have "t \<le> registry_now_ms (w_clock s) \<Longrightarrow> t \<le> registry_now_ms ts" for t by (rule order_trans [OF _ le])
  with assms(1) show ?thesis by (simp add: s' watch_inv_def now_of_def)
next
  case (Register_frame fd json)
  have inv: "reg_inv (w_registry s)" using assms(1) by (simp add: watch_inv_def)
  have "ipc_action P (Register_frame fd json) s = Some s'" using assms(2) Register_frame by simp
  from register_step [OF inv this] obtain r where r: "s' = s\<lparr>w_registry := r\<rparr>" "reg_inv r" "w_ipc s = Between_frames"
    "reg_entry r = reg_entry (w_registry s) \<or>
       reg_entry (w_registry s) fd = None \<and> (\<exists>m. reg_entry r = (reg_entry (w_registry s))(fd \<mapsto> (m, now_of s)))" .
  from r(4) have "\<forall>fd m t. reg_entry r fd = Some (m, t) \<longrightarrow> t \<le> now_of s"
    using assms(1) by (auto simp: watch_inv_def split: if_splits)
  with r assms(1) show ?thesis by (simp add: watch_inv_def now_of_def)
next
  case Beat_stored
  with assms obtain fd ts where p: "w_ipc s = Beat_pending fd ts"
    "s' = s\<lparr>w_ipc := Between_frames, w_registry := snd (registry_update_heartbeat ts fd (w_registry s))\<rparr>"
    by (auto split: ipc_pc.splits)
  have inv: "reg_inv (w_registry s)" using assms(1) by (simp add: watch_inv_def)
  show ?thesis
    using assms(1) reg_inv_heartbeat [OF inv, of ts fd]
    by (auto simp: p watch_inv_def now_of_def heartbeat_entry [OF inv] set_stamp_def split: if_splits)
next
  case (Conn_closed fd)
  with assms(2) have p: "w_ipc s = Between_frames"
    "s' = s\<lparr>w_registry := snd (registry_unregister fd (w_registry s))\<rparr>" by (auto split: if_splits)
  have inv: "reg_inv (w_registry s)" using assms(1) by (simp add: watch_inv_def)
  show ?thesis
    using assms(1) reg_inv_unregister [OF inv, of fd]
    by (auto simp: p watch_inv_def now_of_def unregister_entry [OF inv])
qed (use assms in \<open>auto simp: watch_inv_def now_of_def split: if_splits check_pc.splits\<close>)

section \<open>A silent program is always reported\<close>

text \<open>The actions that are frames of a connection or its end.\<close>

fun from_conn :: "int \<Rightarrow> watch_action \<Rightarrow> bool" where
  "from_conn fd (Register_frame fd' json) = (fd' = fd)"
| "from_conn fd (Beat_frame fd') = (fd' = fd)"
| "from_conn fd (Conn_closed fd') = (fd' = fd)"
| "from_conn fd _ = False"

definition overdue :: "u64 \<Rightarrow> u64 \<Rightarrow> u64 \<Rightarrow> bool" where
  "overdue T n t \<longleftrightarrow> unat T < unat n - unat t"

lemma overdue_later: "overdue T n t \<Longrightarrow> n \<le> n' \<Longrightarrow> overdue T n' t"
  by (auto simp: overdue_def word_le_nat_alt)

definition silent :: "u64 \<Rightarrow> int \<Rightarrow> u64 \<Rightarrow> watch \<Rightarrow> bool" where
  "silent T fd t s \<longleftrightarrow> watch_inv s \<and> (\<exists>m. reg_entry (w_registry s) fd = Some (m, t)) \<and> overdue T (now_of s) t
     \<and> (\<forall>ts. w_ipc s \<noteq> Beat_pending fd ts)
     \<and> (\<forall>n. w_check s = Clock_read n \<longrightarrow> overdue T n t)
     \<and> (\<forall>n ctx. w_check s = Table_copied n ctx \<longrightarrow>
          overdue T n t \<and> (\<exists>e \<in> set ctx. client_fd e = fd \<and> last_heartbeat_ms e = t))"

lemma silent_step:
  assumes "silent T fd t s" and "watch_step P T a s = Some s'" and "\<not> from_conn fd a"
  shows "silent T fd t s' \<and> (\<exists>ws. w_warned s' = w_warned s @ ws \<and> list_all (\<lambda>w. fd \<in> set w) ws)"
proof -
  have s: "watch_inv s" "reg_inv (w_registry s)" using assms(1) by (simp_all add: silent_def watch_inv_def)
  have inv': "watch_inv s'" by (rule watch_inv_step [OF s(1) assms(2)])
  show ?thesis
  proof (cases a)
    case (Time_passes ts)
    with assms inv' show ?thesis
      by (auto simp: silent_def now_of_def split: if_splits intro: overdue_later)
  next
    case (Register_frame fd' json)
    have "ipc_action P (Register_frame fd' json) s = Some s'" using assms(2) Register_frame by simp
    from register_step [OF s(2) this] obtain r where r: "s' = s\<lparr>w_registry := r\<rparr>"
      "reg_entry r = reg_entry (w_registry s) \<or>
         reg_entry (w_registry s) fd' = None \<and> (\<exists>m. reg_entry r = (reg_entry (w_registry s))(fd' \<mapsto> (m, now_of s)))" .
    then have "reg_entry r fd = reg_entry (w_registry s) fd" using assms(3) Register_frame by auto
    with assms(1) inv' r(1) show ?thesis by (simp add: silent_def now_of_def)
  next
    case Beat_stored
    with assms(2) obtain fd' ts where p: "w_ipc s = Beat_pending fd' ts"
      "s' = s\<lparr>w_ipc := Between_frames, w_registry := snd (registry_update_heartbeat ts fd' (w_registry s))\<rparr>"
      by (auto split: ipc_pc.splits)
    then have "fd' \<noteq> fd" using assms(1) by (auto simp: silent_def)
    with assms(1) inv' show ?thesis by (simp add: p silent_def now_of_def heartbeat_entry [OF s(2)])
  next
    case (Conn_closed fd')
    with assms inv' show ?thesis
      by (auto simp: silent_def now_of_def unregister_entry [OF s(2)] split: if_splits)
  next
    case Check_starts
    with assms inv' show ?thesis by (auto simp: silent_def now_of_def split: if_splits)
  next
    case Check_copies
    with assms(2) obtain n where n: "w_check s = Clock_read n"
      "s' = s\<lparr>w_check := Table_copied n (registry_iterate collect_cb (w_registry s) [])\<rparr>"
      by (auto split: check_pc.splits)
    obtain m where m: "reg_entry (w_registry s) fd = Some (m, t)" using assms(1) by (auto simp: silent_def)
    have "\<exists>e \<in> set (registry_iterate collect_cb (w_registry s) []). client_fd e = fd \<and> last_heartbeat_ms e = t"
      using collect_entries [OF s(2), of fd "(m, t)"] m by (auto simp: entry_info_def)
    with assms(1) inv' n show ?thesis by (simp add: silent_def now_of_def)
  next
    case Check_judges
    with assms(2) obtain n ctx where n: "w_check s = Table_copied n ctx"
      "s' = s\<lparr>w_check := No_check, w_warned := w_warned s @ [map client_fd (filter (is_stale n T) ctx)]\<rparr>"
      by (auto split: check_pc.splits)
    have "fd \<in> set (map client_fd (filter (is_stale n T) ctx))"
      using assms(1) n(1) by (auto simp: silent_def is_stale_iff overdue_def)
    with assms(1) inv' n show ?thesis by (simp add: silent_def now_of_def)
  qed (use assms inv' in \<open>auto simp: silent_def now_of_def split: if_splits\<close>)
qed

lemma silent_run:
  "silent T fd t s \<Longrightarrow> list_all (\<lambda>a. \<not> from_conn fd a) as \<Longrightarrow> watch_run P T as s = Some s' \<Longrightarrow>
     \<exists>ws. w_warned s' = w_warned s @ ws \<and> list_all (\<lambda>w. fd \<in> set w) ws"
proof (induction as arbitrary: s)
  case Nil
  then show ?case by simp
next
  case (Cons a as)
  obtain s1 where s1: "watch_step P T a s = Some s1" "watch_run P T as s1 = Some s'"
    using Cons.prems(3) by (auto split: bind_splits)
  have "\<not> from_conn fd a" using Cons.prems(2) by simp
  from silent_step [OF Cons.prems(1) s1(1) this] obtain ws where ws: "silent T fd t s1"
    "w_warned s1 = w_warned s @ ws" "list_all (\<lambda>w. fd \<in> set w) ws" by blast
  from Cons.IH [OF ws(1) _ s1(2)] Cons.prems(2) obtain ws' where
    "w_warned s' = w_warned s1 @ ws'" "list_all (\<lambda>w. fd \<in> set w) ws'" by auto
  with ws show ?case by auto
qed

section \<open>A punctual program is never reported\<close>

definition in_time :: "u64 \<Rightarrow> int \<Rightarrow> watch \<Rightarrow> bool" where
  "in_time T fd s \<longleftrightarrow>
     (case reg_entry (w_registry s) fd of None \<Rightarrow> True | Some (m, t) \<Rightarrow> \<not> overdue T (now_of s) t)"

text \<open>Whenever a check reads the clock, the program's time stamp is recent enough.\<close>

fun punctual :: "json_parser \<Rightarrow> u64 \<Rightarrow> int \<Rightarrow> watch_action list \<Rightarrow> watch \<Rightarrow> bool" where
  "punctual P T fd [] s = True"
| "punctual P T fd (a # as) s =
     ((if a = Check_starts then in_time T fd s else True)
      \<and> (case watch_step P T a s of None \<Rightarrow> True | Some s' \<Rightarrow> punctual P T fd as s'))"

lemma overdue_newer: "\<not> overdue T n t \<Longrightarrow> t \<le> t' \<Longrightarrow> \<not> overdue T n t'"
  by (auto simp: overdue_def word_le_nat_alt)

lemma overdue_future: "n \<le> t \<Longrightarrow> \<not> overdue T n t"
  by (auto simp: overdue_def word_le_nat_alt)

definition cleared :: "u64 \<Rightarrow> int \<Rightarrow> watch \<Rightarrow> bool" where
  "cleared T fd s \<longleftrightarrow> watch_inv s
     \<and> (\<forall>n m t. w_check s = Clock_read n \<and> reg_entry (w_registry s) fd = Some (m, t) \<longrightarrow> \<not> overdue T n t)
     \<and> (\<forall>n ctx e. w_check s = Table_copied n ctx \<and> e \<in> set ctx \<and> client_fd e = fd
          \<longrightarrow> \<not> overdue T n (last_heartbeat_ms e))"

lemma cleared_step:
  assumes "cleared T fd s" and "watch_step P T a s = Some s'" and "a = Check_starts \<Longrightarrow> in_time T fd s"
  shows "cleared T fd s' \<and> (\<exists>ws. w_warned s' = w_warned s @ ws \<and> list_all (\<lambda>w. fd \<notin> set w) ws)"
proof -
  have s: "watch_inv s" "reg_inv (w_registry s)" using assms(1) by (simp_all add: cleared_def watch_inv_def)
  have inv': "watch_inv s'" by (rule watch_inv_step [OF s(1) assms(2)])
  show ?thesis
  proof (cases a)
    case (Time_passes ts)
    with assms(1,2) inv' show ?thesis by (auto simp: cleared_def split: if_splits)
  next
    case (Register_frame fd' json)
    have "ipc_action P (Register_frame fd' json) s = Some s'" using assms(2) Register_frame by simp
    from register_step [OF s(2) this] obtain r where r: "s' = s\<lparr>w_registry := r\<rparr>"
      "reg_entry r = reg_entry (w_registry s) \<or>
         reg_entry (w_registry s) fd' = None \<and> (\<exists>m. reg_entry r = (reg_entry (w_registry s))(fd' \<mapsto> (m, now_of s)))" .
    have "\<not> overdue T n (now_of s)" if "w_check s = Clock_read n" for n
      using that s(1) by (simp add: watch_inv_def overdue_future)
    with assms(1) inv' r show ?thesis by (auto simp: cleared_def split: if_splits)
  next
    case Beat_stored
    with assms(2) obtain fd' ts where p: "w_ipc s = Beat_pending fd' ts"
      "s' = s\<lparr>w_ipc := Between_frames, w_registry := snd (registry_update_heartbeat ts fd' (w_registry s))\<rparr>"
      by (auto split: ipc_pc.splits)
    have "t \<le> registry_now_ms ts" if "reg_entry (w_registry s) fd' = Some (m, t)" for m t
      using that s(1) p(1) by (simp add: watch_inv_def)
    with assms(1) inv' show ?thesis
      by (auto simp: p cleared_def heartbeat_entry [OF s(2)] set_stamp_def split: if_splits dest: overdue_newer)
  next
    case (Conn_closed fd')
    with assms(1,2) inv' show ?thesis
      by (auto simp: cleared_def unregister_entry [OF s(2)] split: if_splits)
  next
    case Check_starts
    with assms inv' show ?thesis by (auto simp: cleared_def in_time_def split: if_splits option.splits)
  next
    case Check_copies
    with assms(2) obtain n where n: "w_check s = Clock_read n"
      "s' = s\<lparr>w_check := Table_copied n (registry_iterate collect_cb (w_registry s) [])\<rparr>"
      by (auto split: check_pc.splits)
    have "reg_entry (w_registry s) fd = Some (entry_meta e, last_heartbeat_ms e)"
      if "e \<in> set (registry_iterate collect_cb (w_registry s) [])" "client_fd e = fd" for e
      using collect_entries [OF s(2), of fd "entry_info e"] that by (auto simp: entry_info_def)
    with assms(1) inv' n show ?thesis by (auto simp: cleared_def)
  next
    case Check_judges
    with assms(2) obtain n ctx where n: "w_check s = Table_copied n ctx"
      "s' = s\<lparr>w_check := No_check, w_warned := w_warned s @ [map client_fd (filter (is_stale n T) ctx)]\<rparr>"
      by (auto split: check_pc.splits)
    have "fd \<notin> set (map client_fd (filter (is_stale n T) ctx))"
      using assms(1) n(1) by (auto simp: cleared_def is_stale_iff overdue_def)
    with inv' n show ?thesis by (simp add: cleared_def)
  qed (use assms inv' in \<open>auto simp: cleared_def split: if_splits\<close>)
qed

lemma cleared_run:
  "cleared T fd s \<Longrightarrow> punctual P T fd as s \<Longrightarrow> watch_run P T as s = Some s' \<Longrightarrow>
     \<exists>ws. w_warned s' = w_warned s @ ws \<and> list_all (\<lambda>w. fd \<notin> set w) ws"
proof (induction as arbitrary: s)
  case Nil
  then show ?case by simp
next
  case (Cons a as)
  obtain s1 where s1: "watch_step P T a s = Some s1" "watch_run P T as s1 = Some s'"
    using Cons.prems(3) by (auto split: bind_splits)
  have "a = Check_starts \<Longrightarrow> in_time T fd s" using Cons.prems(2) by simp
  from cleared_step [OF Cons.prems(1) s1(1) this] obtain ws where ws: "cleared T fd s1"
    "w_warned s1 = w_warned s @ ws" "list_all (\<lambda>w. fd \<notin> set w) ws" by blast
  from Cons.IH [OF ws(1) _ s1(2)] Cons.prems(2) s1(1) obtain ws' where
    "w_warned s' = w_warned s1 @ ws'" "list_all (\<lambda>w. fd \<notin> set w) ws'" by auto
  with ws show ?case by auto
qed

section \<open>Properties\<close>

definition watch_start :: "timespec \<Rightarrow> watch" where
  "watch_start ts = \<lparr>w_registry = registry_init registry_static, w_clock = ts, w_ipc = Between_frames,
     w_check = No_check, w_warned = []\<rparr>"

lemma watch_start_inv: "watch_inv (watch_start ts)"
  using reg_inv_init [OF reg_inv_static]
  by (simp add: watch_inv_def watch_start_def reg_entry_uninit registry_static_def)

lemma watch_inv_run: "watch_run P T as s = Some s' \<Longrightarrow> watch_inv s \<Longrightarrow> watch_inv s'"
  by (induction as arbitrary: s) (auto split: bind_splits dest: watch_inv_step)

text \<open>
  C7. A silent program is found by every check. Over any interleaving of the main thread's
  check with the IPC thread, from any reachable state between two checks in which the time
  stamp of a registered program is older than the time-out: as long as no further frame of
  that program arrives and its connection stays open, every check that finishes warns about
  it, whatever other programs do meanwhile.
\<close>

theorem silent_child_reported:
  assumes "watch_run P T as0 (watch_start ts) = Some s" and "w_check s = No_check"
    and "reg_entry (w_registry s) fd = Some (m, t)" and "unat T < unat (now_of s) - unat t"
    and "w_ipc s = Between_frames" and "list_all (\<lambda>a. \<not> from_conn fd a) as" and "watch_run P T as s = Some s'"
  shows "\<exists>ws. w_warned s' = w_warned s @ ws \<and> list_all (\<lambda>w. fd \<in> set w) ws"
proof -
  have "watch_inv s" by (rule watch_inv_run [OF assms(1) watch_start_inv])
  with assms(2-5) have "silent T fd t s" by (simp add: silent_def overdue_def)
  from silent_run [OF this assms(6,7)] show ?thesis .
qed

text \<open>
  C6. No false alarm. Over any interleaving from the start: a program whose time stamp is at most
  the time-out old each time a check reads the clock is never warned about, although its
  heartbeats may be stored, and its entry may even be made or removed, between the reading
  of the clock and the copying of the table, with time stamps later than the time of the
  check.
\<close>

theorem punctual_child_never_reported:
  assumes "watch_run P T as (watch_start ts) = Some s" and "punctual P T fd as (watch_start ts)"
  shows "list_all (\<lambda>w. fd \<notin> set w) (w_warned s)"
proof -
  have "cleared T fd (watch_start ts)" using watch_start_inv by (simp add: cleared_def watch_start_def)
  from cleared_run [OF this assms(2,1)] show ?thesis by (auto simp: watch_start_def)
qed

text \<open>Two programs; the first falls silent, the second keeps sending heartbeats.\<close>

definition watch_t :: "u64 \<Rightarrow> timespec" where
  "watch_t n = \<lparr>tv_sec = n, tv_nsec = 0\<rparr>"

definition demo_before :: "watch_action list" where
  "demo_before = [Register_frame 4 demo_json, Time_passes (watch_t 5), Time_passes (watch_t 7)]"

definition demo_after :: "watch_action list" where
  "demo_after = [Check_starts, Beat_frame 5, Check_copies, Beat_stored, Check_judges]"

lemma demo_before_runs:
  "map_option (\<lambda>s. (w_check s, reg_entry (w_registry s) 4, now_of s, w_ipc s, w_warned s))
     (watch_run demo_parser 5000 demo_before (watch_start (watch_t 1))) =
   Some (No_check, Some (demo_meta, 1000), 7000, Between_frames, [])"
  by code_simp

lemma demo_after_runs:
  "Option.bind (watch_run demo_parser 5000 demo_before (watch_start (watch_t 1))) (watch_run demo_parser 5000 demo_after) \<noteq> None"
  by code_simp

theorem silent_child_reported_witness:
  "\<exists>s s'. watch_run demo_parser 5000 demo_before (watch_start (watch_t 1)) = Some s
     \<and> watch_run demo_parser 5000 demo_after s = Some s' \<and> list_all (\<lambda>w. 4 \<in> set w) (w_warned s')"
proof -
  obtain s where s: "watch_run demo_parser 5000 demo_before (watch_start (watch_t 1)) = Some s"
    "w_check s = No_check" "reg_entry (w_registry s) 4 = Some (demo_meta, 1000)" "now_of s = 7000"
    "w_ipc s = Between_frames" "w_warned s = []"
    using demo_before_runs by auto
  obtain s' where s': "watch_run demo_parser 5000 demo_after s = Some s'" using demo_after_runs s(1) by auto
  have late: "unat (5000 :: u64) < unat (now_of s) - unat (1000 :: u64)" by (simp add: s(4))
  have quiet: "list_all (\<lambda>a. \<not> from_conn 4 a) demo_after" by (simp add: demo_after_def)
  from silent_child_reported [OF s(1-3) late s(5) quiet s'] s(1,6) s' show ?thesis by auto
qed

definition demo_punctual :: "watch_action list" where
  "demo_punctual = [Register_frame 4 demo_json, Time_passes (watch_t 5), Check_starts, Time_passes (watch_t 6),
     Beat_frame 4, Beat_stored, Check_copies, Check_judges]"

theorem punctual_child_never_reported_witness:
  "\<exists>s. watch_run demo_parser 5000 demo_punctual (watch_start (watch_t 1)) = Some s
     \<and> list_all (\<lambda>w. 4 \<notin> set w) (w_warned s)"
proof -
  have p: "punctual demo_parser 5000 4 demo_punctual (watch_start (watch_t 1))" by code_simp
  have "watch_run demo_parser 5000 demo_punctual (watch_start (watch_t 1)) \<noteq> None" by code_simp
  then obtain s where s: "watch_run demo_parser 5000 demo_punctual (watch_start (watch_t 1)) = Some s" by auto
  from punctual_child_never_reported [OF s p] s show ?thesis by blast
qed

end
